(* ===== verification/Go_Prelude.thy ===== *)
theory Go_Prelude
  imports Main "HOL-Library.Word"
begin

text \<open>
  What every component of the bridge model shares: machine words, byte slices, and the three
  ways a Go function can end.  A value of type \<open>('e, 'a) outcome\<close> is a normal return
  (\<open>Ret\<close>), a returned \<open>error\<close> (\<open>Fail\<close>), or a run-time panic (\<open>Panic\<close>).  Indexing, slicing
  and \<open>encoding/binary\<close> accesses of the source go through \<open>go_at\<close>, \<open>go_set\<close>, \<open>go_slice\<close>,
  \<open>le_uint16\<close> and \<open>le_uint32\<close>, which yield \<open>Panic\<close> where Go's bounds check would, so that
  panic freedom is something the component theories prove and not something the model assumes.

  Go's run-time bounds check of \<open>s[lo:hi]\<close> compares \<open>hi\<close> with the capacity of \<open>s\<close>; the model
  compares it with the length, which panics at least as often.
\<close>

unbundle bit_operations_syntax

type_synonym u8 = "8 word"
type_synonym u16 = "16 word"
type_synonym u32 = "32 word"
type_synonym u64 = "64 word"
type_synonym bytes = "u8 list"

named_theorems go_simps \<open>evaluation of the Go primitives on arguments known to be in range\<close>
named_theorems go_results \<open>when a composed call returns, fails or panics\<close>
named_theorems le_simps \<open>little-endian put/get round trips\<close>


section \<open>Results of a Go call\<close>

datatype ('e, 'a) outcome = Ret 'a | Fail 'e | Panic

fun go_bind :: "('e, 'a) outcome \<Rightarrow> ('a \<Rightarrow> ('e, 'b) outcome) \<Rightarrow> ('e, 'b) outcome" where
  "go_bind (Ret x) f = f x"
| "go_bind (Fail e) f = Fail e"
| "go_bind Panic f = Panic"

text \<open>\<open>fmt.Errorf("...: %w", err)\<close>: the error is wrapped, a panic passes through.\<close>

fun go_wrap :: "('e \<Rightarrow> 'f) \<Rightarrow> ('e, 'a) outcome \<Rightarrow> ('f, 'a) outcome" where
  "go_wrap w (Ret x) = Ret x"
| "go_wrap w (Fail e) = Fail (w e)"
| "go_wrap w Panic = Panic"

text \<open>A counted loop: the body runs once for each index, in order, and stops at the first exit.\<close>

fun go_for :: "('i \<Rightarrow> 's \<Rightarrow> ('e, 's) outcome) \<Rightarrow> 'i list \<Rightarrow> 's \<Rightarrow> ('e, 's) outcome" where
  "go_for body [] s = Ret s"
| "go_for body (i # is) s = go_bind (body i s) (go_for body is)"

lemma go_bind_eq_Ret [go_results]: "go_bind m f = Ret y \<longleftrightarrow> (\<exists>x. m = Ret x \<and> f x = Ret y)"
  by (cases m) auto

lemma go_bind_eq_Fail [go_results]:
  "go_bind m f = Fail e \<longleftrightarrow> m = Fail e \<or> (\<exists>x. m = Ret x \<and> f x = Fail e)"
  by (cases m) auto

lemma go_bind_eq_Panic [go_results]:
  "go_bind m f = Panic \<longleftrightarrow> m = Panic \<or> (\<exists>x. m = Ret x \<and> f x = Panic)"
  by (cases m) auto

lemma go_bind_assoc: "go_bind (go_bind m f) g = go_bind m (\<lambda>x. go_bind (f x) g)"
  by (cases m) auto

text \<open>For evaluation: simplify the first call before looking at the rest.\<close>

lemma go_bind_weak_cong: "m = m' \<Longrightarrow> go_bind m f = go_bind m' f"
  by simp

lemma go_wrap_eq_Ret [simp]: "go_wrap w m = Ret y \<longleftrightarrow> m = Ret y"
  by (cases m) auto

lemma go_wrap_eq_Fail: "go_wrap w m = Fail e \<longleftrightarrow> (\<exists>e'. m = Fail e' \<and> e = w e')"
  by (cases m) auto

lemma go_wrap_eq_Panic [simp]: "go_wrap w m = Panic \<longleftrightarrow> m = Panic"
  by (cases m) auto

text \<open>Whether a guarded call returns, without splitting on its guards one by one.\<close>

definition returns :: "('e, 'a) outcome \<Rightarrow> bool" where
  "returns m \<longleftrightarrow> (\<exists>x. m = Ret x)"

lemma returns_simps [simp]:
  "returns (Ret x)" "\<not> returns (Fail e)" "\<not> returns Panic"
  "returns (if c then Fail e else m) \<longleftrightarrow> \<not> c \<and> returns m"
  by (auto simp: returns_def)

lemma go_for_not_Panic: "(\<And>i s. body i s \<noteq> Panic) \<Longrightarrow> go_for body is s \<noteq> Panic"
  by (induction "is" arbitrary: s) (auto simp: go_bind_eq_Panic)

lemma go_for_append: "go_for body (is @ js) s = go_bind (go_for body is s) (go_for body js)"
proof (induction "is" arbitrary: s)
  case (Cons i "is")
  show ?case by (cases "body i s") (simp_all add: Cons.IH)
qed simp

text \<open>
  The refinement rule for loops: a body that, on states satisfying an invariant and indices
  satisfying \<open>Q\<close>, neither fails nor panics and computes \<open>g\<close>, makes the loop a \<open>fold\<close>.
\<close>

lemma go_for_fold:
  assumes "\<And>i s. Q i \<Longrightarrow> I s \<Longrightarrow> body i s = Ret (g i s)"
    and "\<And>i s. Q i \<Longrightarrow> I s \<Longrightarrow> I (g i s)"
    and "\<forall>i\<in>set is. Q i" and "I s"
  shows "go_for body is s = Ret (fold g is s) \<and> I (fold g is s)"
  using assms(3,4) by (induction "is" arbitrary: s) (auto simp: assms(1,2))


section \<open>Indexing and slicing\<close>

definition go_at :: "'a list \<Rightarrow> nat \<Rightarrow> ('e, 'a) outcome" where
  "go_at xs i = (if i < length xs then Ret (xs ! i) else Panic)"

definition go_set :: "'a list \<Rightarrow> nat \<Rightarrow> 'a \<Rightarrow> ('e, 'a list) outcome" where
  "go_set xs i v = (if i < length xs then Ret (xs[i := v]) else Panic)"

definition go_slice :: "'a list \<Rightarrow> int \<Rightarrow> int \<Rightarrow> ('e, 'a list) outcome" where
  "go_slice xs lo hi =
     (if 0 \<le> lo \<and> lo \<le> hi \<and> hi \<le> int (length xs)
      then Ret (take (nat (hi - lo)) (drop (nat lo) xs)) else Panic)"

text \<open>\<open>s[lo:]\<close>\<close>

definition go_from :: "'a list \<Rightarrow> int \<Rightarrow> ('e, 'a list) outcome" where
  "go_from xs lo = go_slice xs lo (int (length xs))"

text \<open>\<open>make([]byte, n)\<close>\<close>

definition go_make :: "int \<Rightarrow> ('e, bytes) outcome" where
  "go_make n = (if 0 \<le> n then Ret (replicate (nat n) 0) else Panic)"

text \<open>\<open>copy(dst[off:], src)\<close>: as many bytes as fit.\<close>

definition go_copy :: "'a list \<Rightarrow> nat \<Rightarrow> 'a list \<Rightarrow> ('e, 'a list) outcome" where
  "go_copy dst off src =
     (if off \<le> length dst
      then Ret (take off dst @ take (length dst - off) src @ drop (off + length src) dst)
      else Panic)"

lemma go_at_in [go_simps]: "i < length xs \<Longrightarrow> go_at xs i = Ret (xs ! i)"
  by (simp add: go_at_def)

lemma go_set_in [go_simps]: "i < length xs \<Longrightarrow> go_set xs i v = Ret (xs[i := v])"
  by (simp add: go_set_def)

lemma go_from_in [go_simps]:
  "0 \<le> lo \<Longrightarrow> lo \<le> int (length xs) \<Longrightarrow> go_from xs lo = Ret (drop (nat lo) xs)"
proof -
  assume "0 \<le> lo" "lo \<le> int (length xs)"
  then have "nat (int (length xs) - lo) = length (drop (nat lo) xs)" by (simp add: nat_diff_distrib)
  with \<open>0 \<le> lo\<close> \<open>lo \<le> int (length xs)\<close> show ?thesis
    by (simp add: go_from_def go_slice_def)
qed

lemma go_slice_in [go_simps]:
  "0 \<le> lo \<Longrightarrow> lo \<le> hi \<Longrightarrow> hi \<le> int (length xs) \<Longrightarrow>
   go_slice xs lo hi = Ret (take (nat (hi - lo)) (drop (nat lo) xs))"
  by (simp add: go_slice_def)

lemma go_slice_not_Fail [simp]: "go_slice xs lo hi \<noteq> Fail e"
  by (simp add: go_slice_def)

lemma go_from_not_Fail [simp]: "go_from xs lo \<noteq> Fail e"
  by (simp add: go_from_def)

lemma go_from_append [simp]: "go_from (xs @ ys) (int (length xs)) = Ret ys"
  by (simp add: go_simps)


section \<open>encoding/binary, little endian\<close>

definition le_bytes16 :: "u16 \<Rightarrow> bytes" where
  "le_bytes16 w = [ucast w, ucast (drop_bit 8 w)]"

definition le_bytes32 :: "u32 \<Rightarrow> bytes" where
  "le_bytes32 w = [ucast w, ucast (drop_bit 8 w), ucast (drop_bit 16 w), ucast (drop_bit 24 w)]"

definition le_word16 :: "u8 \<Rightarrow> u8 \<Rightarrow> u16" where
  "le_word16 b0 b1 = ucast b0 OR push_bit 8 (ucast b1)"

definition le_word32 :: "u8 \<Rightarrow> u8 \<Rightarrow> u8 \<Rightarrow> u8 \<Rightarrow> u32" where
  "le_word32 b0 b1 b2 b3 =
     ucast b0 OR push_bit 8 (ucast b1) OR push_bit 16 (ucast b2) OR push_bit 24 (ucast b3)"

fun le_uint16 :: "bytes \<Rightarrow> ('e, u16) outcome" where
  "le_uint16 (b0 # b1 # _) = Ret (le_word16 b0 b1)"
| "le_uint16 _ = Panic"

fun le_uint32 :: "bytes \<Rightarrow> ('e, u32) outcome" where
  "le_uint32 (b0 # b1 # b2 # b3 # _) = Ret (le_word32 b0 b1 b2 b3)"
| "le_uint32 _ = Panic"

text \<open>\<open>PutUint16(buf[off:off+2], v)\<close> and \<open>PutUint32(buf[off:off+4], v)\<close>.\<close>

definition le_put16 :: "bytes \<Rightarrow> nat \<Rightarrow> u16 \<Rightarrow> ('e, bytes) outcome" where
  "le_put16 buf off v = (if off + 2 \<le> length buf then go_copy buf off (le_bytes16 v) else Panic)"

definition le_put32 :: "bytes \<Rightarrow> nat \<Rightarrow> u32 \<Rightarrow> ('e, bytes) outcome" where
  "le_put32 buf off v = (if off + 4 \<le> length buf then go_copy buf off (le_bytes32 v) else Panic)"

lemma length_le_bytes [simp]: "length (le_bytes16 v) = 2" "length (le_bytes32 w) = 4"
  by (simp_all add: le_bytes16_def le_bytes32_def)

lemma le_word32_bytes [le_simps]:
  "le_word32 (ucast w) (ucast (drop_bit 8 w)) (ucast (drop_bit 16 w)) (ucast (drop_bit 24 w)) = w"
  for w :: u32
proof (rule bit_word_eqI)
  fix n assume "n < LENGTH(32)"
  then show "bit (le_word32 (ucast w) (ucast (drop_bit 8 w)) (ucast (drop_bit 16 w))
      (ucast (drop_bit 24 w))) n = bit w n"
    by (cases "n < 8"; cases "n < 16"; cases "n < 24") (auto simp: le_word32_def bit_simps)
qed

lemma le_word16_bytes [le_simps]: "le_word16 (ucast w) (ucast (drop_bit 8 w)) = w" for w :: u16
  by (rule bit_word_eqI) (auto simp: le_word16_def bit_simps)

lemma le_uint32_bytes [simp]: "le_uint32 (le_bytes32 w @ rest) = Ret w"
  by (simp add: le_bytes32_def le_simps)

lemma le_uint16_bytes [simp]: "le_uint16 (le_bytes16 w @ rest) = Ret w"
  by (simp add: le_bytes16_def le_simps)

lemma le_bytes32_inject [simp]: "le_bytes32 v = le_bytes32 w \<longleftrightarrow> v = w"
  by (metis append_Nil2 le_uint32_bytes outcome.inject(1))

lemma uint_eq_int_iff: "uint w = int n \<longleftrightarrow> unat w = n"
  by (simp add: uint_nat del: of_nat_unat)

lemma bit_u8_beyond [simp]: "8 \<le> n \<Longrightarrow> \<not> bit (b :: u8) n"
  by (auto dest: bit_imp_le_length)

lemma le_bytes32_word [le_simps]: "le_bytes32 (le_word32 b0 b1 b2 b3) = [b0, b1, b2, b3]"
  by (auto simp: le_bytes32_def le_word32_def bit_simps intro!: bit_word_eqI)

lemma le_bytes16_word [le_simps]: "le_bytes16 (le_word16 b0 b1) = [b0, b1]"
  by (auto simp: le_bytes16_def le_word16_def bit_simps intro!: bit_word_eqI)


lemma unat_le_word16: "unat (le_word16 b0 b1) = unat b0 + 256 * unat b1"
proof -
  define w where "w = le_word16 b0 b1"
  have "[ucast w, ucast (drop_bit 8 w)] = [b0, b1]"
    using le_bytes16_word [of b0 b1] by (simp add: w_def le_bytes16_def)
  then have b: "b0 = ucast w" "b1 = ucast (drop_bit 8 w)" by simp_all
  have "unat w < 256 * 256" using unsigned_less [of w, where ?'a = nat] by simp
  then have "unat b1 = unat w div 256" "unat b0 = unat w mod 256"
    unfolding b by (simp_all add: unsigned_ucast_eq unsigned_drop_bit_eq take_bit_eq_mod drop_bit_eq_div
        unat_div less_mult_imp_div_less)
  then show ?thesis by (simp add: w_def)
qed


section \<open>Go strings\<close>

text \<open>
  A Go string is a sequence of bytes; the model writes it as \<open>string\<close> (a \<open>char\<close> is a byte in
  HOL) so that literals stay readable, and converts with \<open>string_bytes\<close> (\<open>[]byte(s)\<close>) and
  \<open>bytes_string\<close> (\<open>string(b)\<close>).
\<close>

definition string_bytes :: "string \<Rightarrow> bytes" where
  "string_bytes s = map of_char s"

definition bytes_string :: "bytes \<Rightarrow> string" where
  "bytes_string bs = map (\<lambda>b. char_of (unat b)) bs"

lemma length_string_bytes [simp]: "length (string_bytes s) = length s"
  by (simp add: string_bytes_def)

lemma unat_of_char_u8: "unat (of_char c :: u8) = (of_char c :: nat)"
proof -
  have "(of_char c :: u8) = of_nat (of_char c)" by (simp only: of_nat_of_char)
  then show ?thesis by (simp add: unsigned_of_nat take_bit_eq_mod)
qed

lemma bytes_string_bytes [simp]: "bytes_string (string_bytes s) = s"
  by (induction s) (simp_all add: bytes_string_def string_bytes_def unat_of_char_u8)

lemma string_bytes_string [simp]: "string_bytes (bytes_string bs) = bs"
proof -
  have "(of_char (char_of (unat b) :: char) :: u8) = b" for b :: u8
  proof -
    have "unat (of_char (char_of (unat b) :: char) :: u8) = unat b mod 256"
      by (simp only: unat_of_char_u8 of_char_of)
    moreover have "unat b < 256" using unsigned_less [of b] by simp
    ultimately show ?thesis by (simp add: unsigned_word_eqI)
  qed
  then show ?thesis by (induction bs) (simp_all add: bytes_string_def string_bytes_def)
qed

lemma length_bytes_string [simp]: "length (bytes_string bs) = length bs"
  by (simp add: bytes_string_def)

end
