(* ===== verification/Go_Hash.thy ===== *)
theory Go_Hash
  imports Go_Prelude
begin

text \<open>
  The two hash functions the bridge calls from Go's standard library, as executable functions on
  byte lists: \<open>crc32_ieee\<close> (\<open>crc32.ChecksumIEEE\<close>; the bitwise algorithm of \<open>topic_crc32\<close> in
  \<open>components/mpubsub/topic_hash.cpp\<close>) and \<open>sha256\<close> (\<open>sha256.Sum256\<close>; the block function of
  \<open>components/mpubsub/sha256.cpp\<close> with FIPS 180-4 padding).  The known-answer lemmas at the end
  of each section evaluate them inside the kernel.
\<close>

section \<open>CRC-32/IEEE\<close>

definition crc32_poly :: u32 where
  "crc32_poly = 0xEDB88320"

definition crc32_bit :: "u32 \<Rightarrow> u32" where
  "crc32_bit crc = drop_bit 1 crc XOR (crc32_poly AND - (crc AND 1))"

definition crc32_byte :: "u32 \<Rightarrow> u8 \<Rightarrow> u32" where
  "crc32_byte crc c = fold (\<lambda>_. crc32_bit) [0..<8::nat] (crc XOR ucast c)"

definition crc32_ieee :: "bytes \<Rightarrow> u32" where
  "crc32_ieee bs = NOT (foldl crc32_byte 0xFFFFFFFF bs)"


lemma upt_0_8: "[0..<8] = [0, 1, 2, 3, 4, 5, 6, 7::nat]"
  by (simp add: upt_rec)

lemmas crc32_eval = crc32_ieee_def string_bytes_def crc32_byte_def crc32_bit_def crc32_poly_def
  upt_0_8


section \<open>SHA-256\<close>

text \<open>The round constants and the initial state of FIPS 180-4, in decimal.\<close>

definition sha256_k :: "u32 list" where
  "sha256_k =
    [1116352408, 1899447441, 3049323471, 3921009573,
     961987163, 1508970993, 2453635748, 2870763221,
     3624381080, 310598401, 607225278, 1426881987, 1925078388, 2162078206, 2614888103, 3248222580,
     3835390401, 4022224774, 264347078, 604807628, 770255983, 1249150122, 1555081692, 1996064986,
     2554220882, 2821834349, 2952996808, 3210313671, 3336571891, 3584528711, 113926993, 338241895,
     666307205, 773529912, 1294757372, 1396182291, 1695183700, 1986661051, 2177026350, 2456956037,
     2730485921, 2820302411, 3259730800, 3345764771,
      3516065817, 3600352804, 4094571909, 275423344,
     430227734, 506948616, 659060556, 883997877, 958139571, 1322822218, 1537002063, 1747873779,
     1955562222, 2024104815, 2227730452, 2361852424,
      2428436474, 2756734187, 3204031479, 3329325298]"

definition sha256_init :: "u32 list" where
  "sha256_init = [1779033703, 3144134277, 1013904242, 2773480762,
                  1359893119, 2600822924, 528734635, 1541459225]"

definition rotr :: "u32 \<Rightarrow> nat \<Rightarrow> u32" where
  "rotr x n = drop_bit n x OR push_bit (32 - n) x"

fun be_words :: "bytes \<Rightarrow> u32 list" where
  "be_words (b0 # b1 # b2 # b3 # rest) = le_word32 b3 b2 b1 b0 # be_words rest"
| "be_words _ = []"

definition be_bytes32 :: "u32 \<Rightarrow> bytes" where
  "be_bytes32 w = [ucast (drop_bit 24 w), ucast (drop_bit 16 w), ucast (drop_bit 8 w), ucast w]"

text \<open>The message schedule, newest word first, so that \<open>w[i - k]\<close> is entry \<open>k - 1\<close>.\<close>

definition sha256_extend :: "u32 list \<Rightarrow> u32 list" where
  "sha256_extend ws =
     (let w15 = ws ! 14; w2 = ws ! 1;
          s0 = rotr w15 7 XOR rotr w15 18 XOR drop_bit 3 w15;
          s1 = rotr w2 17 XOR rotr w2 19 XOR drop_bit 10 w2
      in (ws ! 15 + s0 + ws ! 6 + s1) # ws)"

definition sha256_schedule :: "bytes \<Rightarrow> u32 list" where
  "sha256_schedule block = rev (fold (\<lambda>_. sha256_extend) [16..<64::nat] (rev (be_words block)))"

fun sha256_round :: "u32 \<times> u32 \<Rightarrow> u32 list \<Rightarrow> u32 list" where
  "sha256_round (k, w) [a, b, c, d, e, f, g, h] =
     (let s1 = rotr e 6 XOR rotr e 11 XOR rotr e 25;
          ch = (e AND f) XOR (NOT e AND g);
          t1 = h + s1 + ch + k + w;
          s0 = rotr a 2 XOR rotr a 13 XOR rotr a 22;
          mj = (a AND b) XOR (a AND c) XOR (b AND c);
          t2 = s0 + mj
      in [t1 + t2, a, b, c, d + t1, e, f, g])"
| "sha256_round _ st = st"

definition sha256_block :: "u32 list \<Rightarrow> bytes \<Rightarrow> u32 list" where
  "sha256_block st block =
     map2 (+) st (fold sha256_round (zip sha256_k (sha256_schedule block)) st)"

text \<open>Padding: \<open>0x80\<close>, zeros up to 56 modulo 64, then the bit length as 64 big-endian bits.\<close>

definition sha256_pad :: "bytes \<Rightarrow> bytes" where
  "sha256_pad m =
     (let n = length m; bits = (of_nat (8 * n) :: u64)
      in m @ [0x80] @ replicate ((119 - n mod 64) mod 64) 0
           @ be_bytes32 (ucast (drop_bit 32 bits)) @ be_bytes32 (ucast bits))"

fun chunks64 :: "nat \<Rightarrow> bytes \<Rightarrow> bytes list" where
  "chunks64 0 bs = []"
| "chunks64 (Suc n) bs = take 64 bs # chunks64 n (drop 64 bs)"

definition sha256 :: "bytes \<Rightarrow> bytes" where
  "sha256 m =
     (let p = sha256_pad m
      in concat (map be_bytes32 (foldl sha256_block sha256_init (chunks64 (length p div 64) p))))"

lemma length_sha256_round [simp]: "length (sha256_round kw st) = length st"
  by (cases "(kw, st)" rule: sha256_round.cases) (simp_all add: Let_def)

lemma length_sha256_rounds: "length (fold sha256_round kws st) = length st"
  by (induction kws arbitrary: st) simp_all

lemma length_sha256_block [simp]: "length (sha256_block st block) = length st"
  by (simp add: sha256_block_def length_sha256_rounds)

lemma length_sha256_fold: "length (foldl sha256_block st cs) = length st"
  by (induction cs arbitrary: st) simp_all

lemma length_sha256 [simp]: "length (sha256 m) = 32"
proof -
  have "length (concat (map be_bytes32 ws)) = 4 * length ws" for ws
    by (induction ws) (simp_all add: be_bytes32_def)
  then show ?thesis by (simp add: sha256_def Let_def length_sha256_fold sha256_init_def)
qed

lemma sha256_pad_fill: "(n + 9 + (119 - n mod 64) mod 64) mod 64 = (0::nat)"
proof -
  define m q where "m = n mod 64" and "q = n div 64"
  then have n: "n = 64 * q + m" and m: "m < 64" by simp_all
  have "(119 - m) mod 64 = (if m \<le> 55 then 55 - m else 119 - m)"
    using m by (auto simp: mod_if)
  then have "n + 9 + (119 - n mod 64) mod 64 = 64 * (if m \<le> 55 then q + 1 else q + 2)"
    using m unfolding m_def [symmetric] n by auto
  then show ?thesis by simp
qed

lemma sha256_pad_blocks: "length (sha256_pad m) mod 64 = 0"
  using sha256_pad_fill [of "length m"] by (simp add: sha256_pad_def Let_def be_bytes32_def add_ac)

text \<open>
  Kernel evaluation.  \<open>rotr_low\<close> masks the rotated word first, which keeps the numerals the
  simplifier builds below \<open>2 ^ 40\<close>.
\<close>

lemma rotr_low: "n \<le> 32 \<Longrightarrow> rotr x n = drop_bit n x OR push_bit (32 - n) (take_bit n x)"
  by (rule bit_word_eqI) (auto simp: rotr_def bit_simps)

lemma replicate_numeral: "replicate (numeral k) x = x # replicate (pred_numeral k) x"
  by (simp add: numeral_eq_Suc)

lemma chunks64_numeral:
  "chunks64 (numeral n) bs = take 64 bs # chunks64 (pred_numeral n) (drop 64 bs)"
  by (simp add: numeral_eq_Suc)

lemmas sha256_eval = sha256_def sha256_pad_def string_bytes_def Let_def be_bytes32_def
  replicate_numeral upt_rec_numeral sha256_schedule_def sha256_extend_def rotr_low le_word32_def
  sha256_block_def sha256_k_def sha256_init_def chunks64_numeral

end
