(* ===== verification/Xxtea.thy ===== *)
theory Xxtea
  imports Go_Prelude
begin

text \<open>
  The XXTEA block cipher of \<open>bridges/mqtt-go/wire.go\<close>: \<open>xxteaMX\<close>, \<open>xxteaEncrypt\<close>, \<open>xxteaDecrypt\<close>
  and the little-endian word conversions.  The Go loops update a slice in place while carrying
  the neighbouring word in a variable; the model threads that pair through \<open>go_for\<close>, with every
  index access bounds-checked.  The abstract view is a sequence of one-word updates
  \<open>mix_at\<close> / \<open>unmix_at\<close> on a ring of words; the loops are shown to refine it, and decryption to
  invert encryption because each word update reads only the two neighbours and the key.
\<close>

section \<open>The code\<close>

definition xxteaDelta :: u32 where
  "xxteaDelta = 0x9E3779B9"

text \<open>\<open>((z>>5 ^ y<<2) + (y>>3 ^ z<<4)) ^ ((sum ^ y) + (k[(p&3)^e] ^ z))\<close>\<close>

definition xxteaMX :: "u32 \<Rightarrow> u32 \<Rightarrow> u32 \<Rightarrow> nat \<Rightarrow> nat \<Rightarrow> u32 list \<Rightarrow> ('e, u32) outcome" where
  "xxteaMX z y sm p e k =
     go_bind (go_at k ((p AND 3) XOR e)) (\<lambda>kw. Ret
       (((drop_bit 5 z XOR push_bit 2 y) + (drop_bit 3 y XOR push_bit 4 z))
        XOR ((sm XOR y) + (kw XOR z))))"

definition xxtea_e :: "u32 \<Rightarrow> nat" where
  "xxtea_e sm = unat (drop_bit 2 sm AND 3)"

text \<open>
  The running \<open>sum\<close> of the source is called \<open>sm\<close>.  Body of the inner encryption loop: \<open>y = words[p+1]; words[p] += MX; z = words[p]\<close>.
\<close>

definition enc_word :: "u32 list \<Rightarrow> u32 \<Rightarrow> nat \<Rightarrow> nat \<Rightarrow> nat \<Rightarrow> u32 list \<times> u32
    \<Rightarrow> ('e, u32 list \<times> u32) outcome" where
  "enc_word key sm e p q st = (case st of (words, z) \<Rightarrow>
     go_bind (go_at words q) (\<lambda>y.
     go_bind (xxteaMX z y sm p e key) (\<lambda>mx.
     go_bind (go_at words p) (\<lambda>w.
     go_bind (go_set words p (w + mx)) (\<lambda>words'.
     Ret (words', w + mx))))))"

definition enc_round :: "u32 list \<Rightarrow> nat \<Rightarrow> nat \<Rightarrow> u32 list \<times> u32 \<times> u32
    \<Rightarrow> ('e, u32 list \<times> u32 \<times> u32) outcome" where
  "enc_round key n r st = (case st of (words, z, sm0) \<Rightarrow>
     let sm = sm0 + xxteaDelta; e = xxtea_e sm in
     go_bind (go_for (\<lambda>p. enc_word key sm e p (p + 1)) [0..<n - 1] (words, z)) (\<lambda>st1.
     go_bind (enc_word key sm e (n - 1) 0 st1) (\<lambda>(words2, z2).
     Ret (words2, z2, sm))))"

definition xxteaEncrypt :: "u32 list \<Rightarrow> u32 list \<Rightarrow> ('e, u32 list) outcome" where
  "xxteaEncrypt words key =
     (let n = length words in
      if n < 2 then Ret words
      else go_bind (go_at words (n - 1)) (\<lambda>z.
           go_bind (go_for (enc_round key n) [0..<6 + 52 div n] (words, z, 0)) (\<lambda>(words', _, _).
           Ret words')))"

text \<open>Body of the inner decryption loop: \<open>z = words[p-1]; words[p] -= MX; y = words[p]\<close>.\<close>

definition dec_word :: "u32 list \<Rightarrow> u32 \<Rightarrow> nat \<Rightarrow> nat \<Rightarrow> nat \<Rightarrow> u32 list \<times> u32
    \<Rightarrow> ('e, u32 list \<times> u32) outcome" where
  "dec_word key sm e p q st = (case st of (words, y) \<Rightarrow>
     go_bind (go_at words q) (\<lambda>z.
     go_bind (xxteaMX z y sm p e key) (\<lambda>mx.
     go_bind (go_at words p) (\<lambda>w.
     go_bind (go_set words p (w - mx)) (\<lambda>words'.
     Ret (words', w - mx))))))"

definition dec_round :: "u32 list \<Rightarrow> nat \<Rightarrow> nat \<Rightarrow> u32 list \<times> u32 \<times> u32
    \<Rightarrow> ('e, u32 list \<times> u32 \<times> u32) outcome" where
  "dec_round key n r st = (case st of (words, y, sm) \<Rightarrow>
     let e = xxtea_e sm in
     go_bind (go_for (\<lambda>p. dec_word key sm e p (p - 1)) (rev [1..<n]) (words, y)) (\<lambda>st1.
     go_bind (dec_word key sm e 0 (n - 1) st1) (\<lambda>(words2, y2).
     Ret (words2, y2, sm - xxteaDelta))))"

definition xxteaDecrypt :: "u32 list \<Rightarrow> u32 list \<Rightarrow> ('e, u32 list) outcome" where
  "xxteaDecrypt words key =
     (let n = length words in
      if n < 2 then Ret words
      else let rounds = 6 + 52 div n in
           go_bind (go_at words 0) (\<lambda>y.
           go_bind (go_for (dec_round key n) [0..<rounds]
                      (words, y, of_nat rounds * xxteaDelta)) (\<lambda>(words', _, _).
           Ret words')))"

text \<open>\<open>nil\<close> for a length that is not a multiple of 4, which is also what an empty input gives.\<close>

fun words_of :: "bytes \<Rightarrow> u32 list" where
  "words_of (b0 # b1 # b2 # b3 # rest) = le_word32 b0 b1 b2 b3 # words_of rest"
| "words_of _ = []"

definition bytesToWordsLE :: "bytes \<Rightarrow> u32 list" where
  "bytesToWordsLE b = (if length b mod 4 \<noteq> 0 then [] else words_of b)"

definition wordsToBytesLE :: "u32 list \<Rightarrow> bytes" where
  "wordsToBytesLE words = concat (map le_bytes32 words)"


section \<open>Words and bytes\<close>

lemma length_words_of [simp]: "length (words_of b) = length b div 4"
  by (induction b rule: words_of.induct) auto

lemma words_of_concat [simp]: "words_of (concat (map le_bytes32 ws)) = ws"
  by (induction ws) (auto simp: le_bytes32_def le_simps)

lemma length_wordsToBytesLE [simp]: "length (wordsToBytesLE ws) = 4 * length ws"
  by (induction ws) (auto simp: wordsToBytesLE_def)

lemma bytesToWordsLE_wordsToBytesLE [simp]: "bytesToWordsLE (wordsToBytesLE ws) = ws"
  by (simp add: bytesToWordsLE_def) (simp add: wordsToBytesLE_def)

lemma length_bytesToWordsLE [simp]:
  "length b mod 4 = 0 \<Longrightarrow> length (bytesToWordsLE b) = length b div 4"
  by (simp add: bytesToWordsLE_def)

lemma concat_words_of: "length b mod 4 = 0 \<Longrightarrow> concat (map le_bytes32 (words_of b)) = b"
  by (induction b rule: words_of.induct) (auto simp: le_simps)

lemma wordsToBytesLE_bytesToWordsLE [simp]:
  "length b mod 4 = 0 \<Longrightarrow> wordsToBytesLE (bytesToWordsLE b) = b"
  by (simp add: bytesToWordsLE_def wordsToBytesLE_def concat_words_of)


section \<open>The abstract view: one-word updates on a ring\<close>

definition mix :: "u32 \<Rightarrow> u32 \<Rightarrow> u32 \<Rightarrow> nat \<Rightarrow> u32 list \<Rightarrow> u32" where
  "mix z y sm p k =
     ((drop_bit 5 z XOR push_bit 2 y) + (drop_bit 3 y XOR push_bit 4 z))
      XOR ((sm XOR y) + (k ! ((p AND 3) XOR xxtea_e sm) XOR z))"

definition ring_prev :: "nat \<Rightarrow> nat \<Rightarrow> nat" where
  "ring_prev n p = (if p = 0 then n - 1 else p - 1)"

definition ring_next :: "nat \<Rightarrow> nat \<Rightarrow> nat" where
  "ring_next n p = (if p = n - 1 then 0 else p + 1)"

definition mix_at :: "u32 list \<Rightarrow> u32 \<Rightarrow> nat \<Rightarrow> u32 list \<Rightarrow> u32 list" where
  "mix_at k sm p ws =
     (let n = length ws in
      ws[p := ws ! p + mix (ws ! ring_prev n p) (ws ! ring_next n p) sm p k])"

definition unmix_at :: "u32 list \<Rightarrow> u32 \<Rightarrow> nat \<Rightarrow> u32 list \<Rightarrow> u32 list" where
  "unmix_at k sm p ws =
     (let n = length ws in
      ws[p := ws ! p - mix (ws ! ring_prev n p) (ws ! ring_next n p) sm p k])"

definition spec_enc_round :: "u32 list \<Rightarrow> nat \<Rightarrow> nat \<Rightarrow> u32 list \<Rightarrow> u32 list" where
  "spec_enc_round k n r ws = fold (mix_at k (of_nat (r + 1) * xxteaDelta)) [0..<n] ws"

definition spec_dec_round :: "u32 list \<Rightarrow> nat \<Rightarrow> nat \<Rightarrow> u32 list \<Rightarrow> u32 list" where
  "spec_dec_round k n r ws = fold (unmix_at k (of_nat (r + 1) * xxteaDelta)) (rev [0..<n]) ws"

definition spec_encrypt :: "u32 list \<Rightarrow> u32 list \<Rightarrow> u32 list" where
  "spec_encrypt k ws = fold (spec_enc_round k (length ws)) [0..<6 + 52 div length ws] ws"

definition spec_decrypt :: "u32 list \<Rightarrow> u32 list \<Rightarrow> u32 list" where
  "spec_decrypt k ws = fold (spec_dec_round k (length ws)) (rev [0..<6 + 52 div length ws]) ws"

lemma length_mix_at [simp]: "length (mix_at k sm p ws) = length ws"
  by (simp add: mix_at_def Let_def)

lemma length_unmix_at [simp]: "length (unmix_at k sm p ws) = length ws"
  by (simp add: unmix_at_def Let_def)

lemma ring_neighbours:
  assumes "2 \<le> n" and "p < n"
  shows "ring_prev n p < n" "ring_next n p < n" "ring_prev n p \<noteq> p" "ring_next n p \<noteq> p"
  using assms by (auto simp: ring_prev_def ring_next_def)

lemma unmix_mix_at [simp]:
  assumes "2 \<le> length ws" and "p < length ws"
  shows "unmix_at k sm p (mix_at k sm p ws) = ws"
  using ring_neighbours [OF assms] assms
  by (simp add: unmix_at_def mix_at_def Let_def)

lemma mix_unmix_at [simp]:
  assumes "2 \<le> length ws" and "p < length ws"
  shows "mix_at k sm p (unmix_at k sm p ws) = ws"
  using ring_neighbours [OF assms] assms
  by (simp add: unmix_at_def mix_at_def Let_def)

text \<open>Undoing a sequence of invertible, shape-preserving steps in reverse order.\<close>

lemma fold_rev_inverse:
  assumes "\<And>i x. Q i \<Longrightarrow> I x \<Longrightarrow> g i (f i x) = x" and "\<And>i x. Q i \<Longrightarrow> I x \<Longrightarrow> I (f i x)"
    and "\<forall>i\<in>set is. Q i" and "I x"
  shows "fold g (rev is) (fold f is x) = x \<and> I (fold f is x)"
  using assms(3,4) by (induction "is" arbitrary: x) (auto simp: assms(1,2))

lemma length_spec_enc_round [simp]: "length (spec_enc_round k n r ws) = length ws"
proof -
  have "length (fold (mix_at k s) is ws) = length ws" for s "is"
    by (induction "is" arbitrary: ws) auto
  then show ?thesis by (simp add: spec_enc_round_def)
qed

lemma length_spec_dec_round [simp]: "length (spec_dec_round k n r ws) = length ws"
proof -
  have "length (fold (unmix_at k s) is ws) = length ws" for s "is"
    by (induction "is" arbitrary: ws) auto
  then show ?thesis by (simp add: spec_dec_round_def)
qed

lemma length_spec_encrypt [simp]: "length (spec_encrypt k ws) = length ws"
proof -
  have "length (fold (spec_enc_round k n) is ws) = length ws" for n "is"
    by (induction "is" arbitrary: ws) auto
  then show ?thesis by (simp add: spec_encrypt_def)
qed

lemma length_spec_decrypt [simp]: "length (spec_decrypt k ws) = length ws"
proof -
  have "length (fold (spec_dec_round k n) is ws) = length ws" for n "is"
    by (induction "is" arbitrary: ws) auto
  then show ?thesis by (simp add: spec_decrypt_def)
qed

lemma spec_dec_enc_round:
  assumes "2 \<le> length ws"
  shows "spec_dec_round k (length ws) r (spec_enc_round k (length ws) r ws) = ws"
  unfolding spec_dec_round_def spec_enc_round_def
  by (rule fold_rev_inverse [where I = "\<lambda>x. length x = length ws" and Q = "\<lambda>i. i < length ws",
        THEN conjunct1]) (use assms in auto)

lemma spec_enc_dec_round:
  assumes "2 \<le> length ws"
  shows "spec_enc_round k (length ws) r (spec_dec_round k (length ws) r ws) = ws"
proof -
  have "fold (mix_at k s) (rev (rev [0..<length ws])) (fold (unmix_at k s) (rev [0..<length ws]) ws)
        = ws" for s
    by (rule fold_rev_inverse [where I = "\<lambda>x. length x = length ws" and Q = "\<lambda>i. i < length ws",
          THEN conjunct1]) (use assms in auto)
  then show ?thesis by (simp add: spec_dec_round_def spec_enc_round_def)
qed

lemma spec_decrypt_encrypt: "2 \<le> length ws \<Longrightarrow> spec_decrypt k (spec_encrypt k ws) = ws"
  unfolding spec_decrypt_def length_spec_encrypt unfolding spec_encrypt_def
  by (rule fold_rev_inverse [where I = "\<lambda>x. length x = length ws" and Q = "\<lambda>i. True",
        THEN conjunct1]) (use spec_dec_enc_round in \<open>metis length_spec_enc_round\<close>)+

lemma spec_encrypt_decrypt:
  assumes "2 \<le> length ws"
  shows "spec_encrypt k (spec_decrypt k ws) = ws"
proof -
  let ?rs = "rev [0..<6 + 52 div length ws]"
  have "fold (spec_enc_round k (length ws)) (rev ?rs) (fold (spec_dec_round k (length ws)) ?rs ws) = ws"
    by (rule fold_rev_inverse [where I = "\<lambda>x. length x = length ws" and Q = "\<lambda>i. True",
          THEN conjunct1]) (use assms spec_enc_dec_round in \<open>metis length_spec_dec_round\<close>)+
  then show ?thesis unfolding spec_encrypt_def length_spec_decrypt by (simp add: spec_decrypt_def)
qed


section \<open>The loops refine the abstract view\<close>

lemma key_index_lt: "((p::nat) AND 3) XOR xxtea_e sm < 4"
proof -
  have lt: "n < 4 \<longleftrightarrow> take_bit 2 n = n" for n :: nat
    by (simp add: take_bit_nat_eq_self_iff)
  have "p AND 3 = take_bit 2 p"
    by (simp add: take_bit_eq_mask mask_eq_exp_minus_1)
  then have "take_bit 2 (p AND 3) = p AND 3"
    by simp
  moreover have "take_bit 2 (xxtea_e sm) = xxtea_e sm"
  proof -
    have "drop_bit 2 sm AND 3 = take_bit 2 (drop_bit 2 sm)"
      by (simp add: take_bit_eq_mask mask_eq_exp_minus_1)
    then have "xxtea_e sm = take_bit 2 (unat (drop_bit 2 sm))"
      by (simp add: xxtea_e_def unsigned_take_bit_eq)
    then show ?thesis by simp
  qed
  ultimately show ?thesis by (simp add: lt take_bit_xor)
qed

lemma xxteaMX_mix:
  "4 \<le> length k \<Longrightarrow> xxteaMX z y sm p (xxtea_e sm) k = Ret (mix z y sm p k)"
  using key_index_lt [of p sm] by (simp add: xxteaMX_def mix_def go_at_def)

lemma enc_word_mix:
  assumes "4 \<le> length k" "2 \<le> length ws" "p < length ws"
    and "z = ws ! ring_prev (length ws) p" "q = ring_next (length ws) p"
  shows "enc_word k sm (xxtea_e sm) p q (ws, z) = Ret (mix_at k sm p ws, mix_at k sm p ws ! p)"
  using assms ring_neighbours [of "length ws" p]
  by (simp add: enc_word_def mix_at_def Let_def go_simps xxteaMX_mix)

lemma dec_word_unmix:
  assumes "4 \<le> length k" "2 \<le> length ws" "p < length ws"
    and "q = ring_prev (length ws) p" "y = ws ! ring_next (length ws) p"
  shows "dec_word k sm (xxtea_e sm) p q (ws, y) = Ret (unmix_at k sm p ws, unmix_at k sm p ws ! p)"
  using assms ring_neighbours [of "length ws" p]
  by (simp add: dec_word_def unmix_at_def Let_def go_simps xxteaMX_mix)

lemma length_fold_mix [simp]: "length (fold (mix_at k sm) ps ws) = length ws"
  by (induction ps arbitrary: ws) auto

lemma length_fold_unmix [simp]: "length (fold (unmix_at k sm) ps ws) = length ws"
  by (induction ps arbitrary: ws) auto

lemma enc_inner_loop:
  assumes "4 \<le> length k" "2 \<le> length ws" "m < length ws"
  shows "go_for (\<lambda>p. enc_word k sm (xxtea_e sm) p (p + 1)) [0..<m] (ws, ws ! (length ws - 1)) =
    (let ws' = fold (mix_at k sm) [0..<m] ws
     in (Ret (ws', ws' ! ring_prev (length ws) m) :: ('e, _) outcome))"
  using assms(3)
proof (induction m)
  case 0
  then show ?case by (simp add: ring_prev_def)
next
  case (Suc m)
  let ?ws = "fold (mix_at k sm) [0..<m] ws"
  have "enc_word k sm (xxtea_e sm) m (m + 1) (?ws, ?ws ! ring_prev (length ws) m) =
        (Ret (mix_at k sm m ?ws, mix_at k sm m ?ws ! m) :: ('e, _) outcome)"
    by (rule enc_word_mix) (use assms Suc.prems in \<open>auto simp: ring_next_def\<close>)
  with Suc show ?case by (simp add: go_for_append Let_def ring_prev_def)
qed

lemma enc_round_spec:
  assumes "4 \<le> length k" "2 \<le> length ws"
  shows "enc_round k (length ws) i (ws, ws ! (length ws - 1), of_nat r * xxteaDelta) =
    (let ws' = spec_enc_round k (length ws) r ws
     in (Ret (ws', ws' ! (length ws - 1), of_nat (r + 1) * xxteaDelta) :: ('e, _) outcome))"
proof -
  let ?n = "length ws" and ?sm = "of_nat (r + 1) * xxteaDelta"
  let ?ws = "fold (mix_at k ?sm) [0..<?n - 1] ws"
  have sm: "of_nat r * xxteaDelta + xxteaDelta = ?sm" by (simp add: algebra_simps)
  have loop: "go_for (\<lambda>p. enc_word k ?sm (xxtea_e ?sm) p (p + 1)) [0..<?n - 1] (ws, ws ! (?n - 1)) =
     (Ret (?ws, ?ws ! ring_prev ?n (?n - 1)) :: ('e, _) outcome)"
    by (rule enc_inner_loop [unfolded Let_def]) (use assms in auto)
  have last: "enc_word k ?sm (xxtea_e ?sm) (?n - 1) 0 (?ws, ?ws ! ring_prev ?n (?n - 1)) =
     (Ret (mix_at k ?sm (?n - 1) ?ws, mix_at k ?sm (?n - 1) ?ws ! (?n - 1)) :: ('e, _) outcome)"
    by (rule enc_word_mix) (use assms in \<open>auto simp: ring_next_def\<close>)
  have "[0..<?n] = [0..<?n - 1] @ [?n - 1]"
    using assms by (cases ?n) auto
  then have "spec_enc_round k ?n r ws = mix_at k ?sm (?n - 1) ?ws"
    by (simp add: spec_enc_round_def)
  then show ?thesis
    using loop last by (simp add: enc_round_def Let_def sm del: of_nat_add of_nat_Suc)
qed

lemma xxteaEncrypt_spec:
  assumes "4 \<le> length k" "2 \<le> length ws"
  shows "xxteaEncrypt ws k = (Ret (spec_encrypt k ws) :: ('e, _) outcome)"
proof -
  let ?n = "length ws"
  let ?w = "\<lambda>R. fold (spec_enc_round k ?n) [0..<R] ws"
  have len: "length (?w R) = ?n" for R by (induction R) auto
  have "go_for (enc_round k ?n) [0..<R] (ws, ws ! (?n - 1), 0) =
        (Ret (?w R, ?w R ! (?n - 1), of_nat R * xxteaDelta) :: ('e, _) outcome)" for R
  proof (induction R)
    case (Suc R)
    have "enc_round k ?n R (?w R, ?w R ! (?n - 1), of_nat R * xxteaDelta) =
      (Ret (?w (Suc R), ?w (Suc R) ! (?n - 1), of_nat (R + 1) * xxteaDelta) :: ('e, _) outcome)"
      using enc_round_spec [of k "?w R" R R] assms len by (simp add: Let_def)
    with Suc.IH show ?case by (simp add: go_for_append)
  qed simp
  from this [of "6 + 52 div ?n"] show ?thesis
    using assms by (simp add: xxteaEncrypt_def spec_encrypt_def Let_def go_simps del: upt_Suc)
qed

lemma dec_inner_loop:
  assumes "4 \<le> length k" "2 \<le> length ws" "1 \<le> m" "m \<le> length ws"
  shows "go_for (\<lambda>p. dec_word k sm (xxtea_e sm) p (p - 1)) (rev [m..<length ws]) (ws, ws ! 0) =
    (let ws' = fold (unmix_at k sm) (rev [m..<length ws]) ws
     in (Ret (ws', ws' ! ring_next (length ws) (m - 1)) :: ('e, _) outcome))"
  using assms(4,3)
proof (induction m rule: inc_induct)
  case base
  then show ?case by (simp add: ring_next_def)
next
  case (step m)
  let ?ws = "fold (unmix_at k sm) (rev [Suc m..<length ws]) ws"
  have upt: "[m..<length ws] = m # [Suc m..<length ws]"
    using step.hyps by (simp add: upt_conv_Cons)
  have "dec_word k sm (xxtea_e sm) m (m - 1) (?ws, ?ws ! ring_next (length ws) m) =
        (Ret (unmix_at k sm m ?ws, unmix_at k sm m ?ws ! m) :: ('e, _) outcome)"
    by (rule dec_word_unmix) (use assms step in \<open>auto simp: ring_prev_def\<close>)
  moreover have "m = ring_next (length ws) (m - 1)"
    using step by (auto simp: ring_next_def)
  ultimately show ?case
    using step.IH step.prems by (simp add: go_for_append Let_def upt)
qed

lemma dec_round_spec:
  assumes "4 \<le> length k" "2 \<le> length ws"
  shows "dec_round k (length ws) i (ws, ws ! 0, of_nat (r + 1) * xxteaDelta) =
    (let ws' = spec_dec_round k (length ws) r ws
     in (Ret (ws', ws' ! 0, of_nat r * xxteaDelta) :: ('e, _) outcome))"
proof -
  let ?n = "length ws" and ?sm = "of_nat (r + 1) * xxteaDelta"
  let ?ws = "fold (unmix_at k ?sm) (rev [1..<?n]) ws"
  have sm: "?sm - xxteaDelta = of_nat r * xxteaDelta" by (simp add: algebra_simps)
  have loop: "go_for (\<lambda>p. dec_word k ?sm (xxtea_e ?sm) p (p - 1)) (rev [1..<?n]) (ws, ws ! 0) =
     (Ret (?ws, ?ws ! ring_next ?n 0) :: ('e, _) outcome)"
    using dec_inner_loop [of k ws 1 ?sm] assms by (simp add: Let_def)
  have last: "dec_word k ?sm (xxtea_e ?sm) 0 (?n - 1) (?ws, ?ws ! ring_next ?n 0) =
     (Ret (unmix_at k ?sm 0 ?ws, unmix_at k ?sm 0 ?ws ! 0) :: ('e, _) outcome)"
    by (rule dec_word_unmix) (use assms in \<open>auto simp: ring_prev_def\<close>)
  have "[0..<?n] = 0 # [1..<?n]"
    using assms by (subst upt_conv_Cons) auto
  then have "spec_dec_round k ?n r ws = unmix_at k ?sm 0 ?ws"
    by (simp add: spec_dec_round_def)
  then show ?thesis
    using loop last sm by (simp add: dec_round_def Let_def del: of_nat_add of_nat_Suc)
qed

lemma xxteaDecrypt_spec:
  assumes "4 \<le> length k" "2 \<le> length ws"
  shows "xxteaDecrypt ws k = (Ret (spec_decrypt k ws) :: ('e, _) outcome)"
proof -
  let ?n = "length ws"
  let ?w = "\<lambda>R ws. fold (spec_dec_round k ?n) (rev [0..<R]) ws"
  have "length vs = ?n \<Longrightarrow> length is = R \<Longrightarrow>
        go_for (dec_round k ?n) is (vs, vs ! 0, of_nat R * xxteaDelta) =
        (Ret (?w R vs, ?w R vs ! 0, 0) :: ('e, _) outcome)" for R "is" vs
  proof (induction R arbitrary: vs "is")
    case (Suc R)
    then obtain i is' where "is": "is = i # is'" "length is' = R" by (cases "is") auto
    have "dec_round k ?n i (vs, vs ! 0, of_nat (Suc R) * xxteaDelta) =
      (let ws' = spec_dec_round k ?n R vs
       in (Ret (ws', ws' ! 0, of_nat R * xxteaDelta) :: ('e, _) outcome))"
      using dec_round_spec [of k vs i R] assms Suc.prems by simp
    then show ?case
      using Suc.IH [of "spec_dec_round k ?n R vs" is'] Suc.prems "is" by (simp add: Let_def)
  qed simp
  moreover have "ws \<noteq> []" using assms by auto
  ultimately show ?thesis
    using assms by (simp add: xxteaDecrypt_def spec_decrypt_def Let_def go_simps del: upt_Suc)
qed


section \<open>The interface the packet codec uses\<close>

text \<open>
  A block cipher on word lists of length at least two, as the codec in \<open>Wire\<close> relies on it: total
  on admissible keys, length preserving, and with mutually inverse directions.
\<close>

locale block_cipher =
  fixes enc dec :: "u32 list \<Rightarrow> u32 list \<Rightarrow> ('e, u32 list) outcome"
    and key_ok :: "u32 list \<Rightarrow> bool"
  assumes enc_returns: "key_ok k \<Longrightarrow> 2 \<le> length ws \<Longrightarrow> \<exists>c. enc ws k = Ret c \<and> length c = length ws"
    and dec_returns: "key_ok k \<Longrightarrow> 2 \<le> length ws \<Longrightarrow> \<exists>p. dec ws k = Ret p \<and> length p = length ws"
    and dec_enc: "key_ok k \<Longrightarrow> 2 \<le> length ws \<Longrightarrow> enc ws k = Ret c \<Longrightarrow> dec c k = Ret ws"
    and enc_dec: "key_ok k \<Longrightarrow> 2 \<le> length ws \<Longrightarrow> dec ws k = Ret p \<Longrightarrow> enc p k = Ret ws"
begin

lemma enc_inject:
  assumes "key_ok k" "2 \<le> length ws" "2 \<le> length vs" "enc ws k = enc vs k"
  shows "ws = vs"
proof -
  obtain c where "enc ws k = Ret c" using enc_returns assms(1,2) by blast
  with assms dec_enc have "dec c k = Ret ws" "dec c k = Ret vs" by metis+
  then show ?thesis by simp
qed

lemma enc_surject:
  assumes "key_ok k" "2 \<le> length ws"
  shows "\<exists>p. enc p k = Ret ws \<and> length p = length ws"
  using dec_returns [OF assms] enc_dec [OF assms] by blast

end

definition xxtea_key_ok :: "u32 list \<Rightarrow> bool" where
  "xxtea_key_ok k \<longleftrightarrow> 4 \<le> length k"

interpretation xxtea: block_cipher xxteaEncrypt xxteaDecrypt xxtea_key_ok
  by unfold_locales
    (auto simp: xxtea_key_ok_def xxteaEncrypt_spec xxteaDecrypt_spec
      spec_decrypt_encrypt spec_encrypt_decrypt)


section \<open>Which key words matter\<close>

lemma mix_key_prefix:
  assumes "take 4 k = take 4 k'" "4 \<le> length k" "4 \<le> length k'"
  shows "mix z y sm p k = mix z y sm p k'"
proof -
  have "k ! i = k' ! i" if "i < 4" for i
    using that assms by (metis nth_take)
  then show ?thesis using key_index_lt [of p sm] by (simp add: mix_def)
qed

lemma spec_encrypt_key_prefix:
  assumes "take 4 k = take 4 k'" "4 \<le> length k" "4 \<le> length k'"
  shows "spec_encrypt k ws = spec_encrypt k' ws"
proof -
  have "mix_at k = mix_at k'"
    using mix_key_prefix [OF assms] by (intro ext) (simp add: mix_at_def)
  then show ?thesis by (simp add: spec_encrypt_def spec_enc_round_def [abs_def])
qed

end
