(* ===== verification/Wire.thy ===== *)
theory Wire
  imports Go_Hash Xxtea
begin

text \<open>
  The datagram format of \<open>bridges/mqtt-go/wire.go\<close>: constants, scopes and multicast groups, topic
  CRC, key derivation, \<open>EncodePacket\<close> and \<open>DecodePacket\<close>.  The two codec functions are written
  over the buffer operations of \<open>Go_Prelude\<close>; \<open>datagram\<close> is the abstract layout of
  \<open>docs/PROTOCOL.md\<close> section 3, and the lemmas relate both functions to it.
\<close>

section \<open>Constants\<close>

definition wireMagic0 :: u8 where "wireMagic0 = 0x4D"
definition wireMagic1 :: u8 where "wireMagic1 = 0x50"
definition wireVersion :: u8 where "wireVersion = 0x01"
definition headerLen :: nat where "headerLen = 12"
definition maxDatagram :: nat where "maxDatagram = 1232"
definition maxPayload :: nat where "maxPayload = maxDatagram - headerLen"
definition encodingRaw :: u8 where "encodingRaw = 0x00"
definition encodingProto :: u8 where "encodingProto = 0x01"
definition encModeNone :: u8 where "encModeNone = 0x00"
definition encModeXXTEA :: u8 where "encModeXXTEA = 0x01"

lemmas wire_consts = wireMagic0_def wireMagic1_def wireVersion_def headerLen_def maxDatagram_def
  maxPayload_def encodingRaw_def encodingProto_def encModeNone_def encModeXXTEA_def


section \<open>Errors\<close>

text \<open>
  The sentinel errors \<open>errTooShort\<close> to \<open>errEncryptedNoKey\<close> of the decoder, and one constructor with
  its arguments for each \<open>fmt.Errorf\<close> of this file.
\<close>

datatype wire_error =
    ErrTooShort
  | ErrBadMagic
  | ErrBadVersion
  | ErrUnknownEncoding
  | ErrLengthMismatch
  | ErrUnknownEncMode
  | ErrCiphertextTooShort
  | ErrEncryptedNoKey
  | ErrEncodingByte u8
  | ErrPayloadTooLarge nat
  | ErrKeyLength nat
  | ErrEncryptedTooLarge nat nat
  | ErrUnknownScope string


section \<open>Sizes, keys, scopes and topics\<close>

definition XXTEACiphertextLen :: "int \<Rightarrow> int" where
  "XXTEACiphertextLen plaintextLen =
     (let needed = plaintextLen + 4 in if needed < 8 then 8 else (needed + 3) AND NOT 3)"

definition DeriveKey :: "string \<Rightarrow> bytes" where
  "DeriveKey passphrase = sha256 (string_bytes passphrase)"

lemma length_DeriveKey [simp]: "length (DeriveKey passphrase) = 32"
  by (simp add: DeriveKey_def)

definition ScopeLinkLocal :: u8 where "ScopeLinkLocal = 0x2"
definition ScopeSiteLocal :: u8 where "ScopeSiteLocal = 0x5"
definition ScopeOrgLocal :: u8 where "ScopeOrgLocal = 0x8"

lemmas scope_consts = ScopeLinkLocal_def ScopeSiteLocal_def ScopeOrgLocal_def

definition ParseScope :: "string \<Rightarrow> (wire_error, u8) outcome" where
  "ParseScope s =
     (if s = ''link-local'' \<or> s = '''' then Ret ScopeLinkLocal
      else if s = ''site-local'' then Ret ScopeSiteLocal
      else if s = ''organization-local'' \<or> s = ''org-local'' then Ret ScopeOrgLocal
      else Fail (ErrUnknownScope s))"

text \<open>\<open>addr := make(net.IP, 16)\<close>, two header bytes, then \<open>copy(addr[2:], digest[:14])\<close>.\<close>

definition TopicToGroup :: "string \<Rightarrow> u8 \<Rightarrow> bytes" where
  "TopicToGroup topic scope =
     (let digest = sha256 (string_bytes topic);
          addr = (replicate 16 0)[0 := 0xFF, 1 := push_bit 4 1 OR (scope AND 0x0F)]
      in take 2 addr @ take 14 digest)"

definition TopicCRC32 :: "string \<Rightarrow> u32" where
  "TopicCRC32 topic = crc32_ieee (string_bytes topic)"


section \<open>EncodePacket\<close>

text \<open>
  The encrypted body: \<open>plain := make([]byte, clen)\<close>, CRC and payload copied in, the whole encrypted
  as words.  The cipher is an argument so that the codec lemmas can be stated over the interface
  \<open>block_cipher\<close>; the code instantiates it with \<open>xxteaEncrypt\<close>.
\<close>

definition sealBody :: "(u32 list \<Rightarrow> u32 list \<Rightarrow> ('e, u32 list) outcome) \<Rightarrow> bytes \<Rightarrow> u32
    \<Rightarrow> bytes \<Rightarrow> nat \<Rightarrow> ('e, bytes) outcome" where
  "sealBody enc key crc payload clen =
     go_bind (le_put32 (replicate clen 0) 0 crc) (\<lambda>plain.
     go_bind (go_copy plain 4 payload) (\<lambda>plain.
     go_bind (enc (bytesToWordsLE plain) (bytesToWordsLE key)) (\<lambda>words.
     Ret (wordsToBytesLE words))))"

text \<open>\<open>buf := make([]byte, headerLen+len(body))\<close> and the header and body writes; byte 11 stays zero.\<close>

definition writeDatagram :: "u8 \<Rightarrow> u32 \<Rightarrow> nat \<Rightarrow> u8 \<Rightarrow> bytes \<Rightarrow> (wire_error, bytes) outcome" where
  "writeDatagram encoding hdrCRC payloadLen encMode body =
     (let buf = replicate (headerLen + length body) 0 in
      go_bind (go_set buf 0 wireMagic0) (\<lambda>buf.
      go_bind (go_set buf 1 wireMagic1) (\<lambda>buf.
      go_bind (go_set buf 2 wireVersion) (\<lambda>buf.
      go_bind (go_set buf 3 encoding) (\<lambda>buf.
      go_bind (le_put32 buf 4 hdrCRC) (\<lambda>buf.
      go_bind (le_put16 buf 8 (of_nat payloadLen)) (\<lambda>buf.
      go_bind (go_set buf 10 encMode) (\<lambda>buf.
      go_copy buf headerLen body))))))))"

definition EncodePacket :: "string \<Rightarrow> bytes \<Rightarrow> u8 \<Rightarrow> bytes option \<Rightarrow> (wire_error, bytes) outcome" where
  "EncodePacket topic payload encoding key =
     (if encoding \<noteq> encodingRaw \<and> encoding \<noteq> encodingProto then Fail (ErrEncodingByte encoding)
      else
        let crc = TopicCRC32 topic in
        go_bind
          (case key of
             None \<Rightarrow>
               if length payload > maxPayload then Fail (ErrPayloadTooLarge (length payload))
               else Ret (payload, encModeNone, crc)
           | Some k \<Rightarrow>
               if length k \<noteq> 32 then Fail (ErrKeyLength (length k))
               else
                 let clen = nat (XXTEACiphertextLen (int (length payload))) in
                 if headerLen + clen > maxDatagram
                 then Fail (ErrEncryptedTooLarge (length payload) clen)
                 else go_bind (sealBody xxteaEncrypt k crc payload clen) (\<lambda>body.
                      Ret (body, encModeXXTEA, 0)))
          (\<lambda>(body, encMode, hdrCRC). writeDatagram encoding hdrCRC (length payload) encMode body))"


section \<open>DecodePacket\<close>

record DecodedPacket =
  TopicCRC :: u32
  Encoding :: u8
  EncMode :: u8
  WasEncrypted :: bool
  Payload :: bytes

definition openBody :: "(u32 list \<Rightarrow> u32 list \<Rightarrow> ('e, u32 list) outcome) \<Rightarrow> bytes
    \<Rightarrow> bytes \<Rightarrow> u16 \<Rightarrow> ('e, u32 \<times> bytes) outcome" where
  "openBody dec key body payloadLen =
     go_bind (dec (bytesToWordsLE body) (bytesToWordsLE key)) (\<lambda>words.
     let plain = wordsToBytesLE words in
     go_bind (go_slice plain 0 4) (\<lambda>c.
     go_bind (le_uint32 c) (\<lambda>crc.
     go_bind (go_slice plain 4 (4 + uint payloadLen)) (\<lambda>p.
     Ret (crc, p)))))"

definition DecodePacket :: "bytes \<Rightarrow> bytes option \<Rightarrow> (wire_error, DecodedPacket) outcome" where
  "DecodePacket data key =
     (if length data < headerLen then Fail ErrTooShort
      else
      go_bind (go_at data 0) (\<lambda>m0. go_bind (go_at data 1) (\<lambda>m1.
      if m0 \<noteq> wireMagic0 \<or> m1 \<noteq> wireMagic1 then Fail ErrBadMagic
      else
      go_bind (go_at data 2) (\<lambda>ver.
      if ver \<noteq> wireVersion then Fail ErrBadVersion
      else
      go_bind (go_at data 3) (\<lambda>enc.
      if enc \<noteq> encodingRaw \<and> enc \<noteq> encodingProto then Fail ErrUnknownEncoding
      else
      go_bind (go_at data 10) (\<lambda>encMode.
      if encMode \<noteq> encModeNone \<and> encMode \<noteq> encModeXXTEA then Fail ErrUnknownEncMode
      else
      go_bind (go_slice data 4 8) (\<lambda>c. go_bind (le_uint32 c) (\<lambda>hdrCRC.
      go_bind (go_slice data 8 10) (\<lambda>l. go_bind (le_uint16 l) (\<lambda>payloadLen.
      if encMode = encModeXXTEA
      then
        if int (length data) \<noteq> int headerLen + XXTEACiphertextLen (uint payloadLen)
        then Fail ErrCiphertextTooShort
        else (case key of
            None \<Rightarrow> Fail ErrEncryptedNoKey
          | Some k \<Rightarrow>
              if length k \<noteq> 32 then Fail (ErrKeyLength (length k))
              else go_bind (go_from data (int headerLen)) (\<lambda>body.
                   go_bind (openBody xxteaDecrypt k body payloadLen) (\<lambda>(crc, p).
                   Ret \<lparr>TopicCRC = crc, Encoding = enc, EncMode = encMode,
                        WasEncrypted = True, Payload = p\<rparr>)))
      else if uint payloadLen + int headerLen \<noteq> int (length data) then Fail ErrLengthMismatch
      else go_bind (go_from data (int headerLen)) (\<lambda>body.
           Ret \<lparr>TopicCRC = hdrCRC, Encoding = enc, EncMode = encMode,
                WasEncrypted = False, Payload = body\<rparr>)))))))))))"


section \<open>Sizes\<close>

lemma and_not_3: "(x :: int) AND NOT 3 = 4 * (x div 4)"
proof -
  have "x AND NOT (mask 2) = push_bit 2 (drop_bit 2 x)"
  proof (rule bit_eqI)
    show "bit (x AND NOT (mask 2)) n = bit (push_bit 2 (drop_bit 2 x)) n" for n
      by (cases "n < 2") (auto simp: bit_simps not_less dest!: le_Suc_ex)
  qed
  then show ?thesis by (simp add: mask_eq_exp_minus_1 push_bit_eq_mult drop_bit_eq_div)
qed

lemma XXTEACiphertextLen_eq: "XXTEACiphertextLen n = (if n < 4 then 8 else 4 * ((n + 7) div 4))"
  using and_not_3 [of "n + 7"] by (simp add: XXTEACiphertextLen_def Let_def add.commute)

lemma XXTEACiphertextLen_bounds:
  assumes "0 \<le> n"
  shows "8 \<le> XXTEACiphertextLen n" "n + 4 \<le> XXTEACiphertextLen n"
    "XXTEACiphertextLen n \<le> max 8 (n + 7)" "XXTEACiphertextLen n mod 4 = 0"
  using assms by (auto simp: XXTEACiphertextLen_eq)

text \<open>A ciphertext length as the number of bytes the code allocates.\<close>

definition clen_of :: "nat \<Rightarrow> nat" where
  "clen_of n = nat (XXTEACiphertextLen (int n))"

lemma clen_of_facts:
  "8 \<le> clen_of n" "n + 4 \<le> clen_of n" "clen_of n \<le> max 8 (n + 7)" "clen_of n mod 4 = 0"
  "int (clen_of n) = XXTEACiphertextLen (int n)"
proof -
  note b = XXTEACiphertextLen_bounds [of "int n", OF of_nat_0_le_iff]
  show int: "int (clen_of n) = XXTEACiphertextLen (int n)" using b by (simp add: clen_of_def)
  show "8 \<le> clen_of n" "n + 4 \<le> clen_of n" "clen_of n \<le> max 8 (n + 7)"
    using b int by linarith+
  show "clen_of n mod 4 = 0" using b(4) int by presburger
qed

lemma clen_of_fits: "headerLen + clen_of n \<le> maxDatagram \<longleftrightarrow> n \<le> 1216"
proof (cases "n < 4")
  case True
  then have "clen_of n = 8" by (simp add: clen_of_def XXTEACiphertextLen_eq)
  with True show ?thesis by (simp add: headerLen_def maxDatagram_def)
next
  case False
  then have "int (clen_of n) = 4 * ((int n + 7) div 4)"
    using clen_of_facts(5) [of n] by (simp add: XXTEACiphertextLen_eq)
  then have "clen_of n \<le> 1220 \<longleftrightarrow> n \<le> 1216" by presburger
  then show ?thesis by (simp add: headerLen_def maxDatagram_def)
qed


section \<open>The abstract layout\<close>

definition datagram :: "u8 \<Rightarrow> u32 \<Rightarrow> u16 \<Rightarrow> u8 \<Rightarrow> u8 \<Rightarrow> bytes \<Rightarrow> bytes" where
  "datagram encoding crc len mode reserved body =
     [wireMagic0, wireMagic1, wireVersion, encoding] @ le_bytes32 crc @ le_bytes16 len
       @ [mode, reserved] @ body"

lemma length_datagram [simp]: "length (datagram e c l m r body) = headerLen + length body"
  by (simp add: datagram_def headerLen_def)

lemma writeDatagram_eq: "writeDatagram encoding crc n mode body = Ret (datagram encoding crc (of_nat n) mode 0 body)"
proof -
  have "replicate (headerLen + length body) (0::u8) = [0, 0, 0, 0, 0, 0, 0, 0, 0, 0, 0, 0] @ replicate (length body) 0"
    by (simp add: headerLen_def eval_nat_numeral)
  then show ?thesis
    by (simp add: writeDatagram_def datagram_def go_set_def le_put32_def le_put16_def go_copy_def
        le_bytes32_def le_bytes16_def headerLen_def)
qed


section \<open>Sealed bodies, over any block cipher\<close>

text \<open>The plaintext that is encrypted: CRC, payload, zero padding.\<close>

definition seal_plain :: "u32 \<Rightarrow> bytes \<Rightarrow> nat \<Rightarrow> bytes" where
  "seal_plain crc payload clen =
     le_bytes32 crc @ payload @ replicate (clen - 4 - length payload) 0"

lemma length_seal_plain [simp]:
  "length payload + 4 \<le> clen \<Longrightarrow> length (seal_plain crc payload clen) = clen"
  by (simp add: seal_plain_def)

lemma le_uint32_first: "le_uint32 (take 4 (wordsToBytesLE (w # ws))) = Ret w"
  using le_uint32_bytes [of w "[]"] by (simp add: wordsToBytesLE_def)

context block_cipher
begin

lemma sealBody_enc:
  assumes "length payload + 4 \<le> clen"
  shows "sealBody enc key crc payload clen =
    go_bind (enc (bytesToWordsLE (seal_plain crc payload clen)) (bytesToWordsLE key))
      (\<lambda>words. Ret (wordsToBytesLE words))"
  using assms by (simp add: sealBody_def le_put32_def go_copy_def seal_plain_def)

lemma openBody_dec:
  assumes "dec (bytesToWordsLE body) (bytesToWordsLE key) = Ret (w # ws)"
    and "unat len + 4 \<le> 4 * length (w # ws)"
  shows "openBody dec key body len =
    Ret (w, take (unat len) (drop 4 (wordsToBytesLE (w # ws))))"
proof -
  have "4 + uint len \<le> int (length (wordsToBytesLE (w # ws)))"
    using assms(2) uint_nat [of len] unfolding length_wordsToBytesLE by linarith
  then show ?thesis
    using assms(1) by (simp add: openBody_def go_simps Let_def le_uint32_first)
qed

lemma open_seal:
  assumes key: "key_ok (bytesToWordsLE key)" and len: "length payload < 65536"
  shows "\<exists>body. sealBody enc key crc payload (clen_of (length payload)) = Ret body
     \<and> length body = clen_of (length payload)
     \<and> openBody dec key body (of_nat (length payload)) = Ret (crc, payload)"
proof -
  define clen where "clen = clen_of (length payload)"
  define ws where "ws = bytesToWordsLE (seal_plain crc payload clen)"
  note cl = clen_of_facts [of "length payload", folded clen_def]
  have plain: "length (seal_plain crc payload clen) = clen" using cl by simp
  have ws: "4 * length ws = clen" "2 \<le> length ws" using plain cl by (auto simp: ws_def)
  obtain c where c: "enc ws (bytesToWordsLE key) = Ret c" "length c = length ws"
    using enc_returns [OF key ws(2)] by blast
  have wsb: "wordsToBytesLE ws = seal_plain crc payload clen"
    using plain cl by (simp add: ws_def)
  obtain w rest where wr: "ws = w # rest" using ws(2) by (cases ws) auto
  have dec: "dec (bytesToWordsLE (wordsToBytesLE c)) (bytesToWordsLE key) = Ret (w # rest)"
    using dec_enc [OF key ws(2) c(1)] wr by simp
  have u: "unat (of_nat (length payload) :: u16) = length payload"
    using len by (simp add: unsigned_of_nat take_bit_nat_eq_self_iff)
  have "take 4 (wordsToBytesLE ws) = le_bytes32 w"
    by (simp add: wr wordsToBytesLE_def)
  then have "w = crc" by (simp add: wsb seal_plain_def)
  moreover have "openBody dec key (wordsToBytesLE c) (of_nat (length payload)) =
      Ret (w, take (length payload) (drop 4 (wordsToBytesLE ws)))"
    using openBody_dec [OF dec, of "of_nat (length payload)"] u ws wr cl by simp
  moreover have "take (length payload) (drop 4 (wordsToBytesLE ws)) = payload"
    by (simp add: wsb seal_plain_def)
  moreover have "sealBody enc key crc payload clen = Ret (wordsToBytesLE c)"
    using sealBody_enc [of payload clen key crc] cl c(1) by (simp add: ws_def)
  moreover have "length (wordsToBytesLE c) = clen"
    using c ws by simp
  ultimately show ?thesis by (auto simp: clen_def)
qed

lemma openBody_returns:
  assumes key: "key_ok (bytesToWordsLE key)" and len: "length body = clen_of (unat len)"
  shows "\<exists>crc p. openBody dec key body len = Ret (crc, p) \<and> length p = unat len"
proof -
  note cl = clen_of_facts [of "unat len"]
  have ws: "4 * length (bytesToWordsLE body) = length body" "2 \<le> length (bytesToWordsLE body)"
    using len cl by auto
  obtain p where p: "dec (bytesToWordsLE body) (bytesToWordsLE key) = Ret p"
      "length p = length (bytesToWordsLE body)"
    using dec_returns [OF key ws(2)] by blast
  then obtain w rest where "p = w # rest" using ws by (cases p) auto
  moreover have "unat len + 4 \<le> 4 * length p" using p(2) ws len cl by simp
  ultimately show ?thesis
    using openBody_dec [of body key w rest len] p(1) by simp
qed

end

lemma xxtea_key_32: "length k = 32 \<Longrightarrow> xxtea_key_ok (bytesToWordsLE k)"
  by (simp add: xxtea_key_ok_def)


section \<open>What EncodePacket computes\<close>

lemma EncodePacket_plain:
  assumes "encoding = encodingRaw \<or> encoding = encodingProto" "length payload \<le> maxPayload"
  shows "EncodePacket topic payload encoding None =
    Ret (datagram encoding (TopicCRC32 topic) (of_nat (length payload)) encModeNone 0 payload)"
  using assms by (auto simp: EncodePacket_def writeDatagram_eq)

lemma EncodePacket_sealed:
  assumes "encoding = encodingRaw \<or> encoding = encodingProto" "length k = 32" "length payload \<le> 1216"
  shows "\<exists>body. EncodePacket topic payload encoding (Some k) =
      Ret (datagram encoding 0 (of_nat (length payload)) encModeXXTEA 0 body)
    \<and> length body = clen_of (length payload)
    \<and> openBody xxteaDecrypt k body (of_nat (length payload)) =
        (Ret (TopicCRC32 topic, payload) :: (wire_error, _) outcome)"
proof -
  have "length payload < 65536" using assms(3) by simp
  from xxtea.open_seal [OF xxtea_key_32 [OF assms(2)] this, of "TopicCRC32 topic"]
  obtain body where body: "sealBody xxteaEncrypt k (TopicCRC32 topic) payload (clen_of (length payload))
        = (Ret body :: (wire_error, _) outcome)" "length body = clen_of (length payload)"
      "openBody xxteaDecrypt k body (of_nat (length payload)) =
        (Ret (TopicCRC32 topic, payload) :: (wire_error, _) outcome)"
    by blast
  have "\<not> headerLen + clen_of (length payload) > maxDatagram"
    using assms(3) clen_of_fits by (simp add: not_less)
  then have "EncodePacket topic payload encoding (Some k) =
      Ret (datagram encoding 0 (of_nat (length payload)) encModeXXTEA 0 body)"
    using assms(1,2) body(1)
    by (auto simp: EncodePacket_def writeDatagram_eq clen_of_def [symmetric] Let_def)
  with body show ?thesis by blast
qed


section \<open>What DecodePacket computes\<close>

lemma DecodePacket_short: "length data < headerLen \<Longrightarrow> DecodePacket data key = Fail ErrTooShort"
  by (simp add: DecodePacket_def)

lemma go_from_header:
  "go_from (m0 # m1 # v # e # c0 # c1 # c2 # c3 # l0 # l1 # m # r # body) 12 = Ret body"
  using go_from_append [of "[m0, m1, v, e, c0, c1, c2, c3, l0, l1, m, r]" body] by simp

lemma header_access:
  fixes m0 m1 v e c0 c1 c2 c3 l0 l1 m r :: u8 and body :: bytes
  defines "data \<equiv> m0 # m1 # v # e # c0 # c1 # c2 # c3 # l0 # l1 # m # r # body"
  shows "go_at data 0 = Ret m0" "go_at data 1 = Ret m1" "go_at data 2 = Ret v"
    "go_at data 3 = Ret e" "go_at data 10 = Ret m"
    "go_slice data 4 8 = Ret [c0, c1, c2, c3]" "go_slice data 8 10 = Ret [l0, l1]"
    "go_from data (int headerLen) = Ret body"
  by (simp_all add: data_def go_at_def go_slice_def go_from_header headerLen_def)

lemma DecodePacket_cons:
  "DecodePacket (m0 # m1 # v # e # c0 # c1 # c2 # c3 # l0 # l1 # m # r # body) key =
    (if m0 \<noteq> wireMagic0 \<or> m1 \<noteq> wireMagic1 then Fail ErrBadMagic
     else if v \<noteq> wireVersion then Fail ErrBadVersion
     else if e \<noteq> encodingRaw \<and> e \<noteq> encodingProto then Fail ErrUnknownEncoding
     else if m \<noteq> encModeNone \<and> m \<noteq> encModeXXTEA then Fail ErrUnknownEncMode
     else if m = encModeXXTEA then
       if length body \<noteq> clen_of (unat (le_word16 l0 l1)) then Fail ErrCiphertextTooShort
       else (case key of
           None \<Rightarrow> Fail ErrEncryptedNoKey
         | Some k \<Rightarrow> if length k \<noteq> 32 then Fail (ErrKeyLength (length k))
             else go_bind (openBody xxteaDecrypt k body (le_word16 l0 l1)) (\<lambda>(crc, p).
                  Ret \<lparr>TopicCRC = crc, Encoding = e, EncMode = m, WasEncrypted = True, Payload = p\<rparr>))
     else if unat (le_word16 l0 l1) \<noteq> length body then Fail ErrLengthMismatch
     else Ret \<lparr>TopicCRC = le_word32 c0 c1 c2 c3, Encoding = e, EncMode = m,
               WasEncrypted = False, Payload = body\<rparr>)"
proof -
  let ?n = "le_word16 l0 l1"
  have clen: "int (length body) = XXTEACiphertextLen (uint ?n) \<longleftrightarrow> length body = clen_of (unat ?n)"
    using clen_of_facts(5) [of "unat ?n", symmetric] by simp
  have len: "uint ?n = int (length body) \<longleftrightarrow> unat ?n = length body"
    by (rule uint_eq_int_iff)
  have long: "\<not> length (m0 # m1 # v # e # c0 # c1 # c2 # c3 # l0 # l1 # m # r # body) < headerLen"
    by (simp add: headerLen_def)
  have c12: "int (length (m0 # m1 # v # e # c0 # c1 # c2 # c3 # l0 # l1 # m # r # body)) =
      int headerLen + X \<longleftrightarrow> int (length body) = X"
    "X + int headerLen = int (length (m0 # m1 # v # e # c0 # c1 # c2 # c3 # l0 # l1 # m # r # body))
      \<longleftrightarrow> X = int (length body)" for X
    by (auto simp: headerLen_def)
  show ?thesis
    unfolding DecodePacket_def header_access if_not_P [OF long] go_bind.simps le_uint32.simps
      le_uint16.simps c12 clen len ..
qed

lemma DecodePacket_datagram:
  "DecodePacket (datagram e crc n m r body) key =
    (if e \<noteq> encodingRaw \<and> e \<noteq> encodingProto then Fail ErrUnknownEncoding
     else if m \<noteq> encModeNone \<and> m \<noteq> encModeXXTEA then Fail ErrUnknownEncMode
     else if m = encModeXXTEA then
       if length body \<noteq> clen_of (unat n) then Fail ErrCiphertextTooShort
       else (case key of
           None \<Rightarrow> Fail ErrEncryptedNoKey
         | Some k \<Rightarrow> if length k \<noteq> 32 then Fail (ErrKeyLength (length k))
             else go_bind (openBody xxteaDecrypt k body n) (\<lambda>(crc, p).
                  Ret \<lparr>TopicCRC = crc, Encoding = e, EncMode = m, WasEncrypted = True, Payload = p\<rparr>))
     else if unat n \<noteq> length body then Fail ErrLengthMismatch
     else Ret \<lparr>TopicCRC = crc, Encoding = e, EncMode = m, WasEncrypted = False, Payload = body\<rparr>)"
  unfolding datagram_def le_bytes32_def le_bytes16_def
  by (simp only: append_Cons append_Nil DecodePacket_cons le_simps simp_thms if_False)

lemma twelve_bytes:
  fixes data :: bytes
  assumes "headerLen \<le> length data"
  obtains m0 m1 v e c0 c1 c2 c3 l0 l1 m r body
  where "data = m0 # m1 # v # e # c0 # c1 # c2 # c3 # l0 # l1 # m # r # body"
proof -
  have "data = take 12 data @ drop 12 data" by simp
  moreover have "\<exists>m0 m1 v e c0 c1 c2 c3 l0 l1 m r.
      xs = [m0, m1, v, e, c0, c1, c2, c3, l0, l1, m, r]" if "length xs = 12" for xs :: bytes
    using that by (auto simp: length_Suc_conv eval_nat_numeral)
  from this [of "take 12 data"] obtain m0 m1 v e c0 c1 c2 c3 l0 l1 m r
    where "take 12 data = [m0, m1, v, e, c0, c1, c2, c3, l0, l1, m, r]"
    using assms by (auto simp: headerLen_def)
  ultimately show thesis using that by (metis append_Cons append_Nil)
qed

end
