(* ===== verification/Wire_Props.thy ===== *)
theory Wire_Props
  imports Wire
begin

text \<open>
  The properties of the packet codec: round trips in both modes, the exact conditions under which
  each direction succeeds (for the decoder, the receiver rules of \<open>docs/PROTOCOL.md\<close> section 4),
  absence of panics, datagram sizes, what an encrypted header reveals, and which half of the
  derived key the cipher reads.
\<close>

section \<open>Round trips\<close>

definition plain_packet :: "string \<Rightarrow> bytes \<Rightarrow> u8 \<Rightarrow> DecodedPacket" where
  "plain_packet topic payload encoding =
     \<lparr>TopicCRC = TopicCRC32 topic, Encoding = encoding, EncMode = encModeNone,
      WasEncrypted = False, Payload = payload\<rparr>"

definition sealed_packet :: "string \<Rightarrow> bytes \<Rightarrow> u8 \<Rightarrow> DecodedPacket" where
  "sealed_packet topic payload encoding =
     \<lparr>TopicCRC = TopicCRC32 topic, Encoding = encoding, EncMode = encModeXXTEA,
      WasEncrypted = True, Payload = payload\<rparr>"

lemma unat_u16_length: "n \<le> maxPayload \<Longrightarrow> unat (of_nat n :: u16) = n"
  by (simp add: wire_consts unsigned_of_nat take_bit_nat_eq_self_iff)

text \<open>
  C12. Plaintext round trip.  A packet encoded without a key decodes, under any receiver key
  configuration, to exactly the topic CRC, encoding and payload that were sent, marked as not
  encrypted.
\<close>

theorem decode_encode_plain:
  assumes "encoding = encodingRaw \<or> encoding = encodingProto" "length payload \<le> maxPayload"
  shows "go_bind (EncodePacket topic payload encoding None) (\<lambda>d. DecodePacket d key) =
    Ret (plain_packet topic payload encoding)"
  using assms unat_u16_length [OF assms(2)]
  by (auto simp: EncodePacket_plain DecodePacket_datagram plain_packet_def encModeNone_def encModeXXTEA_def)

theorem decode_encode_plain_witness:
  "go_bind (EncodePacket ''home/x'' [1, 2, 3] encodingRaw None) (\<lambda>d. DecodePacket d None) =
    Ret (plain_packet ''home/x'' [1, 2, 3] encodingRaw)"
  by (rule decode_encode_plain) (simp_all add: wire_consts)

lemma decode_sealed:
  assumes "encoding = encodingRaw \<or> encoding = encodingProto" "length k = 32" "length payload \<le> 1216"
  shows "\<exists>d. EncodePacket topic payload encoding (Some k) = Ret d
    \<and> DecodePacket d (Some k) = Ret (sealed_packet topic payload encoding)"
proof -
  have u: "unat (of_nat (length payload) :: u16) = length payload"
    using assms(3) by (simp add: unat_u16_length wire_consts)
  show ?thesis
    using EncodePacket_sealed [OF assms, of topic] assms(1,2)
    by (auto simp: DecodePacket_datagram u sealed_packet_def encModeNone_def encModeXXTEA_def)
qed

text \<open>
  C5. Encrypted round trip.  With a 32-byte key and a payload of at most 1216 bytes, the receiver
  that holds the same key recovers the topic CRC from the ciphertext and the payload without the
  zero padding, marked as encrypted.
\<close>

theorem decode_encode_sealed:
  assumes "encoding = encodingRaw \<or> encoding = encodingProto" "length k = 32" "length payload \<le> 1216"
  shows "go_bind (EncodePacket topic payload encoding (Some k)) (\<lambda>d. DecodePacket d (Some k)) =
    Ret (sealed_packet topic payload encoding)"
  using decode_sealed [OF assms, of topic] by auto

theorem decode_encode_sealed_witness:
  "go_bind (EncodePacket ''home/x'' [1, 2, 3] encodingProto (Some (replicate 32 7)))
     (\<lambda>d. DecodePacket d (Some (replicate 32 7))) = Ret (sealed_packet ''home/x'' [1, 2, 3] encodingProto)"
  by (rule decode_encode_sealed) simp_all


section \<open>When encoding succeeds\<close>

definition packet_encodable :: "bytes \<Rightarrow> u8 \<Rightarrow> bytes option \<Rightarrow> bool" where
  "packet_encodable payload encoding key \<longleftrightarrow>
     (encoding = encodingRaw \<or> encoding = encodingProto) \<and>
     (case key of None \<Rightarrow> length payload \<le> 1220 | Some k \<Rightarrow> length k = 32 \<and> length payload \<le> 1216)"

definition encoded_length :: "bytes \<Rightarrow> bytes option \<Rightarrow> nat" where
  "encoded_length payload key =
     (case key of None \<Rightarrow> 12 + length payload
      | Some _ \<Rightarrow> 12 + max 8 (4 * ((length payload + 7) div 4)))"

lemma clen_of_eq: "clen_of n = max 8 (4 * ((n + 7) div 4))"
proof -
  have "int (clen_of n) = int (max 8 (4 * ((n + 7) div 4)))"
  proof (cases "n < 4")
    case True
    then have "(n + 7) div 4 \<le> 2" by arith
    with True show ?thesis by (simp add: clen_of_facts(5) XXTEACiphertextLen_eq)
  next
    case False
    then have "2 \<le> (n + 7) div 4" by arith
    with False show ?thesis by (simp add: clen_of_facts(5) XXTEACiphertextLen_eq zdiv_int)
  qed
  then show ?thesis by (simp only: of_nat_eq_iff)
qed

lemma EncodePacket_encodable:
  assumes "packet_encodable payload encoding key"
  shows "\<exists>crc mode body. EncodePacket topic payload encoding key =
      Ret (datagram encoding crc (of_nat (length payload)) mode 0 body)
    \<and> headerLen + length body = encoded_length payload key
    \<and> (case key of None \<Rightarrow> mode = encModeNone \<and> crc = TopicCRC32 topic
        | Some _ \<Rightarrow> mode = encModeXXTEA \<and> crc = 0)"
proof (cases key)
  case None
  then show ?thesis
    using assms EncodePacket_plain [of encoding payload topic]
    by (auto simp: packet_encodable_def encoded_length_def wire_consts)
next
  case (Some k)
  then show ?thesis
    using assms EncodePacket_sealed [of encoding k payload topic]
    by (auto simp: packet_encodable_def encoded_length_def headerLen_def clen_of_eq)
qed

lemma EncodePacket_not_encodable:
  "\<not> packet_encodable payload encoding key \<Longrightarrow> \<exists>e. EncodePacket topic payload encoding key = Fail e"
  using clen_of_fits [of "length payload"]
  by (auto simp: packet_encodable_def EncodePacket_def Let_def clen_of_def [symmetric] maxPayload_def
      maxDatagram_def headerLen_def not_le split: option.splits)

lemma encoded_length_fits: "packet_encodable payload encoding key \<Longrightarrow> encoded_length payload key \<le> maxDatagram"
  by (auto simp: packet_encodable_def encoded_length_def maxDatagram_def split: option.splits)

lemma sealed_opens:
  assumes "EncodePacket topic payload encoding (Some k) = Ret d"
  shows "DecodePacket d (Some k) = Ret (sealed_packet topic payload encoding)"
proof -
  have "packet_encodable payload encoding (Some k)"
    using EncodePacket_not_encodable [of payload encoding "Some k" topic] assms by auto
  then show ?thesis
    using decode_sealed [of encoding k payload topic] assms by (auto simp: packet_encodable_def)
qed

text \<open>
  C22. Encoder totality and size.  \<open>EncodePacket\<close> never panics; it returns a datagram exactly for a
  known encoding, a payload within the limit of the mode and a 32-byte key, and then the datagram
  has the documented length and fits the 1232-byte maximum.
\<close>

theorem EncodePacket_outcome:
  "case EncodePacket topic payload encoding key of
     Ret d \<Rightarrow> packet_encodable payload encoding key \<and> length d = encoded_length payload key
              \<and> length d \<le> maxDatagram
   | Fail e \<Rightarrow> \<not> packet_encodable payload encoding key
   | Panic \<Rightarrow> False"
proof (cases "packet_encodable payload encoding key")
  case True
  then show ?thesis
    using EncodePacket_encodable [OF True, of topic] encoded_length_fits [OF True] by auto
next
  case False
  then show ?thesis using EncodePacket_not_encodable [OF False, of topic] by auto
qed


section \<open>When decoding succeeds\<close>

text \<open>The receiver rules (1) to (7) of \<open>docs/PROTOCOL.md\<close> section 4, as one predicate.\<close>

definition protocol_valid :: "bytes \<Rightarrow> bool \<Rightarrow> bool" where
  "protocol_valid data hasKey \<longleftrightarrow>
     12 \<le> length data \<and> take 2 data = string_bytes ''MP'' \<and> data ! 2 = 1
     \<and> data ! 3 \<in> {0, 1} \<and> data ! 10 \<in> {0, 1}
     \<and> (let n = unat (data ! 8) + 256 * unat (data ! 9) in
        if data ! 10 = 0 then length data = 12 + n
        else length data = 12 + max 8 (4 * ((4 + n + 3) div 4)) \<and> hasKey)"

definition key_fits :: "bytes option \<Rightarrow> bool" where
  "key_fits key \<longleftrightarrow> (case key of None \<Rightarrow> True | Some k \<Rightarrow> length k = 32)"

lemma openBody_xxtea:
  assumes "length k = 32" "length body = clen_of (unat n)"
  shows "\<exists>crc p. openBody xxteaDecrypt k body n = (Ret (crc, p) :: (wire_error, _) outcome)
    \<and> length p = unat n"
  using xxtea.openBody_returns [OF xxtea_key_32 [OF assms(1)] assms(2)] by blast

lemma DecodePacket_never_panics: "DecodePacket data key \<noteq> Panic"
proof (cases "headerLen \<le> length data")
  case True
  then obtain m0 m1 v e c0 c1 c2 c3 l0 l1 m r body
    where data: "data = m0 # m1 # v # e # c0 # c1 # c2 # c3 # l0 # l1 # m # r # body"
    by (rule twelve_bytes)
  have "openBody xxteaDecrypt k body (le_word16 l0 l1) \<noteq> (Panic :: (wire_error, _) outcome)"
    if "length k = 32" "length body = clen_of (unat (le_word16 l0 l1))" for k
    using openBody_xxtea [OF that] by auto
  then show ?thesis
    by (auto simp: data DecodePacket_cons go_results split: option.split)
qed (simp add: DecodePacket_short)

text \<open>
  C13. The decoder never panics: whatever bytes arrive and whatever key is configured, every slice
  and index access of \<open>DecodePacket\<close> is in range.
\<close>

theorem DecodePacket_no_panic: "DecodePacket data key \<noteq> Panic"
  by (rule DecodePacket_never_panics)

text \<open>
  C9. The decoder implements the protocol's validation rules: with a well-formed receiver key, a
  datagram is accepted exactly when rules (1) to (7) of the specification hold.
\<close>

theorem DecodePacket_accepts_iff:
  assumes "key_fits key"
  shows "(\<exists>pkt. DecodePacket data key = Ret pkt) \<longleftrightarrow> protocol_valid data (key \<noteq> None)"
proof (cases "headerLen \<le> length data")
  case True
  then obtain m0 m1 v e c0 c1 c2 c3 l0 l1 m r body
    where data: "data = m0 # m1 # v # e # c0 # c1 # c2 # c3 # l0 # l1 # m # r # body"
    by (rule twelve_bytes)
  let ?n = "le_word16 l0 l1"
  have opens: "\<exists>crc p. openBody xxteaDecrypt k body ?n = (Ret (crc, p) :: (wire_error, _) outcome)"
    if "length k = 32" "length body = clen_of (unat ?n)" for k
    using openBody_xxtea [OF that] by blast
  have "protocol_valid data (key \<noteq> None) \<longleftrightarrow>
      m0 = 0x4D \<and> m1 = 0x50 \<and> v = 1 \<and> (e = 0 \<or> e = 1) \<and> (m = 0 \<or> m = 1)
      \<and> (if m = 0 then length body = unat ?n else length body = clen_of (unat ?n) \<and> key \<noteq> None)"
    by (simp add: protocol_valid_def data string_bytes_def unat_le_word16 clen_of_eq Let_def add_ac
        cong: conj_cong if_cong)
  then have valid: "protocol_valid data (key \<noteq> None) \<longleftrightarrow>
      m0 = wireMagic0 \<and> m1 = wireMagic1 \<and> v = wireVersion \<and> (e = encodingRaw \<or> e = encodingProto)
      \<and> (m = encModeNone \<and> length body = unat ?n
         \<or> m = encModeXXTEA \<and> length body = clen_of (unat ?n) \<and> key \<noteq> None)"
    by (auto simp: wire_consts)
  have sealed: "returns (go_bind (openBody xxteaDecrypt k body ?n :: (wire_error, _) outcome)
      (\<lambda>(crc, p). Ret (f crc p)))"
    if "length k = 32" "length body = clen_of (unat ?n)" for k f
    using opens [OF that] by auto
  show ?thesis
  proof (cases key)
    case None
    then show ?thesis
      unfolding valid unfolding data DecodePacket_cons returns_def [symmetric]
      by (cases "m = encModeXXTEA") (auto simp: encModeNone_def encModeXXTEA_def)
  next
    case (Some k)
    then have k: "length k = 32" using assms by (simp add: key_fits_def)
    show ?thesis
      unfolding valid unfolding data DecodePacket_cons returns_def [symmetric]
      using sealed [OF k]
      by (cases "m = encModeXXTEA") (auto simp: Some k encModeNone_def encModeXXTEA_def)
  qed
next
  case False
  then show ?thesis by (simp add: DecodePacket_short protocol_valid_def headerLen_def)
qed

theorem DecodePacket_accepts_iff_witness:
  "\<exists>pkt. DecodePacket ([0x4D, 0x50, 1, 0, 9, 9, 9, 9, 2, 0, 0, 0] @ [5, 6]) None = Ret pkt"
  using DecodePacket_accepts_iff [of None "[0x4D, 0x50, 1, 0, 9, 9, 9, 9, 2, 0, 0, 0] @ [5, 6]"]
  by (simp add: key_fits_def protocol_valid_def string_bytes_def)


section \<open>What an encrypted datagram reveals\<close>

text \<open>
  Topic confidentiality of the cleartext header.  The twelve header bytes of an encrypted
  datagram depend only on the encoding and the payload length: two topics and two payloads of the
  same length give the same header, whose CRC field is zero.
\<close>

theorem sealed_header_hides_topic:
  assumes "encoding = encodingRaw \<or> encoding = encodingProto" "length k = 32" "length payload \<le> 1216"
    and "EncodePacket topic payload encoding (Some k) = Ret d"
  shows "take 12 d = [0x4D, 0x50, 0x01, encoding, 0, 0, 0, 0] @ le_bytes16 (of_nat (length payload)) @ [0x01, 0]"
proof -
  obtain body where "d = datagram encoding 0 (of_nat (length payload)) encModeXXTEA 0 body"
    using EncodePacket_sealed [OF assms(1-3), of topic] assms(4) by auto
  then show ?thesis by (simp add: datagram_def wire_consts le_bytes32_def le_bytes16_def)
qed

theorem sealed_header_hides_topic_witness:
  "\<exists>d. EncodePacket ''t'' [7] encodingRaw (Some (replicate 32 0)) = Ret d
     \<and> take 12 d = [0x4D, 0x50, 0x01, 0, 0, 0, 0, 0, 1, 0, 0x01, 0]"
proof -
  obtain d where d: "EncodePacket ''t'' [7] encodingRaw (Some (replicate 32 0)) = Ret d"
    using EncodePacket_sealed [of encodingRaw "replicate 32 0" "[7]" "''t''"] by auto
  then have "take 12 d = [0x4D, 0x50, 0x01, encodingRaw, 0, 0, 0, 0]
      @ le_bytes16 (of_nat (length [7 :: u8])) @ [0x01, 0]"
    by (rule sealed_header_hides_topic [rotated 3]) simp_all
  with d show ?thesis by (simp add: encodingRaw_def le_bytes16_def)
qed

text \<open>
  An encrypted datagram determines what was sent: under one key, two messages with equal
  datagrams have the same encoding, topic CRC and payload.
\<close>

theorem sealed_datagram_injective:
  assumes "EncodePacket topic payload encoding (Some k) = Ret d"
    and "EncodePacket topic' payload' encoding' (Some k) = Ret d"
  shows "payload = payload' \<and> encoding = encoding' \<and> TopicCRC32 topic = TopicCRC32 topic'"
proof -
  have "DecodePacket d (Some k) = Ret (sealed_packet topic payload encoding)"
    "DecodePacket d (Some k) = Ret (sealed_packet topic' payload' encoding')"
    using sealed_opens assms by blast+
  then show ?thesis by (simp add: sealed_packet_def)
qed


section \<open>Which key bytes matter\<close>

lemma words_of_take: "words_of (take (4 * n) b) = take n (words_of b)"
proof (induction n arbitrary: b)
  case (Suc n)
  have four: "4 * Suc n = Suc (Suc (Suc (Suc (4 * n))))" by simp
  show ?case unfolding four
    by (cases b rule: words_of.cases) (simp_all add: Suc.IH)
qed simp

theorem sealed_datagram_injective_witness:
  "\<exists>d. EncodePacket ''t'' [7] encodingRaw (Some (replicate 32 0)) = Ret d
     \<and> TopicCRC32 ''t'' = TopicCRC32 ''t''"
proof -
  obtain d where d: "EncodePacket ''t'' [7] encodingRaw (Some (replicate 32 0)) = Ret d"
    using decode_sealed [of encodingRaw "replicate 32 0" "[7]" "''t''"] by auto
  from sealed_datagram_injective [OF d d] d show ?thesis by blast
qed

lemma bytesToWordsLE_prefix:
  assumes "length k = 32"
  shows "take 4 (bytesToWordsLE k) = words_of (take 16 k)"
  using words_of_take [of 4 k] assms by (simp add: bytesToWordsLE_def)

lemma EncodePacket_key_prefix:
  assumes "length k = 32" "length k' = 32" "take 16 k = take 16 k'"
  shows "EncodePacket topic payload encoding (Some k) = EncodePacket topic payload encoding (Some k')"
proof -
  have pre: "take 4 (bytesToWordsLE k) = take 4 (bytesToWordsLE k')"
    using assms bytesToWordsLE_prefix by metis
  have "xxteaEncrypt ws (bytesToWordsLE k) = (xxteaEncrypt ws (bytesToWordsLE k') :: (wire_error, _) outcome)"
    if "2 \<le> length ws" for ws
    using that assms spec_encrypt_key_prefix [OF pre, of ws]
    by (simp add: xxteaEncrypt_spec)
  then have "sealBody xxteaEncrypt k crc p (clen_of (length p)) =
      (sealBody xxteaEncrypt k' crc p (clen_of (length p)) :: (wire_error, _) outcome)" for crc p
    using clen_of_facts [of "length p"] by (simp add: xxtea.sealBody_enc)
  then show ?thesis
    using assms by (simp add: EncodePacket_def clen_of_def [symmetric] Let_def)
qed

text \<open>
  C36. Only half of the key is used.  \<open>xxteaMX\<close> indexes the key with \<open>(p&3)^e\<close>, which is below 4, so
  of the 32 bytes \<open>DeriveKey\<close> produces only the first 16 influence a datagram: keys that agree on
  them encrypt every message to the same bytes.
\<close>

theorem only_first_half_of_key:
  assumes "length k = 32" "length k' = 32" "take 16 k = take 16 k'"
  shows "EncodePacket topic payload encoding (Some k) = EncodePacket topic payload encoding (Some k')"
  by (rule EncodePacket_key_prefix [OF assms])

theorem only_first_half_of_key_witness:
  "EncodePacket ''t'' [1] encodingRaw (Some (replicate 16 5 @ replicate 16 0)) =
   EncodePacket ''t'' [1] encodingRaw (Some (replicate 16 5 @ replicate 16 1))"
  by (rule only_first_half_of_key) simp_all


section \<open>Multicast groups\<close>

text \<open>
  Every derived group is a 16-byte transient IPv6 multicast address: first byte \<open>0xFF\<close>, second
  byte the T flag and the scope nibble, then 14 bytes of the topic's SHA-256; the scope names the
  configuration accepts give exactly \<open>ff12\<close>, \<open>ff15\<close> and \<open>ff18\<close>.
\<close>

theorem TopicToGroup_address:
  "length (TopicToGroup topic scope) = 16 \<and> TopicToGroup topic scope ! 0 = 0xFF
   \<and> drop 2 (TopicToGroup topic scope) = take 14 (sha256 (string_bytes topic))
   \<and> TopicToGroup topic scope ! 1 AND 0xF0 = 0x10 \<and> TopicToGroup topic scope ! 1 AND 0x0F = scope AND 0x0F
   \<and> (case ParseScope s of
        Ret sc \<Rightarrow> TopicToGroup topic sc ! 1 \<in> {0x12, 0x15, 0x18}
      | Fail e \<Rightarrow> s \<notin> {'''', ''link-local'', ''site-local'', ''organization-local'', ''org-local''}
      | Panic \<Rightarrow> False)"
proof -
  have second: "TopicToGroup topic sc ! 1 = 0x10 OR (sc AND 0x0F)" for sc
    by (simp add: TopicToGroup_def Let_def nth_append)
  have first: "TopicToGroup topic scope ! 0 = 0xFF"
    by (simp add: TopicToGroup_def Let_def nth_append)
  have "(0x10 OR (sc AND 0x0F)) AND 0xF0 = 0x10" "(0x10 OR (sc AND 0x0F)) AND 0x0F = sc AND 0x0F"
    for sc :: u8
    by (simp_all add: bit.conj_disj_distrib2 and.assoc)
  then show ?thesis
    unfolding second first
    by (simp add: TopicToGroup_def Let_def ParseScope_def scope_consts)
qed

end
