(* ===== verification/Test_Vectors.thy ===== *)
theory Test_Vectors
  imports Wire_Props
begin

text \<open>
  Known answers, evaluated by the simplifier inside the kernel: the check values of CRC-32 and
  SHA-256, and the pinned encrypted datagram of \<open>bridges/mqtt-go/wire_test.go\<close>
  (\<open>TestEncryptedKnownVectorMatchesPythonReference\<close>), which the Go, Python and C++ sides share.
\<close>

lemma crc32_ieee_check: "crc32_ieee (string_bytes ''123456789'') = 0xCBF43926"
  by (simp add: crc32_eval)

lemma sha256_abc_check:
  "sha256 (string_bytes ''abc'') =
     [0xba, 0x78, 0x16, 0xbf, 0x8f, 0x01, 0xcf, 0xea, 0x41, 0x41, 0x40, 0xde, 0x5d, 0xae, 0x22, 0x23,
      0xb0, 0x03, 0x61, 0xa3, 0x96, 0x17, 0x7a, 0x9c, 0xb4, 0x10, 0xff, 0x61, 0xf2, 0x00, 0x15, 0xad]"
  by (simp add: sha256_eval)

lemma derive_hunter2:
  "DeriveKey ''hunter2'' =
     [0xf5, 0x2f, 0xbd, 0x32, 0xb2, 0xb3, 0xb8, 0x6f, 0xf8, 0x8e, 0xf6, 0xc4, 0x90, 0x62, 0x82, 0x85,
      0xf4, 0x82, 0xaf, 0x15, 0xdd, 0xcb, 0x29, 0x54, 0x1f, 0x94, 0xbc, 0xf5, 0x26, 0xa3, 0xf6, 0xc7]"
  unfolding DeriveKey_def by (simp add: sha256_eval)

lemma crc_home_x: "TopicCRC32 ''home/x'' = 0x85952b7e"
  by (simp add: TopicCRC32_def crc32_eval)

lemma upt_0_2: "[0..<Suc (Suc 0)] = [0, 1]" and upt_0_23: "[0..<23] = [0, 1, 2, 3, 4, 5, 6, 7, 8, 9,
    10, 11, 12, 13, 14, 15, 16, 17, 18, 19, 20, 21, 22::nat]"
  and and_3: "Suc 0 AND 3 = 1" "Suc (Suc 0) AND 3 = (2::nat)"
  by (simp_all add: upt_rec numeral_2_eq_2 [symmetric])

lemmas xxtea_eval = xxteaEncrypt_def enc_round_def enc_word_def xxteaMX_def xxtea_e_def
  xxteaDelta_def go_at_def go_set_def Let_def upt_0_2 upt_0_23 and_3

lemma xxtea_vector:
  "xxteaEncrypt [0x85952b7e, 0x6c6c6568, 0x6f]
     [0x32bd2ff5, 0x6fb8b3b2, 0xc4f68ef8, 0x85826290, 0x15af82f4, 0x5429cbdd, 0xf5bc941f, 0xc7f6a326]
   = Ret [0x73d1766f, 0x7a2a6550, 0x5cd07da6]"
  by (simp add: xxtea_eval cong: go_bind_weak_cong)

text \<open>
  The pinned datagram: encoding the payload "hello" on topic "home/x" under the passphrase
  "hunter2" gives the 24 bytes that the Python reference produces.
\<close>

theorem pinned_datagram:
  "EncodePacket ''home/x'' (string_bytes ''hello'') encodingRaw (Some (DeriveKey ''hunter2'')) =
   Ret [0x4d, 0x50, 0x01, 0x00, 0x00, 0x00, 0x00, 0x00, 0x05, 0x00, 0x01, 0x00,
        0x6f, 0x76, 0xd1, 0x73, 0x50, 0x65, 0x2a, 0x7a, 0xa6, 0x7d, 0xd0, 0x5c]"
proof -
  have "seal_plain 0x85952b7e (string_bytes ''hello'') 12 =
      [0x7e, 0x2b, 0x95, 0x85, 0x68, 0x65, 0x6c, 0x6c, 0x6f, 0, 0, 0]"
    by (simp add: seal_plain_def le_bytes32_def string_bytes_def replicate_numeral)
  then have words: "bytesToWordsLE (seal_plain 0x85952b7e (string_bytes ''hello'') 12) =
      [0x85952b7e, 0x6c6c6568, 0x6f]"
    by (simp add: bytesToWordsLE_def le_word32_def)
  have key: "bytesToWordsLE (DeriveKey ''hunter2'') =
      [0x32bd2ff5, 0x6fb8b3b2, 0xc4f68ef8, 0x85826290, 0x15af82f4, 0x5429cbdd, 0xf5bc941f, 0xc7f6a326]"
    by (simp add: derive_hunter2 bytesToWordsLE_def le_word32_def)
  have "sealBody xxteaEncrypt (DeriveKey ''hunter2'') 0x85952b7e (string_bytes ''hello'') 12 =
      (Ret [0x6f, 0x76, 0xd1, 0x73, 0x50, 0x65, 0x2a, 0x7a, 0xa6, 0x7d, 0xd0, 0x5c]
       :: (wire_error, bytes) outcome)"
    by (subst xxtea.sealBody_enc) (simp_all add: words key xxtea_vector wordsToBytesLE_def le_bytes32_def)
  then show ?thesis
    by (simp add: EncodePacket_def crc_home_x wire_consts XXTEACiphertextLen_eq writeDatagram_eq
        datagram_def le_bytes32_def le_bytes16_def)
qed

end
