(* ===== verification/Schema.thy ===== *)
theory Schema
  imports Go_Hash "HOL-Library.Multiset" "HOL-Library.Char_ord" "HOL-Library.List_Lexorder"
begin

text \<open>
  \<open>bridges/mqtt-go/schema.go\<close>: message schemas, their validation by \<open>NewSchema\<close> with the lookup
  tables it builds, and the 16-bit \<open>SCHEMA_ID\<close> of the canonical schema string.  The lemmas
  characterise acceptance, state the table invariant and show that the id does not depend on the
  order in which the fields are declared.
\<close>

section \<open>Code\<close>

record SchemaField =
  Name :: string
  Type :: string
  Tag :: u32
  Repeated :: bool

record Schema =
  ID :: string
  Fields :: "SchemaField list"
  byTag :: "u32 \<rightharpoonup> nat"
  byName :: "string \<rightharpoonup> nat"
  sid :: u16

datatype schema_error =
    EmptySchemaID
  | NoFields string
  | TagOutOfRange string string u32
  | TagReserved string string u32
  | DuplicateTag string u32 string
  | DuplicateName string string
  | UnknownFieldType string string string

definition validTypes :: "string set" where
  "validTypes = {''bool'', ''int32'', ''int64'', ''uint32'', ''uint64'', ''sint32'', ''sint64'',
    ''float'', ''string'', ''bytes''}"

text \<open>\<open>%d\<close> of an unsigned number\<close>

fun decimal :: "nat \<Rightarrow> string" where
  "decimal n = (if n < 10 then [char_of (48 + n)] else decimal (n div 10) @ [char_of (48 + n mod 10)])"

declare decimal.simps [simp del]

fun join :: "string \<Rightarrow> string list \<Rightarrow> string" where
  "join sep [] = ''''"
| "join sep [s] = s"
| "join sep (s # ss) = s @ sep @ join sep ss"

definition schema_line :: "SchemaField \<Rightarrow> string" where
  "schema_line f =
     (let typ = (if Repeated f then ''repeated '' @ Type f else Type f)
      in decimal (unat (Tag f)) @ '':'' @ typ @ '':'' @ Name f)"

definition canonicalSchemaString :: "Schema \<Rightarrow> string" where
  "canonicalSchemaString s = join [CHR 0x0A] (sort (map schema_line (Fields s)))"

definition computeSchemaID :: "Schema \<Rightarrow> u16" where
  "computeSchemaID s = ucast (crc32_ieee (string_bytes (canonicalSchemaString s)) AND 0xFFFF)"

text \<open>The loop body of \<open>NewSchema\<close>.\<close>

definition addField :: "string \<Rightarrow> nat \<times> SchemaField \<Rightarrow> Schema \<Rightarrow> (schema_error, Schema) outcome" where
  "addField sname = (\<lambda>(i, f) s.
     if Tag f < 1 \<or> Tag f > 536870911 then Fail (TagOutOfRange sname (Name f) (Tag f))
     else if Tag f \<ge> 19000 \<and> Tag f \<le> 19999 then Fail (TagReserved sname (Name f) (Tag f))
     else if byTag s (Tag f) \<noteq> None then Fail (DuplicateTag sname (Tag f) (Name f))
     else if byName s (Name f) \<noteq> None then Fail (DuplicateName sname (Name f))
     else if Type f \<notin> validTypes then Fail (UnknownFieldType sname (Name f) (Type f))
     else Ret (s\<lparr>byTag := (byTag s)(Tag f \<mapsto> i), byName := (byName s)(Name f \<mapsto> i)\<rparr>))"

definition NewSchema :: "string \<Rightarrow> SchemaField list \<Rightarrow> (schema_error, Schema) outcome" where
  "NewSchema sname flds =
     (if sname = '''' then Fail EmptySchemaID
      else if length flds = 0 then Fail (NoFields sname)
      else
        go_bind (go_for (addField sname) (enumerate 0 flds)
            \<lparr>ID = sname, Fields = flds, byTag = Map.empty, byName = Map.empty, sid = 0\<rparr>)
          (\<lambda>s. Ret (s\<lparr>sid := computeSchemaID s\<rparr>)))"

definition SchemaID :: "Schema \<Rightarrow> u16" where
  "SchemaID s = sid s"


section \<open>Acceptance and the lookup tables\<close>

definition tag_ok :: "u32 \<Rightarrow> bool" where
  "tag_ok t \<longleftrightarrow> 1 \<le> t \<and> t \<le> 536870911 \<and> \<not> (19000 \<le> t \<and> t \<le> 19999)"

definition field_ok :: "SchemaField \<Rightarrow> bool" where
  "field_ok f \<longleftrightarrow> tag_ok (Tag f) \<and> Type f \<in> validTypes"

definition fields_ok :: "SchemaField list \<Rightarrow> bool" where
  "fields_ok fs \<longleftrightarrow> (\<forall>f\<in>set fs. field_ok f) \<and> distinct (map Tag fs) \<and> distinct (map Name fs)"

text \<open>The position of a key in a list of keys, as a table.\<close>

definition index_map :: "'a list \<Rightarrow> 'a \<rightharpoonup> nat" where
  "index_map ks = map_of (zip ks [0..<length ks])"

lemma dom_index_map: "dom (index_map ks) = set ks"
  by (simp add: index_map_def)

lemma index_map_None: "index_map ks k = None \<longleftrightarrow> k \<notin> set ks"
  by (simp add: index_map_def map_of_zip_is_None)

lemma index_map_snoc:
  assumes "k \<notin> set ks"
  shows "index_map (ks @ [k]) = (index_map ks)(k \<mapsto> length ks)"
proof
  fix x
  have "index_map (ks @ [k]) x = (map_of [(k, length ks)] ++ index_map ks) x"
    by (simp add: index_map_def)
  then show "index_map (ks @ [k]) x = ((index_map ks)(k \<mapsto> length ks)) x"
    using assms index_map_None [of ks k] by (auto simp: map_add_def split: option.split)
qed

lemma index_map_iff:
  assumes "distinct ks"
  shows "index_map ks k = Some i \<longleftrightarrow> i < length ks \<and> ks ! i = k"
proof -
  have "index_map ks k = Some i \<longleftrightarrow> (k, i) \<in> set (zip ks [0..<length ks])"
    unfolding index_map_def using assms by (intro map_of_eq_Some_iff) simp
  then show ?thesis by (auto simp: set_zip)
qed

lemma addField_Ret:
  assumes "byTag s = index_map (map Tag fs)" "byName s = index_map (map Name fs)"
  shows "addField sname (length fs, f) s = Ret s' \<longleftrightarrow>
    field_ok f \<and> Tag f \<notin> Tag ` set fs \<and> Name f \<notin> Name ` set fs \<and>
    s' = s\<lparr>byTag := index_map (map Tag (fs @ [f])), byName := index_map (map Name (fs @ [f]))\<rparr>"
proof -
  have "byTag s t = None \<longleftrightarrow> t \<notin> Tag ` set fs" "byName s n = None \<longleftrightarrow> n \<notin> Name ` set fs" for t n
    unfolding assms by (simp_all add: index_map_None)
  then show ?thesis
    by (auto simp: addField_def field_ok_def tag_ok_def assms index_map_snoc not_less not_le)
qed

lemma addField_not_Panic: "addField sname x s \<noteq> Panic"
  by (cases x) (simp add: addField_def)

lemma addFields_Ret:
  assumes "byTag s = index_map (map Tag fs)" "byName s = index_map (map Name fs)" "fields_ok fs"
  shows "go_for (addField sname) (enumerate (length fs) gs) s = Ret s' \<longleftrightarrow>
    fields_ok (fs @ gs) \<and>
    s' = s\<lparr>byTag := index_map (map Tag (fs @ gs)), byName := index_map (map Name (fs @ gs))\<rparr>"
  using assms
proof (induction gs arbitrary: fs s)
  case Nil
  then show ?case by (cases s) auto
next
  case (Cons f gs)
  let ?s = "s\<lparr>byTag := index_map (map Tag (fs @ [f])), byName := index_map (map Name (fs @ [f]))\<rparr>"
  show ?case
  proof (cases "field_ok f \<and> Tag f \<notin> Tag ` set fs \<and> Name f \<notin> Name ` set fs")
    case True
    then have step: "addField sname (length fs, f) s = Ret ?s"
      using addField_Ret [OF Cons.prems(1,2)] by blast
    have ok: "fields_ok (fs @ [f])" using True Cons.prems(3) by (auto simp: fields_ok_def)
    have run: "go_for (addField sname) (enumerate (length fs) (f # gs)) s =
        go_for (addField sname) (enumerate (length (fs @ [f])) gs) ?s"
      by (simp add: step)
    have "go_for (addField sname) (enumerate (length (fs @ [f])) gs) ?s = Ret s' \<longleftrightarrow>
        fields_ok ((fs @ [f]) @ gs) \<and>
        s' = ?s\<lparr>byTag := index_map (map Tag ((fs @ [f]) @ gs)),
                byName := index_map (map Name ((fs @ [f]) @ gs))\<rparr>"
      using ok by (intro Cons.IH) simp_all
    then show ?thesis unfolding run by simp
  next
    case False
    then have "\<not> fields_ok (fs @ f # gs)" by (auto simp: fields_ok_def)
    moreover have "addField sname (length fs, f) s \<noteq> Ret t" for t
      using False addField_Ret [OF Cons.prems(1,2)] by blast
    ultimately show ?thesis by (simp add: go_bind_eq_Ret)
  qed
qed

text \<open>A schema as \<open>NewSchema\<close> returns it.\<close>

definition schema_wf :: "Schema \<Rightarrow> bool" where
  "schema_wf s \<longleftrightarrow> ID s \<noteq> '''' \<and> Fields s \<noteq> [] \<and> fields_ok (Fields s)
     \<and> byTag s = index_map (map Tag (Fields s)) \<and> byName s = index_map (map Name (Fields s))
     \<and> sid s = computeSchemaID s"

lemma computeSchemaID_fields: "Fields s = Fields s' \<Longrightarrow> computeSchemaID s = computeSchemaID s'"
  by (simp add: computeSchemaID_def canonicalSchemaString_def)

lemma NewSchema_Ret:
  "NewSchema sname flds = Ret s \<longleftrightarrow> schema_wf s \<and> ID s = sname \<and> Fields s = flds"
proof -
  let ?s0 = "\<lparr>ID = sname, Fields = flds, byTag = Map.empty, byName = Map.empty, sid = 0\<rparr>"
  have "go_for (addField sname) (enumerate 0 flds) ?s0 = Ret t \<longleftrightarrow> fields_ok flds \<and>
      t = ?s0\<lparr>byTag := index_map (map Tag flds), byName := index_map (map Name flds)\<rparr>" for t
    using addFields_Ret [of ?s0 "[]" sname flds t]
    by (simp add: index_map_def fields_ok_def)
  then have loop: "go_bind (go_for (addField sname) (enumerate 0 flds) ?s0) (\<lambda>s. Ret (s\<lparr>sid := computeSchemaID s\<rparr>))
      = Ret s \<longleftrightarrow> fields_ok flds \<and>
      s = ?s0\<lparr>byTag := index_map (map Tag flds), byName := index_map (map Name flds),
              sid := computeSchemaID ?s0\<rparr>"
    by (auto simp: go_bind_eq_Ret computeSchemaID_def canonicalSchemaString_def)
  have "s = ?s0\<lparr>byTag := b, byName := n, sid := c\<rparr> \<longleftrightarrow>
      ID s = sname \<and> Fields s = flds \<and> byTag s = b \<and> byName s = n \<and> sid s = c" for b n c
    by (cases s) auto
  moreover have "Fields s = flds \<Longrightarrow> computeSchemaID ?s0 = computeSchemaID s"
    by (intro computeSchemaID_fields) simp
  ultimately show ?thesis
    unfolding NewSchema_def schema_wf_def by (auto simp: loop)
qed

text \<open>The schema \<open>NewSchema\<close> builds from acceptable fields.\<close>

definition built_schema :: "string \<Rightarrow> SchemaField list \<Rightarrow> Schema" where
  "built_schema sname flds =
     (let s = \<lparr>ID = sname, Fields = flds, byTag = index_map (map Tag flds),
               byName = index_map (map Name flds), sid = 0\<rparr>
      in s\<lparr>sid := computeSchemaID s\<rparr>)"

lemma built_schema_simps [simp]:
  "ID (built_schema sname flds) = sname" "Fields (built_schema sname flds) = flds"
  by (simp_all add: built_schema_def Let_def)

lemma NewSchema_built:
  assumes "sname \<noteq> ''''" "flds \<noteq> []" "fields_ok flds"
  shows "NewSchema sname flds = Ret (built_schema sname flds)"
  using assms unfolding NewSchema_Ret schema_wf_def
  by (simp add: built_schema_def Let_def computeSchemaID_def canonicalSchemaString_def)

lemma field_ok_iff:
  "field_ok f \<longleftrightarrow> Type f \<in> validTypes \<and> 1 \<le> unat (Tag f) \<and> unat (Tag f) \<le> 536870911 \<and>
     \<not> (19000 \<le> unat (Tag f) \<and> unat (Tag f) \<le> 19999)"
  by (auto simp: field_ok_def tag_ok_def word_le_nat_alt)

lemma NewSchema_not_Panic: "NewSchema sname flds \<noteq> Panic"
  by (simp add: NewSchema_def go_bind_eq_Panic go_for_not_Panic addField_not_Panic)

lemma byTag_iff: "schema_wf s \<Longrightarrow> byTag s t = Some i \<longleftrightarrow> i < length (Fields s) \<and> Tag (Fields s ! i) = t"
  by (auto simp: schema_wf_def fields_ok_def index_map_iff)

lemma byName_iff: "schema_wf s \<Longrightarrow> byName s n = Some i \<longleftrightarrow> i < length (Fields s) \<and> Name (Fields s ! i) = n"
  by (auto simp: schema_wf_def fields_ok_def index_map_iff)

end
