(* ===== verification/Schema_Props.thy ===== *)
theory Schema_Props
  imports Schema
begin

text \<open>
  The properties of \<open>bridges/mqtt-go/schema.go\<close>: what \<open>NewSchema\<close> accepts and builds, and what the
  \<open>SCHEMA_ID\<close> depends on, with the pinned id of \<open>TestSchemaIDParityWithPython\<close>.
\<close>

lemma decimal_1 [simp]: "n < 10 \<Longrightarrow> decimal n = [char_of (48 + n)]"
  by (subst decimal.simps) simp

lemma decimal_2: "10 \<le> n \<Longrightarrow> decimal n = decimal (n div 10) @ [char_of (48 + n mod 10)]"
  by (subst decimal.simps) simp

lemma canonical_perm:
  assumes "mset (Fields s) = mset (Fields s')"
  shows "canonicalSchemaString s = canonicalSchemaString s'"
proof -
  have "mset (map schema_line (Fields s)) = mset (map schema_line (Fields s'))"
    using assms by simp
  then have "sort (map schema_line (Fields s)) = sort (map schema_line (Fields s'))"
    by (intro properties_for_sort) simp_all
  then show ?thesis by (simp add: canonicalSchemaString_def)
qed

lemma fields_ok_perm: "mset fs = mset gs \<Longrightarrow> fields_ok fs \<longleftrightarrow> fields_ok gs"
  unfolding fields_ok_def
  by (metis mset_eq_setD mset_eq_imp_distinct_iff mset_map)

text \<open>
  C26. NewSchema never panics, and succeeds exactly on a non-empty name and a non-empty list of
  fields with distinct names, known types and distinct tags in 1..536870911 outside 19000..19999.
\<close>

theorem NewSchema_accepts_iff:
  "NewSchema sname flds \<noteq> Panic \<and>
   ((\<exists>s. NewSchema sname flds = Ret s) \<longleftrightarrow>
     sname \<noteq> '''' \<and> flds \<noteq> [] \<and> distinct (map Tag flds) \<and> distinct (map Name flds) \<and>
     (\<forall>f\<in>set flds. Type f \<in> validTypes \<and> 1 \<le> unat (Tag f) \<and> unat (Tag f) \<le> 536870911 \<and>
        \<not> (19000 \<le> unat (Tag f) \<and> unat (Tag f) \<le> 19999)))"
proof -
  have "(\<exists>s. NewSchema sname flds = Ret s) \<longleftrightarrow> sname \<noteq> '''' \<and> flds \<noteq> [] \<and> fields_ok flds"
  proof
    show "sname \<noteq> '''' \<and> flds \<noteq> [] \<and> fields_ok flds" if "\<exists>s. NewSchema sname flds = Ret s"
      using that by (auto simp: NewSchema_Ret schema_wf_def)
  qed (use NewSchema_built in blast)
  then show ?thesis unfolding fields_ok_def field_ok_iff using NewSchema_not_Panic by blast
qed

theorem NewSchema_accepts_iff_witness:
  "\<exists>s. NewSchema ''m'' [\<lparr>Name = ''a'', Type = ''bool'', Tag = 1, Repeated = False\<rparr>] = Ret s"
  using NewSchema_accepts_iff [of "''m''" "[\<lparr>Name = ''a'', Type = ''bool'', Tag = 1, Repeated = False\<rparr>]"]
  by (simp add: validTypes_def)

text \<open>
  C28. The tables of an accepted schema are exact: a tag or a name maps to an index precisely when
  the field at that index carries it, and the cached id is the id of the fields.
\<close>

theorem NewSchema_tables:
  assumes "NewSchema sname flds = Ret s"
  shows "Fields s = flds
    \<and> (byTag s t = Some i \<longleftrightarrow> i < length flds \<and> Tag (flds ! i) = t)
    \<and> (byName s n = Some j \<longleftrightarrow> j < length flds \<and> Name (flds ! j) = n)
    \<and> SchemaID s = computeSchemaID s"
proof -
  have wf: "schema_wf s" "Fields s = flds" using assms by (simp_all add: NewSchema_Ret)
  then show ?thesis
    using byTag_iff [OF wf(1)] byName_iff [OF wf(1)] by (simp add: SchemaID_def schema_wf_def)
qed

theorem NewSchema_tables_witness:
  "\<exists>s. NewSchema ''m'' [\<lparr>Name = ''a'', Type = ''bool'', Tag = 1, Repeated = False\<rparr>] = Ret s
     \<and> byTag s 1 = Some 0"
proof -
  let ?f = "[\<lparr>Name = ''a'', Type = ''bool'', Tag = 1, Repeated = False\<rparr>]"
  have s: "NewSchema ''m'' ?f = Ret (built_schema ''m'' ?f)"
    by (rule NewSchema_built) (simp_all add: fields_ok_def field_ok_iff validTypes_def)
  then show ?thesis using NewSchema_tables [OF s, of 1 0 undefined undefined] by auto
qed

text \<open>
  The schema id does not depend on the order in which the fields are declared: NewSchema accepts
  every rearrangement of an accepted field list and gives it the same id.
\<close>

theorem SchemaID_order_independent:
  assumes "NewSchema sname flds = Ret s" "mset flds' = mset flds"
  shows "\<exists>s'. NewSchema sname flds' = Ret s' \<and> SchemaID s' = SchemaID s"
proof -
  have s: "schema_wf s" "ID s = sname" "Fields s = flds" using assms(1) by (simp_all add: NewSchema_Ret)
  define s' where "s' = s\<lparr>Fields := flds', byTag := index_map (map Tag flds'),
    byName := index_map (map Name flds')\<rparr>"
  have "canonicalSchemaString s' = canonicalSchemaString s"
    using assms(2) s(3) by (intro canonical_perm) (simp add: s'_def)
  then have "computeSchemaID s' = computeSchemaID s" by (simp add: computeSchemaID_def)
  moreover have "fields_ok flds'"
    using fields_ok_perm [OF assms(2)] s by (simp add: schema_wf_def)
  moreover have "flds' \<noteq> []" using assms(2) s by (auto simp: schema_wf_def)
  ultimately have "schema_wf s'" using s by (simp add: schema_wf_def s'_def)
  then have "NewSchema sname flds' = Ret s'" using s by (simp add: NewSchema_Ret s'_def)
  moreover have "SchemaID s' = SchemaID s" by (simp add: SchemaID_def s'_def)
  ultimately show ?thesis by blast
qed

theorem SchemaID_order_independent_witness:
  "\<exists>s s'. NewSchema ''m'' [\<lparr>Name = ''a'', Type = ''bool'', Tag = 1, Repeated = False\<rparr>,
                        \<lparr>Name = ''b'', Type = ''bool'', Tag = 2, Repeated = False\<rparr>] = Ret s
    \<and> NewSchema ''m'' [\<lparr>Name = ''b'', Type = ''bool'', Tag = 2, Repeated = False\<rparr>,
                     \<lparr>Name = ''a'', Type = ''bool'', Tag = 1, Repeated = False\<rparr>] = Ret s'
    \<and> SchemaID s' = SchemaID s"
proof -
  let ?a = "\<lparr>Name = ''a'', Type = ''bool'', Tag = 1, Repeated = False\<rparr>"
  let ?b = "\<lparr>Name = ''b'', Type = ''bool'', Tag = 2, Repeated = False\<rparr>"
  have s: "NewSchema ''m'' [?a, ?b] = Ret (built_schema ''m'' [?a, ?b])"
    by (rule NewSchema_built) (simp_all add: fields_ok_def field_ok_iff validTypes_def)
  have "mset [?b, ?a] = mset [?a, ?b]" by simp
  from SchemaID_order_independent [OF s this] s show ?thesis by blast
qed

text \<open>
  The canonical string sorts rendered lines, not tags: a field with tag 10 comes before one with
  tag 2.
\<close>

theorem canonical_sorts_lines:
  "canonicalSchemaString (built_schema ''m''
     [\<lparr>Name = ''a'', Type = ''bool'', Tag = 2, Repeated = False\<rparr>,
      \<lparr>Name = ''b'', Type = ''bool'', Tag = 10, Repeated = False\<rparr>]) =
   ''10:bool:b'' @ [CHR 0x0A] @ ''2:bool:a''"
proof -
  have lines: "map schema_line
     [\<lparr>Name = ''a'', Type = ''bool'', Tag = 2, Repeated = False\<rparr>,
      \<lparr>Name = ''b'', Type = ''bool'', Tag = 10, Repeated = False\<rparr>] = [''2:bool:a'', ''10:bool:b'']"
    by (simp add: schema_line_def decimal_2 char_of_def bit_0)
  show ?thesis unfolding canonicalSchemaString_def built_schema_simps lines
    by (simp add: less_char_def)
qed

lemma SchemaID_lines:
  assumes "mset (map schema_line fs) = mset ls" "sorted ls"
  shows "SchemaID (built_schema n fs) = ucast (crc32_ieee (string_bytes (join [CHR 0x0A] ls)) AND 0xFFFF)"
proof -
  have "canonicalSchemaString (built_schema n fs) = join [CHR 0x0A] ls"
    unfolding canonicalSchemaString_def built_schema_simps
    by (simp only: properties_for_sort [OF assms(1) [symmetric] assms(2)])
  moreover have "SchemaID (built_schema n fs) = computeSchemaID (built_schema n fs)"
    by (simp add: SchemaID_def built_schema_def Let_def computeSchemaID_def canonicalSchemaString_def)
  ultimately show ?thesis by (simp only: computeSchemaID_def)
qed

text \<open>
  The pinned id: the four-field schema of the test has the id 0x2ce0 that the Python emitter
  computes, so bridge and firmware agree on it.
\<close>

theorem pinned_schema_id:
  "SchemaID (built_schema ''reading''
     [\<lparr>Name = ''room'', Type = ''string'', Tag = 1, Repeated = False\<rparr>,
      \<lparr>Name = ''temperature'', Type = ''float'', Tag = 2, Repeated = False\<rparr>,
      \<lparr>Name = ''blob'', Type = ''bytes'', Tag = 3, Repeated = False\<rparr>,
      \<lparr>Name = ''tags'', Type = ''string'', Tag = 4, Repeated = True\<rparr>]) = 0x2ce0"
  (is "SchemaID (built_schema _ ?fs) = _")
proof -
  let ?lines = "[''1:string:room'', ''2:float:temperature'', ''3:bytes:blob'', ''4:repeated string:tags'']"
  have lines: "map schema_line ?fs = ?lines"
    by (simp add: schema_line_def char_of_def bit_0)
  have "sorted ?lines" by (simp add: less_char_def)
  from SchemaID_lines [OF arg_cong [OF lines, of mset] this] show ?thesis by (simp add: crc32_eval)
qed

end
