(* ===== verification/Varint.thy ===== *)
theory Varint
  imports Go_Prelude
begin

text \<open>
  The scalar part of \<open>bridges/mqtt-go/proto.go\<close>: base-128 varints, field tags and the zigzag maps.
  \<open>base128\<close> is the abstract view of a varint, a list of 7-bit digits, least significant first; the
  lemmas relate \<open>appendVarint\<close> and \<open>readVarint\<close> to it.  The locale \<open>prefix_codec\<close> is the interface
  of every self-delimiting encoding of the protobuf layer.
\<close>

section \<open>Code\<close>

lemma unat_drop_7: "unat (drop_bit 7 v) = unat v div 128" for v :: u64
  by (simp add: drop_bit_eq_div unat_div)

lemma le_80_iff: "0x80 \<le> v \<longleftrightarrow> 128 \<le> unat v" for v :: u64
  by (simp add: word_le_nat_alt)

function appendVarint :: "bytes \<Rightarrow> u64 \<Rightarrow> bytes" where
  "appendVarint buf v =
     (if 0x80 \<le> v then appendVarint (buf @ [ucast v OR 0x80]) (drop_bit 7 v)
      else buf @ [ucast v])"
  by pat_completeness auto

termination
  by (relation "measure (\<lambda>(buf, v). unat v)") (auto simp: unat_drop_7 le_80_iff)

declare appendVarint.simps [simp del]

definition appendTag :: "bytes \<Rightarrow> u32 \<Rightarrow> int \<Rightarrow> bytes" where
  "appendTag buf field wt = appendVarint buf (push_bit 3 (ucast field) OR of_int wt)"

definition zigzag32 :: "u32 \<Rightarrow> u32" where
  "zigzag32 v = push_bit 1 v XOR signed_drop_bit 31 v"

definition zigzag64 :: "u64 \<Rightarrow> u64" where
  "zigzag64 v = push_bit 1 v XOR signed_drop_bit 63 v"

definition unzigzag32 :: "u32 \<Rightarrow> u32" where
  "unzigzag32 v = drop_bit 1 v XOR (- (v AND 1))"

definition unzigzag64 :: "u64 \<Rightarrow> u64" where
  "unzigzag64 v = drop_bit 1 v XOR (- (v AND 1))"

text \<open>The loop \<open>for i, b := range data\<close>; \<open>None\<close> is the result \<open>0, 0, false\<close>.\<close>

fun readVarint_loop :: "nat \<Rightarrow> nat \<Rightarrow> u64 \<Rightarrow> bytes \<Rightarrow> (u64 \<times> nat) option" where
  "readVarint_loop i shift val [] = None"
| "readVarint_loop i shift val (b # data) =
     (if 10 \<le> i then None
      else let val = val OR push_bit shift (ucast (b AND 0x7F)) in
        if b < 0x80 then Some (val, i + 1)
        else readVarint_loop (i + 1) (shift + 7) val data)"

definition readVarint :: "bytes \<Rightarrow> (u64 \<times> nat) option" where
  "readVarint data = readVarint_loop 0 0 0 data"


section \<open>Base-128 digits\<close>

fun base128 :: "nat \<Rightarrow> nat list" where
  "base128 n = (if n < 128 then [n] else (n mod 128) # base128 (n div 128))"

declare base128.simps [simp del]

fun digits_value :: "nat list \<Rightarrow> nat" where
  "digits_value [] = 0"
| "digits_value (d # ds) = d + 128 * digits_value ds"

text \<open>All bytes but the last carry the continuation bit.\<close>

fun with_cont :: "nat list \<Rightarrow> bytes" where
  "with_cont [] = []"
| "with_cont [d] = [of_nat d]"
| "with_cont (d # ds) = (of_nat d OR 0x80) # with_cont ds"

lemma base128_neq_Nil [simp]: "base128 n \<noteq> []"
  by (subst base128.simps) simp

lemma digits_value_base128 [simp]: "digits_value (base128 n) = n"
proof (induction n rule: base128.induct)
  case (1 n)
  then show ?case by (subst base128.simps) auto
qed

lemma base128_digits: "d \<in> set (base128 n) \<Longrightarrow> d < 128"
proof (induction n rule: base128.induct)
  case (1 n)
  then show ?case by (subst (asm) (2) base128.simps) (auto split: if_splits)
qed

lemma length_base128_le: "0 < k \<Longrightarrow> length (base128 n) \<le> k \<longleftrightarrow> n < 128 ^ k"
proof (induction n arbitrary: k rule: base128.induct)
  case (1 n)
  show ?case
  proof (cases "n < 128")
    case True
    moreover have "128 ^ 1 \<le> (128::nat) ^ k"
      using "1.prems" by (intro power_increasing) auto
    ultimately show ?thesis using "1.prems" by (subst base128.simps) auto
  next
    case False
    obtain j where k: "k = Suc j" using "1.prems" by (cases k) auto
    show ?thesis
    proof (cases "j = 0")
      case True
      with False k show ?thesis by (subst base128.simps) simp
    next
      case j: False
      have "length (base128 (n div 128)) \<le> j \<longleftrightarrow> n div 128 < 128 ^ j"
        using "1.IH" [OF False] j by simp
      then show ?thesis using False k
        by (subst base128.simps) (simp add: div_less_iff_less_mult mult.commute)
    qed
  qed
qed

lemma with_cont_Cons: "ds \<noteq> [] \<Longrightarrow> with_cont (d # ds) = (of_nat d OR 0x80) # with_cont ds"
  by (cases ds) simp_all

lemma length_with_cont [simp]: "length (with_cont ds) = length ds"
  by (induction ds rule: with_cont.induct) simp_all


section \<open>appendVarint emits the base-128 digits\<close>

lemma bit_80: "bit (0x80 :: u8) n \<longleftrightarrow> n = 7"
proof -
  have 80: "(0x80 :: u8) = push_bit 7 1" by simp
  show ?thesis unfolding 80 bit_push_bit_iff bit_1_iff by auto
qed

lemma ucast_or_80: "(ucast v :: u8) OR 0x80 = of_nat (unat v mod 128) OR 0x80" for v :: u64
proof (rule bit_word_eqI)
  fix n assume n: "n < LENGTH(8)"
  have "unat v mod 128 = take_bit 7 (unat v)" by (simp add: take_bit_eq_mod)
  then have "bit (of_nat (unat v mod 128) :: u8) n \<longleftrightarrow> n < 7 \<and> bit v n"
    using n by (auto simp: bit_of_nat_iff bit_take_bit_iff bit_unsigned_iff)
  then show "bit ((ucast v :: u8) OR 0x80) n \<longleftrightarrow> bit (of_nat (unat v mod 128) OR 0x80 :: u8) n"
    unfolding bit_or_iff bit_80 using n by (auto simp: bit_simps)
qed

lemma appendVarint_digits: "appendVarint buf v = buf @ with_cont (base128 (unat v))"
proof (induction buf v rule: appendVarint.induct)
  case (1 buf v)
  show ?case
  proof (cases "0x80 \<le> v")
    case True
    then have "128 \<le> unat v" by (simp add: le_80_iff)
    then have "base128 (unat v) = (unat v mod 128) # base128 (unat v div 128)"
      by (subst base128.simps) simp
    then show ?thesis using True 1 [OF True]
      by (subst appendVarint.simps) (simp add: with_cont_Cons ucast_or_80 unat_drop_7)
  next
    case False
    then have "unat v < 128" by (simp add: le_80_iff)
    then have "base128 (unat v) = [unat v]" by (subst base128.simps) simp
    then show ?thesis using False by (subst appendVarint.simps) (simp add: unsigned_ucast_eq)
  qed
qed

definition varint :: "u64 \<Rightarrow> bytes" where
  "varint v = with_cont (base128 (unat v))"

lemma appendVarint_eq [simp]: "appendVarint buf v = buf @ varint v"
  by (simp add: appendVarint_digits varint_def)

lemma length_varint_le: "0 < k \<Longrightarrow> length (varint v) \<le> k \<longleftrightarrow> unat v < 128 ^ k"
  by (simp add: varint_def length_base128_le)

lemma length_varint: "0 < length (varint v)" "length (varint v) \<le> 10"
proof -
  show "0 < length (varint v)" by (simp add: varint_def)
  have "unat v < 2 ^ 64" using unsigned_less [of v] by simp
  then show "length (varint v) \<le> 10" by (simp add: length_varint_le)
qed

section \<open>What readVarint accepts and returns\<close>

text \<open>The length of the varint at the front: up to the first byte without continuation bit.\<close>

fun varint_len :: "bytes \<Rightarrow> nat option" where
  "varint_len [] = None"
| "varint_len (b # bs) = (if b < 0x80 then Some 1 else map_option Suc (varint_len bs))"

definition varint_value :: "bytes \<Rightarrow> nat" where
  "varint_value bs = digits_value (map (\<lambda>b. unat b mod 128) bs)"

lemma varint_value_simps [simp]:
  "varint_value [] = 0" "varint_value (b # bs) = unat b mod 128 + 128 * varint_value bs"
  by (simp_all add: varint_value_def)

lemma varint_len_bounds: "varint_len bs = Some k \<Longrightarrow> 0 < k \<and> k \<le> length bs"
  by (induction bs arbitrary: k) (auto split: if_splits)

lemma varint_len_append: "varint_len bs = Some k \<Longrightarrow> varint_len (bs @ rest) = Some k"
  by (induction bs arbitrary: k) (auto split: if_splits)

lemma varint_len_take: "varint_len bs = Some k \<Longrightarrow> varint_len (take k bs) = Some k"
  by (induction bs arbitrary: k) (auto split: if_splits)

lemma varint_value_less: "varint_value bs < 128 ^ length bs"
proof (induction bs)
  case (Cons b bs)
  have "unat b mod 128 \<le> 127" by simp
  with Cons show ?case unfolding varint_value_simps length_Cons power_Suc by linarith
qed simp

lemma low_7: "(ucast (b AND 0x7F) :: u64) = of_nat (unat b mod 128)" for b :: u8
proof -
  have 7: "(0x7F :: u8) = mask 7" by (simp add: mask_eq_exp_minus_1)
  have "unat (b AND 0x7F) = unat b mod 128"
    by (simp add: 7 take_bit_eq_mod unat_mod flip: take_bit_eq_mask)
  then show ?thesis using of_nat_unat [of "b AND 0x7F", where ?'a = u64] by simp
qed

lemma add_digit:
  fixes val :: u64 and b :: u8
  assumes "\<forall>n\<ge>7 * i. \<not> bit val n"
  shows "val OR push_bit (7 * i) (ucast (b AND 0x7F)) = val + of_nat (128 ^ i * (unat b mod 128))"
    and "\<forall>n\<ge>7 * Suc i. \<not> bit (val OR push_bit (7 * i) (ucast (b AND 0x7F))) n"
proof -
  let ?d = "push_bit (7 * i) (ucast (b AND 0x7F)) :: u64"
  have 7: "(0x7F :: u8) = mask 7" by (simp add: mask_eq_exp_minus_1)
  have "val AND ?d = 0"
    using assms by (intro bit_word_eqI) (auto simp: bit_simps not_le)
  then have or: "val OR ?d = val + ?d" by (rule disjunctive_add_eq_or [symmetric])
  have d: "?d = of_nat (128 ^ i * (unat b mod 128))"
  proof -
    have "(2::u64) ^ (7 * i) = 128 ^ i" by (simp add: power_mult)
    then show ?thesis unfolding low_7 push_bit_eq_mult by (simp add: mult.commute)
  qed
  show "val OR ?d = val + of_nat (128 ^ i * (unat b mod 128))" unfolding or by (simp only: d)
  show "\<forall>n\<ge>7 * Suc i. \<not> bit (val OR ?d) n"
    using assms unfolding 7 by (auto simp: bit_simps)
qed

lemma readVarint_loop_eq:
  "\<forall>n\<ge>7 * i. \<not> bit val n \<Longrightarrow> i \<le> 10 \<Longrightarrow>
   readVarint_loop i (7 * i) val data =
     (case varint_len data of None \<Rightarrow> None
      | Some k \<Rightarrow> if i + k \<le> 10
                 then Some (val + of_nat (128 ^ i * varint_value (take k data)), i + k) else None)"
proof (induction data arbitrary: i val)
  case (Cons b data)
  note add = add_digit [OF Cons.prems(1), of b]
  let ?val = "val + of_nat (128 ^ i * (unat b mod 128)) :: u64"
  show ?case
  proof (cases "i = 10 \<or> b < 0x80")
    case True
    then show ?thesis
      using Cons.prems(2) varint_len_bounds [of data] add(1) by (auto simp: Let_def split: option.split)
  next
    case False
    then have i: "Suc i \<le> 10" "\<not> 10 \<le> i" using Cons.prems(2) by simp_all
    have bits: "\<forall>n\<ge>7 * Suc i. \<not> bit ?val n" using add by simp
    have "readVarint_loop i (7 * i) val (b # data) = readVarint_loop (Suc i) (7 * Suc i) ?val data"
      using False i by (simp only: readVarint_loop.simps add(1)) (simp add: Let_def add.commute)
    then show ?thesis
      unfolding Cons.IH [OF bits i(1)] using False
      by (auto simp: algebra_simps split: option.split)
  qed
qed simp

theorem readVarint_eq:
  "readVarint data =
     (case varint_len data of None \<Rightarrow> None
      | Some n \<Rightarrow> if n \<le> 10 then Some (of_nat (varint_value (take n data)), n) else None)"
  using readVarint_loop_eq [of 0 0 data] by (simp add: readVarint_def split: option.split)

section \<open>Round trip\<close>

lemma unat_cont_byte: "d < 128 \<Longrightarrow> unat (of_nat d OR 0x80 :: u8) = d + 128"
proof -
  assume d: "d < 128"
  have "\<not> bit d 7" using d by (simp add: bit_nat_def)
  then have "(of_nat d :: u8) AND 0x80 = 0"
    by (intro bit_word_eqI, unfold bit_and_iff bit_80) (auto simp: bit_of_nat_iff)
  then have "of_nat d OR 0x80 = (of_nat d + 0x80 :: u8)"
    by (rule disjunctive_add_eq_or [symmetric])
  also have "\<dots> = of_nat (d + 128)" by simp
  finally show ?thesis using d by (simp only: unsigned_of_nat) (simp add: take_bit_eq_mod)
qed

lemma unat_last_byte: "d < 128 \<Longrightarrow> unat (of_nat d :: u8) = d"
  by (simp add: unsigned_of_nat take_bit_eq_mod)

lemma varint_len_with_cont:
  "ds \<noteq> [] \<Longrightarrow> \<forall>d\<in>set ds. d < 128 \<Longrightarrow> varint_len (with_cont ds @ rest) = Some (length ds)"
proof (induction ds rule: with_cont.induct)
  case (2 d)
  then show ?case by (simp add: word_less_nat_alt unat_last_byte)
next
  case (3 d d' ds)
  then show ?case by (simp add: word_less_nat_alt unat_cont_byte)
qed simp

lemma varint_value_with_cont:
  "\<forall>d\<in>set ds. d < 128 \<Longrightarrow> varint_value (with_cont ds) = digits_value ds"
  by (induction ds rule: with_cont.induct) (simp_all add: unat_cont_byte unat_last_byte)

lemma varint_len_varint [simp]: "varint_len (varint v @ rest) = Some (length (varint v))"
  using varint_len_with_cont [of "base128 (unat v)" rest] base128_digits by (auto simp: varint_def)

lemma varint_value_varint [simp]: "varint_value (varint v) = unat v"
  using varint_value_with_cont [of "base128 (unat v)"] base128_digits by (auto simp: varint_def)

lemma readVarint_varint [simp]: "readVarint (varint v @ rest) = Some (v, length (varint v))"
  using length_varint by (simp add: readVarint_eq)

lemma readVarint_bounds:
  "readVarint data = Some (v, n) \<Longrightarrow> 0 < n \<and> n \<le> 10 \<and> n \<le> length data"
  using varint_len_bounds [of data] by (auto simp: readVarint_eq split: option.splits if_splits)

lemma readVarint_take:
  assumes "readVarint data = Some (v, n)"
  shows "readVarint (take n data @ rest) = Some (v, n)"
proof -
  have n: "varint_len data = Some n" "n \<le> 10" "v = of_nat (varint_value (take n data))"
    using assms by (auto simp: readVarint_eq split: option.splits if_splits)
  then have "varint_len (take n data @ rest) = Some n"
    by (intro varint_len_append varint_len_take)
  with n varint_len_bounds [OF n(1)] show ?thesis by (simp add: readVarint_eq)
qed

lemma varint_shortest:
  assumes "readVarint data = Some (v, n)"
  shows "length (varint v) \<le> n"
proof -
  have n: "varint_len data = Some n" "v = of_nat (varint_value (take n data))"
    using assms by (auto simp: readVarint_eq split: option.splits if_splits)
  have "unat v \<le> varint_value (take n data)"
    unfolding n(2) by (simp add: unsigned_of_nat take_bit_eq_mod)
  also have "\<dots> < 128 ^ n"
    using varint_value_less [of "take n data"] varint_len_bounds [OF n(1)] by simp
  finally show ?thesis using varint_len_bounds [OF n(1)] by (simp add: length_varint_le)
qed


section \<open>Zigzag\<close>

lemma bit_zigzag:
  "bit (zigzag32 v) n \<longleftrightarrow> n < 32 \<and> (0 < n \<and> bit v (n - 1)) \<noteq> bit v 31"
  "bit (zigzag64 w) n \<longleftrightarrow> n < 64 \<and> (0 < n \<and> bit w (n - 1)) \<noteq> bit w 63"
  unfolding zigzag32_def zigzag64_def bit_xor_iff bit_push_bit_iff bit_signed_drop_bit_iff
  by (cases n; auto simp: min_def dest: bit_imp_le_length)+

lemma minus_lsb: "- (v AND 1) = (if bit v 0 then -1 else 0)" for v :: "'a::len word"
  by (simp add: and_one_eq bit_0 odd_iff_mod_2_eq_one)

lemma bit_unzigzag:
  "bit (unzigzag32 v) n \<longleftrightarrow> n < 32 \<and> bit v (Suc n) \<noteq> bit v 0"
  "bit (unzigzag64 w) n \<longleftrightarrow> n < 64 \<and> bit w (Suc n) \<noteq> bit w 0"
  unfolding unzigzag32_def unzigzag64_def minus_lsb bit_xor_iff bit_drop_bit_eq
  by (auto dest: bit_imp_le_length)

lemma bit_top [simp]: "\<not> bit (v :: u32) 32" "\<not> bit (w :: u64) 64"
  by (auto dest: bit_imp_le_length)

lemma last_or_less: "n < 32 \<Longrightarrow> n = 31 \<or> Suc n < 32" "m < 64 \<Longrightarrow> m = 63 \<or> Suc m < 64"
  by auto

lemma unzigzag_zigzag [simp]: "unzigzag32 (zigzag32 v) = v" "unzigzag64 (zigzag64 w) = w"
  by (rule bit_word_eqI; use last_or_less in \<open>auto simp: bit_zigzag bit_unzigzag\<close>)+

lemma zigzag_unzigzag [simp]: "zigzag32 (unzigzag32 v) = v" "zigzag64 (unzigzag64 w) = w"
  by (rule bit_word_eqI, rename_tac n, case_tac n; simp add: bit_zigzag bit_unzigzag; blast)+

lemma signed_drop_bit_top:
  "signed_drop_bit 31 v = (if bit v 31 then -1 else 0)" for v :: u32
  by (rule bit_word_eqI, rename_tac n, case_tac n) (auto simp: bit_signed_drop_bit_iff min_def)

lemma signed_drop_bit_top64:
  "signed_drop_bit 63 v = (if bit v 63 then -1 else 0)" for v :: u64
  by (rule bit_word_eqI, rename_tac n, case_tac n) (auto simp: bit_signed_drop_bit_iff min_def)

lemma sint_neg: "bit v 31 \<longleftrightarrow> sint v < 0" "bit w 63 \<longleftrightarrow> sint w < 0" for v :: u32 and w :: u64
  using bit_last_iff [of v] bit_last_iff [of w] by simp_all

lemma zigzag32_int: "zigzag32 v = of_int (if sint v < 0 then - 2 * sint v - 1 else 2 * sint v)"
  by (simp add: zigzag32_def signed_drop_bit_top not_eq_complement sint_neg)

lemma zigzag64_int: "zigzag64 v = of_int (if sint v < 0 then - 2 * sint v - 1 else 2 * sint v)"
  by (simp add: zigzag64_def signed_drop_bit_top64 not_eq_complement sint_neg)


section \<open>Tags\<close>

lemma tag_key_disjoint:
  assumes "0 \<le> wt" "wt < 8"
  shows "(push_bit 3 (ucast (field :: u32)) OR of_int wt :: u64) = of_nat (8 * unat field + nat wt)"
proof -
  have "of_int wt = (of_nat (nat wt) :: u64)" using assms by simp
  moreover have "\<not> bit (nat wt) n" if "3 \<le> n" for n
  proof -
    have "(8::nat) \<le> 2 ^ n" using that power_increasing [of 3 n "2::nat"] by simp
    moreover have "nat wt < 8" using assms by simp
    ultimately have "nat wt < 2 ^ n" by (rule less_le_trans [rotated])
    then show ?thesis by (simp add: bit_nat_def)
  qed
  ultimately have "push_bit 3 (ucast field) AND of_int wt = (0 :: u64)"
    by (intro bit_word_eqI) (auto simp: bit_and_iff bit_push_bit_iff bit_of_nat_iff)
  then have "push_bit 3 (ucast field) OR of_int wt = (push_bit 3 (ucast field) + of_int wt :: u64)"
    by (rule disjunctive_add_eq_or [symmetric])
  also have "\<dots> = of_nat (8 * unat field + nat wt)"
    using assms by (simp add: push_bit_eq_mult)
  finally show ?thesis .
qed

definition tag_key :: "u32 \<Rightarrow> int \<Rightarrow> u64" where
  "tag_key field wt = of_nat (8 * unat field + nat wt)"

lemma appendTag_eq: "0 \<le> wt \<Longrightarrow> wt < 8 \<Longrightarrow> appendTag buf field wt = buf @ varint (tag_key field wt)"
  by (simp add: appendTag_def tag_key_disjoint tag_key_def)

lemma unat_tag_key: "0 \<le> wt \<Longrightarrow> wt < 8 \<Longrightarrow> unat (tag_key field wt) = 8 * unat field + nat wt"
proof -
  assume "0 \<le> wt" "wt < 8"
  moreover have "unat field < 2 ^ 32" using unsigned_less [of field] by simp
  ultimately have "8 * unat field + nat wt < 2 ^ 64" by simp
  then show ?thesis unfolding tag_key_def by (simp only: unsigned_of_nat) (simp add: take_bit_nat_eq_self)
qed

lemma tag_key_field: "0 \<le> wt \<Longrightarrow> wt < 8 \<Longrightarrow> ucast (drop_bit 3 (tag_key field wt)) = field"
proof (rule word_unat_eq_iff [THEN iffD2])
  assume wt: "0 \<le> wt" "wt < 8"
  have "unat (drop_bit 3 (tag_key field wt)) = unat field"
    using unat_tag_key [OF wt] wt by (simp add: drop_bit_eq_div unat_div)
  moreover have "unat field < 2 ^ 32" using unsigned_less [of field] by simp
  ultimately show "unat (ucast (drop_bit 3 (tag_key field wt)) :: u32) = unat field"
    by (simp only: unsigned_ucast_eq) (simp add: take_bit_eq_mod)
qed

lemma tag_key_wt: "0 \<le> wt \<Longrightarrow> wt < 8 \<Longrightarrow> uint (tag_key field wt AND 7) = wt"
proof -
  assume wt: "0 \<le> wt" "wt < 8"
  have 7: "(7 :: u64) = mask 3" by (simp add: mask_eq_exp_minus_1)
  have "unat (tag_key field wt AND 7) = nat wt"
    unfolding 7 using unat_tag_key [OF wt] wt
    by (simp add: take_bit_eq_mod unat_mod flip: take_bit_eq_mask)
  with wt show ?thesis using uint_eq_int_iff [of "tag_key field wt AND 7" "nat wt"] by simp
qed

section \<open>Self-delimiting encodings\<close>

text \<open>
  A decoder that reports how much it consumed.  \<open>ok\<close> says which values the encoder accepts and
  \<open>view\<close> what the receiver sees of them.  The laws: decoding what was encoded gives the view of the
  value whatever follows, a successful decode consumes at least one byte and at most all of them,
  and looks at no byte after those.
\<close>

locale prefix_codec =
  fixes put :: "'a \<Rightarrow> bytes"
    and get :: "bytes \<Rightarrow> ('b \<times> nat) option"
    and view :: "'a \<Rightarrow> 'b"
    and ok :: "'a \<Rightarrow> bool"
  assumes get_put: "ok x \<Longrightarrow> get (put x @ rest) = Some (view x, length (put x))"
    and get_consumes: "get bs = Some (y, n) \<Longrightarrow> 0 < n \<and> n \<le> length bs"
    and get_prefix: "get bs = Some (y, n) \<Longrightarrow> get (take n bs @ rest) = Some (y, n)"
begin

lemma put_nonempty: "ok x \<Longrightarrow> put x \<noteq> []"
  using get_put [of x "[]"] get_consumes [of "put x"] by fastforce

lemma prefix_free:
  assumes "ok x" "ok y" "put x @ r = put y @ s"
  shows "view x = view y" "put x = put y" "r = s"
  using get_put [OF assms(1), of r] get_put [OF assms(2), of s] assms(3) by auto

lemma get_append: "get bs = Some (y, n) \<Longrightarrow> get (bs @ rest) = Some (y, n)"
  using get_prefix [of bs y n "drop n bs @ rest"] by (simp flip: append_assoc)

text \<open>Decoding a whole buffer, one item after the other.\<close>

function get_all :: "bytes \<Rightarrow> 'b list option" where
  "get_all bs =
     (if bs = [] then Some []
      else case get bs of None \<Rightarrow> None | Some (y, n) \<Rightarrow> map_option ((#) y) (get_all (drop n bs)))"
  by pat_completeness auto

termination
  by (relation "measure length") (auto dest: get_consumes)

declare get_all.simps [simp del]

lemma get_all_Nil [simp]: "get_all [] = Some []"
  by (subst get_all.simps) simp

lemma get_all_step:
  "get bs = Some (y, n) \<Longrightarrow> get_all bs = map_option ((#) y) (get_all (drop n bs))"
  using get_consumes [of bs y n] by (subst get_all.simps) auto

lemma get_all_stuck: "bs \<noteq> [] \<Longrightarrow> get bs = None \<Longrightarrow> get_all bs = None"
  by (subst get_all.simps) simp

lemma get_all_put: "ok x \<Longrightarrow> get_all (put x @ rest) = map_option ((#) (view x)) (get_all rest)"
  using get_all_step [OF get_put] by simp

lemma get_all_concat: "\<forall>x\<in>set xs. ok x \<Longrightarrow> get_all (concat (map put xs)) = Some (map view xs)"
  by (induction xs) (simp_all add: get_all_put)

lemma get_all_append:
  "get_all bs = Some ys \<Longrightarrow> get_all (bs @ cs) = map_option ((@) ys) (get_all cs)"
proof (induction bs arbitrary: ys rule: get_all.induct)
  case (1 bs)
  show ?case
  proof (cases "bs = []")
    case True
    with 1(2) show ?thesis by (cases "get_all cs") simp_all
  next
    case False
    with 1(2) obtain y n where g: "get bs = Some (y, n)" using get_all_stuck by fastforce
    with 1(2) obtain zs where zs: "get_all (drop n bs) = Some zs" "ys = y # zs"
      by (auto simp: get_all_step)
    have "get_all (drop n bs @ cs) = map_option ((@) zs) (get_all cs)"
      using 1(1) [OF False g refl zs(1)] .
    moreover have "drop n (bs @ cs) = drop n bs @ cs" using get_consumes [OF g] by simp
    ultimately show ?thesis
      using get_all_step [OF get_append [OF g, of cs]] zs(2) by (cases "get_all cs") simp_all
  qed
qed

lemma get_all_forall:
  assumes "\<And>bs y n. get bs = Some (y, n) \<Longrightarrow> P y"
  shows "get_all bs = Some ys \<Longrightarrow> \<forall>y\<in>set ys. P y"
proof (induction bs arbitrary: ys rule: get_all.induct)
  case (1 bs)
  show ?case
  proof (cases "bs = []")
    case True
    with 1(2) show ?thesis by simp
  next
    case False
    with 1(2) obtain y n where g: "get bs = Some (y, n)" using get_all_stuck by fastforce
    with 1(2) obtain zs where "get_all (drop n bs) = Some zs" "ys = y # zs"
      by (auto simp: get_all_step)
    then show ?thesis using 1(1) [OF False g refl] assms [OF g] by simp
  qed
qed

end

text \<open>A codec that loses nothing decodes a concatenation in only one way.\<close>

locale lossless_codec = prefix_codec put get "\<lambda>x. x" ok
  for put :: "'a \<Rightarrow> bytes" and get ok
begin

lemma concat_inject:
  assumes "\<forall>x\<in>set xs. ok x" "\<forall>y\<in>set ys. ok y" "concat (map put xs) = concat (map put ys)"
  shows "xs = ys"
proof -
  have "get_all (concat (map put xs)) = Some xs" "get_all (concat (map put ys)) = Some ys"
    using get_all_concat assms(1,2) by simp_all
  with assms(3) show ?thesis by (metis option.inject)
qed

end

interpretation varint: lossless_codec varint readVarint "\<lambda>v. True"
  by unfold_locales (auto dest: readVarint_bounds intro: readVarint_take)


section \<open>Properties\<close>

text \<open>
  Reading a varint gives back the 64-bit value that appendVarint appended, and consumes exactly
  the appended bytes, whatever follows them; at least one and at most ten bytes are appended.
\<close>

theorem readVarint_appendVarint:
  "\<exists>enc. appendVarint buf v = buf @ enc \<and> readVarint (enc @ rest) = Some (v, length enc)
     \<and> 0 < length enc \<and> length enc \<le> 10"
  using length_varint [of v] by simp

text \<open>
  C30. readVarint accepts exactly the buffers in which one of the first ten bytes has no
  continuation bit; it then returns the little-endian base-128 number up to that byte modulo 2^64.
  So overlong encodings and encodings of numbers beyond 64 bits are accepted.
\<close>

theorem readVarint_accepts:
  "readVarint data =
     (case varint_len data of
        None \<Rightarrow> None
      | Some n \<Rightarrow> if n \<le> 10 then Some (of_nat (varint_value (take n data)), n) else None)"
  by (rule readVarint_eq)

text \<open>
  The encoder is canonical: no accepted encoding of a value is shorter than the one
  appendVarint produces.
\<close>

theorem appendVarint_shortest:
  assumes "readVarint data = Some (v, n)"
  shows "length (appendVarint [] v) \<le> n"
  using varint_shortest [OF assms] by simp

theorem appendVarint_shortest_witness:
  "readVarint [0x81, 0x80, 0x00] = Some (1, 3) \<and> length (appendVarint [] 1) \<le> 3"
proof -
  have r: "readVarint [0x81, 0x80, 0x00] = Some (1, 3)"
    by (simp add: readVarint_def Let_def)
  show ?thesis using r appendVarint_shortest [OF r] by (rule conjI)
qed

text \<open>
  The zigzag maps are inverse bijections between signed and unsigned integers of 32 and of 64
  bits, and send n to 2n and -n-1 to 2n+1.
\<close>

theorem zigzag_bijection:
  "unzigzag32 (zigzag32 v) = v \<and> zigzag32 (unzigzag32 u) = u
   \<and> unzigzag64 (zigzag64 w) = w \<and> zigzag64 (unzigzag64 x) = x
   \<and> zigzag32 v = of_int (if sint v < 0 then - 2 * sint v - 1 else 2 * sint v)
   \<and> zigzag64 w = of_int (if sint w < 0 then - 2 * sint w - 1 else 2 * sint w)"
  by (intro conjI unzigzag_zigzag zigzag_unzigzag zigzag32_int zigzag64_int)

text \<open>
  Varints written one after the other can be read back in only one way: two sequences of values
  with the same concatenated encoding are equal.
\<close>

theorem varint_stream_unique:
  assumes "fold (\<lambda>v buf. appendVarint buf v) vs [] = fold (\<lambda>v buf. appendVarint buf v) ws []"
  shows "vs = ws"
proof -
  have "fold (\<lambda>v buf. appendVarint buf v) vs buf = buf @ concat (map varint vs)" for vs buf
    by (induction vs arbitrary: buf) simp_all
  then show ?thesis using varint.concat_inject [of vs ws] assms by simp
qed

theorem varint_stream_unique_witness: "[1, 0x80] = [0x01, 0x80 :: u64]"
  by (rule varint_stream_unique) simp

end
