(* ===== verification/Go_Float.thy ===== *)
theory Go_Float
  imports Go_Prelude
begin

text \<open>
  IEEE 754 floating point as Go uses it, on bit patterns: a \<open>float64\<close> is a 64-bit word and a
  \<open>float32\<close> a 32-bit word.  Finite numbers are read as integer pairs \<open>(m, e)\<close> standing for
  \<open>m * 2^e\<close>; conversions round to nearest, ties to even, in exact integer arithmetic.

  The language leaves the conversion of a float to an integer type that cannot represent it to the
  implementation: those two results are the fields of \<open>go_arch\<close>.  The conversions of a NaN keep the
  top payload bits and set the quiet bit, as the hardware instructions do.
\<close>

section \<open>Packing and unpacking magnitudes\<close>

fun bitlen :: "nat \<Rightarrow> nat" where
  "bitlen m = (if m = 0 then 0 else Suc (bitlen (m div 2)))"

declare bitlen.simps [simp del]

text \<open>Half-to-even rounding of \<open>m / 2^k\<close>.\<close>

definition round_half_even :: "nat \<Rightarrow> nat \<Rightarrow> nat" where
  "round_half_even m k =
     (let q = m div 2 ^ k; r = m mod 2 ^ k
      in if 2 * r > 2 ^ k \<or> (2 * r = 2 ^ k \<and> odd q) then q + 1 else q)"

text \<open>
  A format has \<open>p\<close> bits of significand and least exponent \<open>emin\<close>; \<open>infinity\<close> the pattern of infinity.
\<close>

definition unpack :: "nat \<Rightarrow> int \<Rightarrow> nat \<Rightarrow> nat \<times> int" where
  "unpack p emin b =
     (let E = b div 2 ^ (p - 1); f = b mod 2 ^ (p - 1)
      in if E = 0 then (f, emin) else (2 ^ (p - 1) + f, emin + int E - 1))"

text \<open>The exponent of the last place, and \<open>m * 2^e\<close> rounded to a multiple of \<open>2^e'\<close>.\<close>

definition last_place :: "nat \<Rightarrow> int \<Rightarrow> nat \<Rightarrow> int \<Rightarrow> int" where
  "last_place p emin m e = max emin (e + int (bitlen m) - int p)"

definition rescale :: "nat \<Rightarrow> int \<Rightarrow> int \<Rightarrow> nat" where
  "rescale m e e' =
     (if e' \<le> e then m * 2 ^ nat (e - e') else round_half_even m (nat (e' - e)))"

definition pack_bits :: "nat \<Rightarrow> int \<Rightarrow> nat \<Rightarrow> int \<Rightarrow> nat \<Rightarrow> nat" where
  "pack_bits p emin infinity e' q =
     (if q < 2 ^ (p - 1) then q
      else min infinity (nat (e' - emin + 1) * 2 ^ (p - 1) + (q - 2 ^ (p - 1))))"

fun pack :: "nat \<Rightarrow> int \<Rightarrow> nat \<Rightarrow> nat \<times> int \<Rightarrow> nat" where
  "pack p emin infinity (m, e) =
     (let e' = last_place p emin m e in pack_bits p emin infinity e' (rescale m e e'))"

declare pack.simps [simp del]

definition inf32 :: nat where "inf32 = 0x7F800000"
definition inf64 :: nat where "inf64 = 0x7FF0000000000000"

definition f32_mag :: "u32 \<Rightarrow> nat" where "f32_mag x = unat (take_bit 31 x)"
definition f64_mag :: "u64 \<Rightarrow> nat" where "f64_mag x = unat (take_bit 63 x)"

definition unpack32 :: "nat \<Rightarrow> nat \<times> int" where "unpack32 = unpack 24 (-149)"
definition unpack64 :: "nat \<Rightarrow> nat \<times> int" where "unpack64 = unpack 53 (-1074)"
definition pack32 :: "nat \<times> int \<Rightarrow> nat" where "pack32 = pack 24 (-149) inf32"
definition pack64 :: "nat \<times> int \<Rightarrow> nat" where "pack64 = pack 53 (-1074) inf64"

definition f32_of_mag :: "bool \<Rightarrow> nat \<Rightarrow> u32" where
  "f32_of_mag neg mag = of_nat ((if neg then 2 ^ 31 else 0) + mag)"

definition f64_of_mag :: "bool \<Rightarrow> nat \<Rightarrow> u64" where
  "f64_of_mag neg mag = of_nat ((if neg then 2 ^ 63 else 0) + mag)"


section \<open>Conversions of the language\<close>

definition f64_is_nan :: "u64 \<Rightarrow> bool" where "f64_is_nan x \<longleftrightarrow> inf64 < f64_mag x"
definition f32_is_nan :: "u32 \<Rightarrow> bool" where "f32_is_nan x \<longleftrightarrow> inf32 < f32_mag x"

text \<open>\<open>float32(x)\<close> and \<open>float64(x)\<close>\<close>

definition f64_to_f32 :: "u64 \<Rightarrow> u32" where
  "f64_to_f32 x =
     (let mag = f64_mag x in
      f32_of_mag (bit x 63)
        (if mag < inf64 then pack32 (unpack64 mag)
         else if mag = inf64 then inf32
         else unat ((of_nat inf32 :: u32) OR push_bit 22 1 OR of_nat ((mag - inf64) div 2 ^ 29))))"

definition f32_to_f64 :: "u32 \<Rightarrow> u64" where
  "f32_to_f64 x =
     (let mag = f32_mag x in
      f64_of_mag (bit x 31)
        (if mag < inf32 then pack64 (unpack32 mag)
         else if mag = inf32 then inf64
         else unat ((of_nat inf64 :: u64) OR push_bit 51 1 OR of_nat ((mag - inf32) * 2 ^ 29))))"

text \<open>\<open>float64(i)\<close> of an integer\<close>

definition int_to_f64 :: "int \<Rightarrow> u64" where
  "int_to_f64 i = f64_of_mag (i < 0) (pack64 (nat \<bar>i\<bar>, 0))"

text \<open>\<open>x == math.Trunc(x)\<close>: false for NaN, true for the infinities.\<close>

definition f64_is_integral :: "u64 \<Rightarrow> bool" where
  "f64_is_integral x =
     (let mag = f64_mag x in
      if mag < inf64 then (case unpack64 mag of (m, e) \<Rightarrow> 0 \<le> e \<or> m mod 2 ^ nat (- e) = 0)
      else mag = inf64)"

text \<open>The integer part of a finite number.\<close>

definition f64_int_part :: "u64 \<Rightarrow> int" where
  "f64_int_part x =
     (case unpack64 (f64_mag x) of (m, e) \<Rightarrow>
        let v = int (if 0 \<le> e then m * 2 ^ nat e else m div 2 ^ nat (- e))
        in if bit x 63 then - v else v)"

text \<open>\<open>x < 0\<close>\<close>

definition f64_is_negative :: "u64 \<Rightarrow> bool" where
  "f64_is_negative x \<longleftrightarrow> bit x 63 \<and> 0 < f64_mag x \<and> f64_mag x \<le> inf64"

record go_arch =
  f64_to_i64_unrepresentable :: "u64 \<Rightarrow> u64"
  f64_to_u64_unrepresentable :: "u64 \<Rightarrow> u64"

text \<open>\<open>int64(x)\<close> and \<open>uint64(x)\<close>\<close>

definition f64_to_i64 :: "go_arch \<Rightarrow> u64 \<Rightarrow> u64" where
  "f64_to_i64 arch x =
     (let i = f64_int_part x in
      if f64_mag x < inf64 \<and> - (2 ^ 63) \<le> i \<and> i < 2 ^ 63 then of_int i
      else f64_to_i64_unrepresentable arch x)"

definition f64_to_u64 :: "go_arch \<Rightarrow> u64 \<Rightarrow> u64" where
  "f64_to_u64 arch x =
     (let i = f64_int_part x in
      if f64_mag x < inf64 \<and> 0 \<le> i \<and> i < 2 ^ 64 then of_int i
      else f64_to_u64_unrepresentable arch x)"


section \<open>Exactness of the conversions\<close>

lemma bitlen_pos: "0 < m \<Longrightarrow> bitlen m = Suc (bitlen (m div 2))"
  by (subst bitlen.simps) simp

lemma bitlen_0 [simp]: "bitlen 0 = 0"
  by (subst bitlen.simps) simp

lemma bitlen_bounds: "0 < m \<Longrightarrow> 2 ^ (bitlen m - 1) \<le> m \<and> m < 2 ^ bitlen m"
proof (induction m rule: bitlen.induct)
  case (1 m)
  show ?case
  proof (cases "m div 2 = 0")
    case True
    with 1(2) have "m = 1" by linarith
    then show ?thesis by (simp add: bitlen_pos)
  next
    case False
    then obtain j where j: "bitlen (m div 2) = Suc j" by (metis bitlen_pos bot_nat_0.not_eq_extremum)
    from 1(1) 1(2) False have "2 ^ j \<le> m div 2" "m div 2 < 2 ^ Suc j" by (simp_all add: j)
    then show ?thesis using 1(2) by (simp add: bitlen_pos j) linarith
  qed
qed

lemma bitlen_unique: "2 ^ k \<le> m \<Longrightarrow> m < 2 ^ Suc k \<Longrightarrow> bitlen m = Suc k"
proof -
  assume k: "2 ^ k \<le> m" "m < 2 ^ Suc k"
  then have m: "0 < m" by (metis gr0I not_le zero_less_numeral zero_less_power)
  note b = bitlen_bounds [OF m]
  from b k have "2 ^ (bitlen m - 1) < (2::nat) ^ Suc k" "(2::nat) ^ k < 2 ^ bitlen m" by linarith+
  then have "bitlen m - 1 < Suc k" "k < bitlen m" by (simp_all only: power_strict_increasing_iff)
  then show ?thesis by simp
qed

lemma bitlen_le: "0 < m \<Longrightarrow> m < 2 ^ k \<Longrightarrow> bitlen m \<le> k"
proof -
  assume m: "0 < m" "m < 2 ^ k"
  then have "2 ^ (bitlen m - 1) < (2::nat) ^ k" using bitlen_bounds [of m] by linarith
  then have "bitlen m - 1 < k" by (rule power_less_imp_less_exp [rotated]) simp
  then show ?thesis by simp
qed

lemma bitlen_shift: "0 < m \<Longrightarrow> bitlen (m * 2 ^ k) = bitlen m + k"
proof -
  assume m: "0 < m"
  then obtain j where j: "bitlen m = Suc j" by (metis bitlen_pos)
  note b = bitlen_bounds [OF m]
  have "2 ^ (j + k) \<le> m * 2 ^ k" "m * 2 ^ k < 2 ^ Suc (j + k)"
    using b by (simp_all add: j power_add)
  then show ?thesis using bitlen_unique by (simp add: j)
qed
lemma round_half_even_exact: "round_half_even (m * 2 ^ k) k = m"
  by (simp add: round_half_even_def)

lemma round_half_even_scale: "round_half_even (m * 2 ^ k) (k + j) = round_half_even m j"
proof -
  have p: "(2::nat) ^ (k + j) = 2 ^ j * 2 ^ k" by (simp add: power_add)
  have "m * 2 ^ k div 2 ^ (k + j) = m div 2 ^ j" "m * 2 ^ k mod 2 ^ (k + j) = (m mod 2 ^ j) * 2 ^ k"
    unfolding p by (simp_all add: mult_mod_left)
  moreover have "2 * (r * 2 ^ k) > 2 ^ (k + j) \<longleftrightarrow> 2 * r > 2 ^ j"
    "2 * (r * 2 ^ k) = 2 ^ (k + j) \<longleftrightarrow> 2 * r = 2 ^ j" for r :: nat
    unfolding p mult.assoc [symmetric] by simp_all
  ultimately show ?thesis by (simp add: round_half_even_def Let_def)
qed

text \<open>Packing depends only on the value \<open>m * 2^e\<close>.\<close>

lemma pack_scale:
  assumes "0 < m"
  shows "pack p emin I (m * 2 ^ k, e - int k) = pack p emin I (m, e)"
proof -
  define e' where "e' = last_place p emin m e"
  have e': "last_place p emin (m * 2 ^ k) (e - int k) = e'"
    using bitlen_shift [OF assms, of k] by (simp add: e'_def last_place_def)
  have "rescale (m * 2 ^ k) (e - int k) e' = rescale m e e'"
  proof -
    consider (a) "e' \<le> e - int k" | (b) "e - int k < e'" "e' \<le> e" | (c) "e < e'" by linarith
    then show ?thesis
    proof cases
      case a
      then have "nat (e - e') = k + nat (e - int k - e')" by simp
      then show ?thesis using a by (simp add: rescale_def power_add)
    next
      case b
      define j where "j = nat (e' - (e - int k))"
      have "k = nat (e - e') + j" using b by (simp add: j_def)
      then have "m * 2 ^ k = m * 2 ^ nat (e - e') * 2 ^ j" by (simp only: power_add mult.assoc)
      then have "round_half_even (m * 2 ^ k) j = m * 2 ^ nat (e - e')"
        by (simp only: round_half_even_exact)
      then show ?thesis using b by (simp add: rescale_def flip: j_def)
    next
      case c
      then have "nat (e' - (e - int k)) = k + nat (e' - e)" by simp
      then show ?thesis using c round_half_even_scale by (simp add: rescale_def)
    qed
  qed
  then show ?thesis unfolding pack.simps e' Let_def e'_def [symmetric] by (simp only:)
qed

lemma rescale_0: "rescale 0 e e' = 0"
  by (simp add: rescale_def round_half_even_def)

lemma pack_zero: "0 < p \<Longrightarrow> pack p emin I (0, e) = 0"
  by (simp add: pack.simps pack_bits_def rescale_0 Let_def)

lemma pack_unpack:
  assumes p: "1 < p" and b: "b < I"
  shows "pack p emin I (unpack p emin b) = b"
proof (cases "b < 2 ^ (p - 1)")
  case True
  have le: "bitlen b \<le> p"
  proof (cases "b = 0")
    case False
    then have "2 ^ (bitlen b - 1) < (2::nat) ^ (p - 1)" using bitlen_bounds [of b] True by linarith
    then show ?thesis by simp
  qed simp
  then have "last_place p emin b emin = emin" by (simp add: last_place_def)
  with True show ?thesis by (simp add: unpack_def pack.simps pack_bits_def rescale_def)
next
  case False
  define E where "E = b div 2 ^ (p - 1)"
  define f where "f = b mod 2 ^ (p - 1)"
  have E: "0 < E" using False by (simp add: E_def div_greater_zero_iff)
  have bEf: "b = E * 2 ^ (p - 1) + f"
    unfolding E_def f_def by (rule div_mult_mod_eq [symmetric])
  have "f < 2 ^ (p - 1)" by (simp add: f_def)
  then have "bitlen (2 ^ (p - 1) + f) = Suc (p - 1)" by (intro bitlen_unique) simp_all
  then have len: "bitlen (2 ^ (p - 1) + f) = p" using p by simp
  let ?e = "emin + int E - 1"
  have "last_place p emin (2 ^ (p - 1) + f) ?e = ?e"
    using E len by (simp add: last_place_def)
  moreover have "unpack p emin b = (2 ^ (p - 1) + f, ?e)"
    using E by (simp add: unpack_def E_def f_def)
  moreover have "pack_bits p emin I ?e (2 ^ (p - 1) + f) = b"
    using b bEf by (simp add: pack_bits_def)
  moreover have "rescale (2 ^ (p - 1) + f) ?e ?e = 2 ^ (p - 1) + f"
    by (simp add: rescale_def)
  ultimately show ?thesis by (simp only: pack.simps Let_def)
qed

text \<open>A significand that fits is represented exactly.\<close>

lemma unpack_pack_exact:
  assumes p: "1 < p" and m: "0 < m" "bitlen m \<le> p" and e: "emin \<le> e + int (bitlen m) - int p"
    and fits: "nat (e + int (bitlen m) - int p - emin + 2) * 2 ^ (p - 1) \<le> I"
  shows "unpack p emin (pack p emin I (m, e)) = (m * 2 ^ (p - bitlen m), e - int (p - bitlen m))"
    and "pack p emin I (m, e) < I"
proof -
  define k where "k = p - bitlen m"
  define q where "q = m * 2 ^ k"
  define E where "E = nat (e - int k - emin + 1)"
  have len: "bitlen q = p" using m by (simp add: q_def bitlen_shift k_def)
  have q0: "0 < q" using m by (simp add: q_def)
  have q: "2 ^ (p - 1) \<le> q" "q < 2 ^ p" using bitlen_bounds [OF q0] by (simp_all add: len)
  have pp: "(2::nat) ^ p = 2 * 2 ^ (p - 1)" using p by (cases p) simp_all
  define f where "f = q - 2 ^ (p - 1)"
  have f: "f < 2 ^ (p - 1)" "q = 2 ^ (p - 1) + f" using q pp by (simp_all add: f_def)
  have E: "0 < E" "int E = e - int k - emin + 1" using e m by (simp_all add: E_def k_def)
  have e': "last_place p emin m e = e - int k" using e m by (simp add: k_def last_place_def)
  have "nat (e + int (bitlen m) - int p - emin + 2) = E + 1" using E m by (simp add: k_def)
  then have fits': "(E + 1) * 2 ^ (p - 1) \<le> I" using fits by simp
  then have less: "E * 2 ^ (p - 1) + f < I" using f by simp
  have "nat (e - (e - int k)) = k" by simp
  then have "pack p emin I (m, e) = min I (E * 2 ^ (p - 1) + f)"
    using q(1) unfolding pack.simps pack_bits_def rescale_def e' Let_def E_def f_def q_def by simp
  then have pk: "pack p emin I (m, e) = E * 2 ^ (p - 1) + f" using less by simp
  then show "pack p emin I (m, e) < I" using less by simp
  have "unpack p emin (E * 2 ^ (p - 1) + f) = (2 ^ (p - 1) + f, emin + int E - 1)"
    using f(1) E(1) by (simp add: unpack_def Let_def)
  then show "unpack p emin (pack p emin I (m, e)) = (m * 2 ^ (p - bitlen m), e - int (p - bitlen m))"
    unfolding pk using f(2) E(2) by (simp add: q_def flip: k_def)
qed

section \<open>Sign and magnitude\<close>

lemma bit_top_iff: "bit x 63 \<longleftrightarrow> 2 ^ 63 \<le> unat x" "bit y 31 \<longleftrightarrow> 2 ^ 31 \<le> unat y"
  for x :: u64 and y :: u32
proof -
  have "unat x < 2 ^ 64" "unat y < 2 ^ 32" using unsigned_less [of x] unsigned_less [of y] by simp_all
  then have "unat x div 2 ^ 63 = (if 2 ^ 63 \<le> unat x then 1 else 0)"
    "unat y div 2 ^ 31 = (if 2 ^ 31 \<le> unat y then 1 else 0)"
    by (auto intro!: div_nat_eqI)
  moreover have "bit x 63 = bit (unat x) 63" "bit y 31 = bit (unat y) 31"
    by (simp_all add: bit_unsigned_iff)
  ultimately show "bit x 63 \<longleftrightarrow> 2 ^ 63 \<le> unat x" "bit y 31 \<longleftrightarrow> 2 ^ 31 \<le> unat y"
    by (simp_all only: bit_nat_def split: if_splits) simp_all
qed

lemma mag_mod: "f64_mag x = unat x mod 2 ^ 63" "f32_mag y = unat y mod 2 ^ 31"
  by (simp_all only: f64_mag_def f32_mag_def take_bit_eq_mod unat_mod) simp_all

lemma mag_less [simp]: "f64_mag x < 2 ^ 63" "f32_mag y < 2 ^ 31"
  unfolding mag_mod by simp_all

lemma unat_of_mag:
  "mag < 2 ^ 63 \<Longrightarrow> unat (f64_of_mag neg mag) = (if neg then 2 ^ 63 else 0) + mag"
  "mag' < 2 ^ 31 \<Longrightarrow> unat (f32_of_mag neg mag') = (if neg then 2 ^ 31 else 0) + mag'"
  unfolding f64_of_mag_def f32_of_mag_def
  by (simp_all only: unsigned_of_nat) (simp_all add: take_bit_nat_eq_self_iff)

lemma mag_of_mag [simp]:
  "mag < 2 ^ 63 \<Longrightarrow> f64_mag (f64_of_mag neg mag) = mag"
  "mag' < 2 ^ 31 \<Longrightarrow> f32_mag (f32_of_mag neg mag') = mag'"
  by (auto simp only: mag_mod unat_of_mag split: if_splits) simp_all

lemma sign_of_mag [simp]:
  "mag < 2 ^ 63 \<Longrightarrow> bit (f64_of_mag neg mag) 63 = neg"
  "mag' < 2 ^ 31 \<Longrightarrow> bit (f32_of_mag neg mag') 31 = neg"
  by (auto simp only: bit_top_iff unat_of_mag split: if_splits)

lemma of_mag_mag [simp]: "f64_of_mag (bit x 63) (f64_mag x) = x" "f32_of_mag (bit y 31) (f32_mag y) = y"
proof -
  have "unat x < 2 ^ 64" "unat y < 2 ^ 32" using unsigned_less [of x] unsigned_less [of y] by simp_all
  then have "(if 2 ^ 63 \<le> unat x then 2 ^ 63 else 0) + unat x mod 2 ^ 63 = unat x"
    "(if 2 ^ 31 \<le> unat y then 2 ^ 31 else 0) + unat y mod 2 ^ 31 = unat y"
    by (auto simp: le_mod_geq)
  then show "f64_of_mag (bit x 63) (f64_mag x) = x" "f32_of_mag (bit y 31) (f32_mag y) = y"
    by (simp_all only: f64_of_mag_def f32_of_mag_def mag_mod bit_top_iff of_nat_unat ucast_id)
qed

section \<open>A float32 survives the way through float64\<close>

lemma unpack32_small:
  assumes "mag < inf32" "unpack32 mag = (m, e)" "0 < m"
  shows "bitlen m \<le> 24" "-149 \<le> e" "e \<le> 104"
proof -
  define E where "E = mag div 2 ^ 23"
  define f where "f = mag mod 2 ^ 23"
  have "E < 255" using assms(1) by (simp add: E_def inf32_def less_mult_imp_div_less)
  moreover have f: "f < 2 ^ 23" by (simp add: f_def)
  moreover have "unpack32 mag = (if E = 0 then (f, -149) else (2 ^ 23 + f, int E - 150))"
    by (simp add: unpack32_def unpack_def Let_def E_def f_def)
  then have me: "(m, e) = (if E = 0 then (f, -149) else (2 ^ 23 + f, int E - 150))"
    by (simp only: assms(2))
  ultimately show "-149 \<le> e" "e \<le> 104" by (auto split: if_splits)
  have "m < 2 ^ 24" using me f by (auto split: if_splits)
  then show "bitlen m \<le> 24" using bitlen_le [OF assms(3)] by blast
qed

text \<open>Small significands and exponents become doubles of the same value.\<close>

lemma pack64_exact:
  assumes "0 < m" "bitlen m \<le> 53" "-1000 \<le> e" "e \<le> 900"
  shows "unpack64 (pack64 (m, e)) = (m * 2 ^ (53 - bitlen m), e - int (53 - bitlen m))"
    and "pack64 (m, e) < inf64"
proof -
  have "0 < bitlen m" using assms(1) by (simp add: bitlen_pos)
  then have lo: "-1074 \<le> e + int (bitlen m) - int 53" using assms(3) by simp
  have "nat (e + int (bitlen m) - int 53 - -1074 + 2) \<le> 2047" using assms(2,4) by simp
  then have "nat (e + int (bitlen m) - int 53 - -1074 + 2) * 2 ^ (53 - 1) \<le> 2047 * 2 ^ (53 - 1)"
    by (rule mult_le_mono1)
  also have "\<dots> = inf64" by (simp add: inf64_def)
  finally have hi: "nat (e + int (bitlen m) - int 53 - -1074 + 2) * 2 ^ (53 - 1) \<le> inf64" .
  note x = unpack_pack_exact [OF _ assms(1,2) lo hi]
  show "unpack64 (pack64 (m, e)) = (m * 2 ^ (53 - bitlen m), e - int (53 - bitlen m))"
    "pack64 (m, e) < inf64"
    using x by (simp_all add: unpack64_def pack64_def)
qed

lemma pack_le_inf: "1 < p \<Longrightarrow> 2 ^ (p - 1) \<le> I \<Longrightarrow> pack p emin I me \<le> I"
  by (cases me) (auto simp: pack.simps pack_bits_def Let_def)

lemma inf_less: "pack64 me < 2 ^ 63" "pack32 me < 2 ^ 31" "inf64 < 2 ^ 63" "inf32 < 2 ^ 31"
proof -
  have "pack64 me \<le> inf64" "pack32 me \<le> inf32"
    unfolding pack64_def pack32_def by (intro pack_le_inf; simp add: inf64_def inf32_def)+
  moreover show "inf64 < 2 ^ 63" "inf32 < 2 ^ 31" by (simp_all add: inf64_def inf32_def)
  ultimately show "pack64 me < 2 ^ 63" "pack32 me < 2 ^ 31" by (auto intro: le_less_trans)
qed

theorem f64_to_f32_to_f64:
  assumes "\<not> f32_is_nan x"
  shows "f64_to_f32 (f32_to_f64 x) = x"
proof -
  define mag where "mag = f32_mag x"
  have "mag = inf32 \<or> mag < inf32"
    using assms unfolding f32_is_nan_def mag_def by linarith
  then consider (inf) "mag = inf32" | (fin) "mag < inf32" by blast
  then have "\<exists>d. f32_to_f64 x = f64_of_mag (bit x 31) d \<and> d < 2 ^ 63 \<and>
    (if d < inf64 then pack32 (unpack64 d) = mag else d = inf64 \<and> mag = inf32)"
  proof cases
    case inf
    then show ?thesis
      using inf_less(3) by (intro exI [of _ inf64]) (simp add: f32_to_f64_def flip: mag_def)
  next
    case fin
    obtain m e where me: "unpack32 mag = (m, e)" by fastforce
    have mag: "pack32 (m, e) = mag"
      unfolding me [symmetric] pack32_def unpack32_def using fin by (intro pack_unpack) simp_all
    have "pack64 (m, e) < inf64 \<and> pack32 (unpack64 (pack64 (m, e))) = mag"
    proof (cases "m = 0")
      case True
      then have "mag = 0" "pack64 (m, e) = 0"
        using mag by (simp_all add: pack32_def pack64_def pack_zero)
      then show ?thesis
        by (simp add: unpack64_def unpack_def pack32_def pack_zero inf64_def)
    next
      case False
      note u = unpack32_small [OF fin me]
      have x: "unpack64 (pack64 (m, e)) = (m * 2 ^ (53 - bitlen m), e - int (53 - bitlen m))"
        "pack64 (m, e) < inf64"
        using pack64_exact [of m e] u False by auto
      have "pack32 (unpack64 (pack64 (m, e))) = pack32 (m, e)"
        unfolding x(1) pack32_def using False by (intro pack_scale) simp
      with x(2) mag show ?thesis by simp
    qed
    then show ?thesis
      using fin me inf_less(1) [of "(m, e)"]
      by (intro exI [of _ "pack64 (m, e)"]) (simp add: f32_to_f64_def flip: mag_def)
  qed
  then obtain d where d: "f32_to_f64 x = f64_of_mag (bit x 31) d" "d < 2 ^ 63"
    "if d < inf64 then pack32 (unpack64 d) = mag else d = inf64 \<and> mag = inf32" by blast
  show ?thesis
    unfolding f64_to_f32_def d(1) mag_of_mag(1) [OF d(2)] sign_of_mag(1) [OF d(2)] Let_def
    using d(3) of_mag_mag(2) [of x, folded mag_def] by (simp split: if_splits)
qed

text \<open>An integer of at most 53 bits survives the way through float64.\<close>

lemma int_to_f64_exact:
  assumes "\<bar>i\<bar> < 2 ^ 53"
  shows "f64_is_integral (int_to_f64 i) \<and> f64_int_part (int_to_f64 i) = i
    \<and> f64_mag (int_to_f64 i) < inf64"
proof -
  define m where "m = nat \<bar>i\<bar>"
  have m: "m < 2 ^ 53" using assms by (simp add: m_def)
  have d: "int_to_f64 i = f64_of_mag (i < 0) (pack64 (m, 0))" by (simp add: int_to_f64_def m_def)
  have mag: "f64_mag (int_to_f64 i) = pack64 (m, 0)" "bit (int_to_f64 i) 63 = (i < 0)"
    unfolding d using inf_less(1) by simp_all
  have "pack64 (m, 0) < inf64 \<and> (\<exists>k. unpack64 (pack64 (m, 0)) = (m * 2 ^ k, - int k)
    \<or> (m = 0 \<and> unpack64 (pack64 (m, 0)) = (0, - int k)))"
  proof (cases "m = 0")
    case True
    then have "pack64 (m, 0) = 0" by (simp add: pack64_def pack_zero)
    moreover have "unpack64 0 = (0, - int 1074)" by (simp add: unpack64_def unpack_def)
    ultimately show ?thesis using True by (auto simp: inf64_def)
  next
    case False
    then have "bitlen m \<le> 53" using bitlen_le [of m 53] m by simp
    with False pack64_exact [of m 0] show ?thesis by auto
  qed
  then obtain k where k: "pack64 (m, 0) < inf64" "unpack64 (pack64 (m, 0)) = (m * 2 ^ k, - int k)"
    by auto
  then show ?thesis
    by (cases "k = 0") (auto simp: f64_is_integral_def f64_int_part_def mag Let_def m_def)
qed

end
