(* ===== verification/Proto_Values.thy ===== *)
theory Proto_Values
  imports Varint Go_Float
begin

text \<open>
  Single values of \<open>bridges/mqtt-go/proto.go\<close>: the dynamic values (\<open>any\<close>) the bridge handles, the
  numeric coercions, and the encoding, decoding and skipping of one field value.  \<open>received\<close> is the
  specification of a value's way over the wire; the main lemma says that \<open>decodeValue\<close> on what
  \<open>appendValue\<close> wrote yields it and consumes exactly the written bytes.
\<close>

section \<open>Dynamic values\<close>

text \<open>
  The dynamic types that reach this code.  Integers are kept as bit patterns of their width (\<open>int\<close>
  and \<open>uint\<close> have 64 bits), read with \<open>sint\<close> or \<open>uint\<close> according to the type.
\<close>

datatype gval =
    VNil
  | VBool bool
  | VInt u64
  | VInt32 u32
  | VInt64 u64
  | VUint u64
  | VUint32 u32
  | VUint64 u64
  | VFloat64 u64
  | VFloat32 u32
  | VString string
  | VBytes bytes
  | VList "gval list"
  | VMap "(string \<times> gval) list"

datatype proto_error =
    NoWireType string
  | TypeMismatch string gval
  | FractionalPart u64
  | NotANumber gval
  | NegativeToUnsigned int
  | NotUnsigned u64
  | UnsupportedProtoType string
  | RepeatedNotList string gval
  | InField string proto_error
  | TruncatedTag int
  | SkipUnknown u32 proto_error
  | TruncatedVarint
  | TruncatedFixed32
  | TruncatedLength
  | LengthOverflow
  | UnsupportedSkip int
  | WireTypeMismatch int string int
  | Truncated string
  | TruncatedLengthOf string
  | Overruns string
  | UnsupportedType string


section \<open>Numeric coercion\<close>

function toInt64 :: "go_arch \<Rightarrow> gval \<Rightarrow> (proto_error, u64) outcome" where
  "toInt64 arch v =
     (case v of
        VInt x \<Rightarrow> Ret x
      | VInt32 x \<Rightarrow> Ret (scast x)
      | VInt64 x \<Rightarrow> Ret x
      | VUint x \<Rightarrow> Ret x
      | VUint32 x \<Rightarrow> Ret (ucast x)
      | VUint64 x \<Rightarrow> Ret x
      | VFloat64 x \<Rightarrow>
          if \<not> f64_is_integral x then Fail (FractionalPart x) else Ret (f64_to_i64 arch x)
      | VFloat32 x \<Rightarrow> toInt64 arch (VFloat64 (f32_to_f64 x))
      | _ \<Rightarrow> Fail (NotANumber v))"
  by pat_completeness auto

termination
  by (relation "measure (\<lambda>(arch, v). case v of VFloat32 x \<Rightarrow> 1 | _ \<Rightarrow> 0)") auto

declare toInt64.simps [simp del]

definition toUint64 :: "go_arch \<Rightarrow> gval \<Rightarrow> (proto_error, u64) outcome" where
  "toUint64 arch v =
     (case v of
        VInt x \<Rightarrow> if sint x < 0 then Fail (NegativeToUnsigned (sint x)) else Ret x
      | VInt32 x \<Rightarrow> if sint x < 0 then Fail (NegativeToUnsigned (sint x)) else Ret (scast x)
      | VInt64 x \<Rightarrow> if sint x < 0 then Fail (NegativeToUnsigned (sint x)) else Ret x
      | VUint x \<Rightarrow> Ret x
      | VUint32 x \<Rightarrow> Ret (ucast x)
      | VUint64 x \<Rightarrow> Ret x
      | VFloat64 x \<Rightarrow>
          if \<not> f64_is_integral x \<or> f64_is_negative x then Fail (NotUnsigned x)
          else Ret (f64_to_u64 arch x)
      | _ \<Rightarrow> Fail (NotANumber v))"

definition toFloat64 :: "gval \<Rightarrow> (proto_error, u64) outcome" where
  "toFloat64 v =
     (case v of
        VFloat64 x \<Rightarrow> Ret x
      | VFloat32 x \<Rightarrow> Ret (f32_to_f64 x)
      | VInt x \<Rightarrow> Ret (int_to_f64 (sint x))
      | VInt32 x \<Rightarrow> Ret (int_to_f64 (sint x))
      | VInt64 x \<Rightarrow> Ret (int_to_f64 (sint x))
      | VUint32 x \<Rightarrow> Ret (int_to_f64 (uint x))
      | VUint64 x \<Rightarrow> Ret (int_to_f64 (uint x))
      | _ \<Rightarrow> Fail (NotANumber v))"


section \<open>Wire types\<close>

definition wireVarint :: int where "wireVarint = 0"
definition wireLen :: int where "wireLen = 2"
definition wireFixed32 :: int where "wireFixed32 = 5"

lemmas wire_type_consts = wireVarint_def wireLen_def wireFixed32_def

definition wireTypeFor :: "string \<Rightarrow> (proto_error, int) outcome" where
  "wireTypeFor typ =
     (if typ \<in> {''bool'', ''int32'', ''int64'', ''uint32'', ''uint64'', ''sint32'', ''sint64''}
      then Ret wireVarint
      else if typ = ''float'' then Ret wireFixed32
      else if typ \<in> {''string'', ''bytes''} then Ret wireLen
      else Fail (NoWireType typ))"


section \<open>Encoding one value\<close>

definition appendValue :: "go_arch \<Rightarrow> bytes \<Rightarrow> string \<Rightarrow> gval \<Rightarrow> (proto_error, bytes) outcome" where
  "appendValue arch buf typ v =
     (if typ = ''bool'' then
        (case v of VBool b \<Rightarrow> Ret (if b then appendVarint buf 1 else appendVarint buf 0)
         | _ \<Rightarrow> Fail (TypeMismatch typ v))
      else if typ = ''int32'' then go_bind (toInt64 arch v) (\<lambda>n. Ret (appendVarint buf n))
      else if typ = ''int64'' then go_bind (toInt64 arch v) (\<lambda>n. Ret (appendVarint buf n))
      else if typ = ''uint32'' then go_bind (toUint64 arch v) (\<lambda>n. Ret (appendVarint buf n))
      else if typ = ''uint64'' then go_bind (toUint64 arch v) (\<lambda>n. Ret (appendVarint buf n))
      else if typ = ''sint32'' then
        go_bind (toInt64 arch v) (\<lambda>n. Ret (appendVarint buf (ucast (zigzag32 (ucast n)))))
      else if typ = ''sint64'' then
        go_bind (toInt64 arch v) (\<lambda>n. Ret (appendVarint buf (zigzag64 n)))
      else if typ = ''float'' then
        go_bind (toFloat64 v) (\<lambda>f.
        go_bind (le_put32 (replicate 4 0) 0 (f64_to_f32 f)) (\<lambda>tmp. Ret (buf @ tmp)))
      else if typ = ''string'' then
        (case v of
           VString s \<Rightarrow> Ret (appendVarint buf (of_nat (length s)) @ string_bytes s)
         | _ \<Rightarrow> Fail (TypeMismatch typ v))
      else if typ = ''bytes'' then
        (case v of
           VBytes b \<Rightarrow> Ret (appendVarint buf (of_nat (length b)) @ b)
         | _ \<Rightarrow> Fail (TypeMismatch typ v))
      else Fail (UnsupportedProtoType typ))"


section \<open>Skipping and decoding one value\<close>

text \<open>
  \<open>int(l)\<close> of a \<open>uint64\<close> is \<open>sint l\<close>; \<open>uint64(len(data)-n)\<close> is \<open>of_int\<close>.  Offsets are unbounded
  integers: on slices that exist in memory the sums the code forms stay within the slice.
\<close>

definition skipField :: "bytes \<Rightarrow> int \<Rightarrow> (proto_error, int) outcome" where
  "skipField data wt =
     (if wt = wireVarint then
        (case readVarint data of None \<Rightarrow> Fail TruncatedVarint | Some (_, n) \<Rightarrow> Ret (int n))
      else if wt = wireFixed32 then
        (if length data < 4 then Fail TruncatedFixed32 else Ret 4)
      else if wt = wireLen then
        (case readVarint data of
           None \<Rightarrow> Fail TruncatedLength
         | Some (l, n) \<Rightarrow>
             if l > of_int (int (length data) - int n) then Fail LengthOverflow
             else Ret (int n + sint l))
      else Fail (UnsupportedSkip wt))"

definition decodeVarintValue ::
  "bytes \<Rightarrow> string \<Rightarrow> (u64 \<Rightarrow> gval) \<Rightarrow> (proto_error, gval \<times> int) outcome" where
  "decodeVarintValue data typ mk =
     (case readVarint data of
        None \<Rightarrow> Fail (Truncated typ)
      | Some (v, n) \<Rightarrow> Ret (mk v, int n))"

definition decodeValue :: "bytes \<Rightarrow> string \<Rightarrow> int \<Rightarrow> (proto_error, gval \<times> int) outcome" where
  "decodeValue data typ wt =
     go_bind (wireTypeFor typ) (\<lambda>expectedWT.
     if wt \<noteq> expectedWT then Fail (WireTypeMismatch wt typ expectedWT)
     else if typ = ''bool'' then decodeVarintValue data typ (\<lambda>v. VBool (v \<noteq> 0))
     else if typ = ''int32'' then decodeVarintValue data typ (\<lambda>v. VInt64 (scast (ucast v :: u32)))
     else if typ = ''int64'' then decodeVarintValue data typ VInt64
     else if typ = ''uint32'' then decodeVarintValue data typ (\<lambda>v. VUint64 (ucast (ucast v :: u32)))
     else if typ = ''uint64'' then decodeVarintValue data typ VUint64
     else if typ = ''sint32'' then
       decodeVarintValue data typ (\<lambda>v. VInt64 (scast (unzigzag32 (ucast v))))
     else if typ = ''sint64'' then decodeVarintValue data typ (\<lambda>v. VInt64 (unzigzag64 v))
     else if typ = ''float'' then
       (if length data < 4 then Fail (Truncated typ)
        else go_bind (go_slice data 0 4) (\<lambda>d. go_bind (le_uint32 d) (\<lambda>bits.
             Ret (VFloat64 (f32_to_f64 bits), 4))))
     else if typ = ''string'' then
       (case readVarint data of
          None \<Rightarrow> Fail (TruncatedLengthOf typ)
        | Some (l, n) \<Rightarrow>
            if l > of_int (int (length data) - int n) then Fail (Overruns typ)
            else go_bind (go_slice data (int n) (int n + sint l)) (\<lambda>s.
                 Ret (VString (bytes_string s), int n + sint l)))
     else if typ = ''bytes'' then
       (case readVarint data of
          None \<Rightarrow> Fail (TruncatedLengthOf typ)
        | Some (l, n) \<Rightarrow>
            if l > of_int (int (length data) - int n) then Fail (Overruns typ)
            else go_bind (go_make (sint l)) (\<lambda>cp.
                 go_bind (go_slice data (int n) (int n + sint l)) (\<lambda>s.
                 go_bind (go_copy cp 0 s) (\<lambda>cp. Ret (VBytes cp, int n + sint l)))))
     else Fail (UnsupportedType typ))"
section \<open>Length-delimited values\<close>

text \<open>Slices of a Go program are shorter than \<open>2^63\<close>.\<close>

abbreviation in_memory :: "'a list \<Rightarrow> bool" where
  "in_memory xs \<equiv> length xs < 2 ^ 63"

lemma sint_of_small: "k < 2 ^ 63 \<Longrightarrow> sint (of_nat k :: u64) = int k"
  by (subst signed_of_nat) (simp add: signed_take_bit_int_eq_self_iff)

lemma u64_of_int_small:
  fixes l :: u64
  assumes "0 \<le> i" "i < 2 ^ 63"
  shows "l > of_int i \<longleftrightarrow> uint l > i"
proof -
  have "uint (of_int i :: u64) = i"
    using assms by (simp add: unsigned_of_int take_bit_int_eq_self_iff)
  then show ?thesis by (simp add: word_less_def)
qed

lemma sint_uint_small: "uint l < 2 ^ 63 \<Longrightarrow> sint l = uint l" for l :: u64
proof -
  assume "uint l < 2 ^ 63"
  then have "int (unat l) < int (2 ^ 63)" by simp
  then have "unat l < 2 ^ 63" by (simp only: of_nat_less_iff)
  then show ?thesis using sint_of_small [of "unat l"] by simp
qed

text \<open>The bound check the source makes before it slices.\<close>

lemma len_guard:
  assumes "readVarint data = Some (l, n)" "in_memory data"
    and "\<not> l > of_int (int (length data) - int n)"
  shows "sint l = int (unat l)" "int n + sint l \<le> int (length data)"
proof -
  have n: "n \<le> length data" using readVarint_bounds [OF assms(1)] by simp
  then have "uint l \<le> int (length data) - int n"
    using assms(2,3) u64_of_int_small [of "int (length data) - int n" l] by simp
  moreover from this have "sint l = uint l"
    using assms(2) by (intro sint_uint_small) simp
  ultimately show "sint l = int (unat l)" "int n + sint l \<le> int (length data)" by simp_all
qed

definition len_prefixed :: "bytes \<Rightarrow> bytes" where
  "len_prefixed b = varint (of_nat (length b)) @ b"

lemma readVarint_len_prefixed [simp]:
  "readVarint (len_prefixed b @ rest) =
     Some (of_nat (length b), length (len_prefixed b) - length b)"
  by (simp add: len_prefixed_def)

lemma length_len_prefixed: "length b < length (len_prefixed b)"
  using length_varint(1) by (simp add: len_prefixed_def)

lemma len_prefixed_guard:
  assumes "in_memory (len_prefixed b @ rest)"
  shows "\<not> of_nat (length b) >
      (of_int (int (length (len_prefixed b @ rest)) - int (length (len_prefixed b) - length b)) :: u64)"
    and "sint (of_nat (length b) :: u64) = int (length b)"
proof -
  let ?i = "int (length (len_prefixed b @ rest)) - int (length (len_prefixed b) - length b)"
  have i: "?i = int (length b) + int (length rest)"
    using length_len_prefixed [of b] by simp
  have b: "length b < 2 ^ 63" using assms length_len_prefixed [of b] by simp
  then have "uint (of_nat (length b) :: u64) = int (length b)"
    by (subst unsigned_of_nat) (simp add: take_bit_nat_eq_self_iff)
  moreover have "0 \<le> ?i" "?i < 2 ^ 63" using i assms length_len_prefixed [of b] by simp_all
  ultimately show "\<not> of_nat (length b) > (of_int ?i :: u64)"
    using i u64_of_int_small [of ?i] by simp
  show "sint (of_nat (length b) :: u64) = int (length b)" using b by (rule sint_of_small)
qed

lemma len_prefixed_slice:
  "go_slice (len_prefixed b @ rest) (int (length (len_prefixed b) - length b))
     (int (length (len_prefixed b) - length b) + int (length b)) = Ret b"
  by (simp add: go_slice_def len_prefixed_def)

lemma copy_all: "go_copy (replicate (length b) 0) 0 b = Ret b"
  by (simp add: go_copy_def)

section \<open>What the receiver sees of a value\<close>

definition i64_of :: "go_arch \<Rightarrow> gval \<Rightarrow> u64" where
  "i64_of arch v = (case toInt64 arch v of Ret n \<Rightarrow> n | _ \<Rightarrow> 0)"

definition u64_of :: "go_arch \<Rightarrow> gval \<Rightarrow> u64" where
  "u64_of arch v = (case toUint64 arch v of Ret n \<Rightarrow> n | _ \<Rightarrow> 0)"

definition f64_of :: "gval \<Rightarrow> u64" where
  "f64_of v = (case toFloat64 v of Ret f \<Rightarrow> f | _ \<Rightarrow> 0)"

text \<open>
  32-bit types keep the low half, sign- or zero-extended; floats are rounded to single precision;
  everything else arrives unchanged.
\<close>

definition received :: "go_arch \<Rightarrow> string \<Rightarrow> gval \<Rightarrow> gval" where
  "received arch typ v =
     (if typ = ''int32'' \<or> typ = ''sint32'' then VInt64 (scast (ucast (i64_of arch v) :: u32))
      else if typ = ''int64'' \<or> typ = ''sint64'' then VInt64 (i64_of arch v)
      else if typ = ''uint32'' then VUint64 (ucast (ucast (u64_of arch v) :: u32))
      else if typ = ''uint64'' then VUint64 (u64_of arch v)
      else if typ = ''float'' then VFloat64 (f32_to_f64 (f64_to_f32 (f64_of v)))
      else v)"

text \<open>The bytes of one value, as the abstract \<open>put\<close> of the codec.\<close>

definition value_bytes :: "go_arch \<Rightarrow> string \<Rightarrow> gval \<Rightarrow> bytes" where
  "value_bytes arch typ v =
     (if typ = ''bool'' then varint (if v = VBool True then 1 else 0)
      else if typ = ''sint32'' then varint (ucast (zigzag32 (ucast (i64_of arch v))))
      else if typ = ''sint64'' then varint (zigzag64 (i64_of arch v))
      else if typ = ''int32'' \<or> typ = ''int64'' then varint (i64_of arch v)
      else if typ = ''uint32'' \<or> typ = ''uint64'' then varint (u64_of arch v)
      else if typ = ''float'' then le_bytes32 (f64_to_f32 (f64_of v))
      else if typ = ''string'' then (case v of VString s \<Rightarrow> len_prefixed (string_bytes s) | _ \<Rightarrow> [])
      else (case v of VBytes b \<Rightarrow> len_prefixed b | _ \<Rightarrow> []))"

text \<open>Which values a type accepts.\<close>

definition encodable :: "go_arch \<Rightarrow> string \<Rightarrow> gval \<Rightarrow> bool" where
  "encodable arch typ v =
     (if typ = ''bool'' then (case v of VBool _ \<Rightarrow> True | _ \<Rightarrow> False)
      else if typ \<in> {''int32'', ''int64'', ''sint32'', ''sint64''} then returns (toInt64 arch v)
      else if typ = ''uint32'' \<or> typ = ''uint64'' then returns (toUint64 arch v)
      else if typ = ''float'' then returns (toFloat64 v)
      else if typ = ''string'' then (case v of VString _ \<Rightarrow> True | _ \<Rightarrow> False)
      else if typ = ''bytes'' then (case v of VBytes _ \<Rightarrow> True | _ \<Rightarrow> False)
      else False)"

lemma toInt64_not_Panic [simp]: "toInt64 arch v \<noteq> Panic"
  by (induction arch v rule: toInt64.induct) (subst toInt64.simps, auto split: gval.split)

lemma toUint64_not_Panic [simp]: "toUint64 arch v \<noteq> Panic"
  by (auto simp: toUint64_def split: gval.split)

lemma toFloat64_not_Panic [simp]: "toFloat64 v \<noteq> Panic"
  by (auto simp: toFloat64_def split: gval.split)

lemma put_float: "go_bind (le_put32 (replicate 4 0) 0 w) f = f (le_bytes32 w)"
  by (simp add: le_put32_def go_copy_def)

text \<open>
  Each function instantiated at each type; proofs about a type name go through \<open>proto_type_cases\<close>
  and these equations.
\<close>

named_theorems at_type \<open>the operations at a fixed schema type\<close>

definition proto_types :: "string set" where
  "proto_types = {''bool'', ''int32'', ''int64'', ''uint32'', ''uint64'', ''sint32'', ''sint64'',
    ''float'', ''string'', ''bytes''}"

lemma wireTypeFor_at [at_type]:
  "wireTypeFor ''bool'' = Ret 0" "wireTypeFor ''int32'' = Ret 0" "wireTypeFor ''int64'' = Ret 0"
  "wireTypeFor ''uint32'' = Ret 0" "wireTypeFor ''uint64'' = Ret 0" "wireTypeFor ''sint32'' = Ret 0"
  "wireTypeFor ''sint64'' = Ret 0" "wireTypeFor ''float'' = Ret 5" "wireTypeFor ''string'' = Ret 2"
  "wireTypeFor ''bytes'' = Ret 2"
  by (simp_all add: wireTypeFor_def wire_type_consts)

lemma encodable_at [at_type]:
  "encodable arch ''bool'' v \<longleftrightarrow> (\<exists>b. v = VBool b)"
  "encodable arch ''int32'' v \<longleftrightarrow> returns (toInt64 arch v)"
  "encodable arch ''int64'' v \<longleftrightarrow> returns (toInt64 arch v)"
  "encodable arch ''uint32'' v \<longleftrightarrow> returns (toUint64 arch v)"
  "encodable arch ''uint64'' v \<longleftrightarrow> returns (toUint64 arch v)"
  "encodable arch ''sint32'' v \<longleftrightarrow> returns (toInt64 arch v)"
  "encodable arch ''sint64'' v \<longleftrightarrow> returns (toInt64 arch v)"
  "encodable arch ''float'' v \<longleftrightarrow> returns (toFloat64 v)"
  "encodable arch ''string'' v \<longleftrightarrow> (\<exists>s. v = VString s)"
  "encodable arch ''bytes'' v \<longleftrightarrow> (\<exists>b. v = VBytes b)"
  by (simp_all add: encodable_def split: gval.split)

lemma appendValue_at [at_type]:
  "appendValue arch buf ''bool'' v = (case v of VBool b \<Rightarrow> Ret (buf @ varint (if v = VBool True then 1 else 0))
     | _ \<Rightarrow> Fail (TypeMismatch ''bool'' v))"
  "appendValue arch buf ''int32'' v = go_bind (toInt64 arch v) (\<lambda>n. Ret (buf @ varint n))"
  "appendValue arch buf ''int64'' v = go_bind (toInt64 arch v) (\<lambda>n. Ret (buf @ varint n))"
  "appendValue arch buf ''uint32'' v = go_bind (toUint64 arch v) (\<lambda>n. Ret (buf @ varint n))"
  "appendValue arch buf ''uint64'' v = go_bind (toUint64 arch v) (\<lambda>n. Ret (buf @ varint n))"
  "appendValue arch buf ''sint32'' v =
     go_bind (toInt64 arch v) (\<lambda>n. Ret (buf @ varint (ucast (zigzag32 (ucast n)))))"
  "appendValue arch buf ''sint64'' v = go_bind (toInt64 arch v) (\<lambda>n. Ret (buf @ varint (zigzag64 n)))"
  "appendValue arch buf ''float'' v = go_bind (toFloat64 v) (\<lambda>f. Ret (buf @ le_bytes32 (f64_to_f32 f)))"
  "appendValue arch buf ''string'' v = (case v of VString s \<Rightarrow> Ret (buf @ len_prefixed (string_bytes s))
     | _ \<Rightarrow> Fail (TypeMismatch ''string'' v))"
  "appendValue arch buf ''bytes'' v = (case v of VBytes b \<Rightarrow> Ret (buf @ len_prefixed b)
     | _ \<Rightarrow> Fail (TypeMismatch ''bytes'' v))"
  by (simp_all add: appendValue_def put_float len_prefixed_def split: gval.split)

lemma value_bytes_at [at_type]:
  "value_bytes arch ''bool'' v = varint (if v = VBool True then 1 else 0)"
  "value_bytes arch ''int32'' v = varint (i64_of arch v)"
  "value_bytes arch ''int64'' v = varint (i64_of arch v)"
  "value_bytes arch ''uint32'' v = varint (u64_of arch v)"
  "value_bytes arch ''uint64'' v = varint (u64_of arch v)"
  "value_bytes arch ''sint32'' v = varint (ucast (zigzag32 (ucast (i64_of arch v))))"
  "value_bytes arch ''sint64'' v = varint (zigzag64 (i64_of arch v))"
  "value_bytes arch ''float'' v = le_bytes32 (f64_to_f32 (f64_of v))"
  "value_bytes arch ''string'' v = (case v of VString s \<Rightarrow> len_prefixed (string_bytes s) | _ \<Rightarrow> [])"
  "value_bytes arch ''bytes'' v = (case v of VBytes b \<Rightarrow> len_prefixed b | _ \<Rightarrow> [])"
  by (simp_all add: value_bytes_def)

lemma received_at [at_type]:
  "received arch ''bool'' v = v"
  "received arch ''int32'' v = VInt64 (scast (ucast (i64_of arch v) :: u32))"
  "received arch ''int64'' v = VInt64 (i64_of arch v)"
  "received arch ''uint32'' v = VUint64 (ucast (ucast (u64_of arch v) :: u32))"
  "received arch ''uint64'' v = VUint64 (u64_of arch v)"
  "received arch ''sint32'' v = VInt64 (scast (ucast (i64_of arch v) :: u32))"
  "received arch ''sint64'' v = VInt64 (i64_of arch v)"
  "received arch ''float'' v = VFloat64 (f32_to_f64 (f64_to_f32 (f64_of v)))"
  "received arch ''string'' v = v"
  "received arch ''bytes'' v = v"
  by (simp_all add: received_def)

lemma encodable_type: "encodable arch typ v \<Longrightarrow> typ \<in> proto_types"
  by (auto simp: encodable_def proto_types_def split: if_splits)

lemma wireTypeFor_type: "typ \<in> proto_types \<longleftrightarrow> (\<exists>wt. wireTypeFor typ = Ret wt)"
  by (auto simp: wireTypeFor_def proto_types_def)

lemma proto_type_cases [case_names bool int32 int64 uint32 uint64 sint32 sint64 float string bytes]:
  assumes "typ \<in> proto_types" "P ''bool''" "P ''int32''" "P ''int64''" "P ''uint32''" "P ''uint64''"
    "P ''sint32''" "P ''sint64''" "P ''float''" "P ''string''" "P ''bytes''"
  shows "P typ"
  using assms unfolding proto_types_def by (elim insertE) simp_all

lemma appendValue_encodable:
  assumes "encodable arch typ v"
  shows "appendValue arch buf typ v = Ret (buf @ value_bytes arch typ v)"
proof -
  have "encodable arch typ v \<longrightarrow> appendValue arch buf typ v = Ret (buf @ value_bytes arch typ v)"
    using encodable_type [OF assms]
    by (cases rule: proto_type_cases) (auto simp: at_type returns_def i64_of_def u64_of_def f64_of_def)
  with assms show ?thesis by blast
qed

lemma appendValue_not_encodable:
  assumes "\<not> encodable arch typ v"
  shows "\<exists>e. appendValue arch buf typ v = Fail e"
proof (cases "typ \<in> proto_types")
  case True
  have out: "(\<exists>x. m = Ret x) \<or> (\<exists>e. m = Fail e)" if "m \<noteq> Panic" for m :: "(proto_error, u64) outcome"
    using that by (cases m) auto
  from True have "\<not> encodable arch typ v \<longrightarrow> (\<exists>e. appendValue arch buf typ v = Fail e)"
    using out [of "toInt64 arch v"] out [of "toUint64 arch v"] out [of "toFloat64 v"]
    by (cases rule: proto_type_cases) (auto simp: at_type returns_def split: gval.split)
  with assms show ?thesis by blast
next
  case False
  then show ?thesis by (simp add: appendValue_def proto_types_def)
qed

lemma wireTypeFor_cases:
  assumes "wireTypeFor typ = Ret wt"
  obtains (num) "typ \<in> {''bool'', ''int32'', ''int64'', ''uint32'', ''uint64'', ''sint32'', ''sint64''}"
      "wt = wireVarint"
    | (float) "typ = ''float''" "wt = wireFixed32"
    | (len) "typ \<in> {''string'', ''bytes''}" "wt = wireLen"
  using assms unfolding wireTypeFor_def by (auto split: if_splits)

lemma wireTypeFor_range: "wireTypeFor typ = Ret wt \<Longrightarrow> 0 \<le> wt \<and> wt < 8"
  by (auto simp: wireTypeFor_def wire_type_consts split: if_splits)

lemma encodable_typed: "encodable arch typ v \<Longrightarrow> \<exists>wt. wireTypeFor typ = Ret wt"
  by (auto simp: encodable_def wireTypeFor_def split: if_splits)

section \<open>How much a value occupies\<close>

text \<open>
  The extent of a value of a wire type at the front of a buffer; \<open>skipField\<close> and \<open>decodeValue\<close>
  are both shown to consume it.
\<close>

definition extent :: "bytes \<Rightarrow> int \<Rightarrow> nat option" where
  "extent data wt =
     (if wt = 0 then map_option snd (readVarint data)
      else if wt = 5 then (if 4 \<le> length data then Some 4 else None)
      else if wt = 2 then
        (case readVarint data of
           None \<Rightarrow> None
         | Some (l, n) \<Rightarrow> if unat l \<le> length data - n then Some (n + unat l) else None)
      else None)"

lemma extent_bounds: "extent data wt = Some k \<Longrightarrow> 0 < k \<and> k \<le> length data"
  using readVarint_bounds [of data]
  by (auto simp: extent_def split: if_splits option.splits)

lemma extent_take:
  assumes "extent data wt = Some k"
  shows "extent (take k data @ rest) wt = Some k"
proof -
  consider (v) n v where "wt = 0" "readVarint data = Some (v, n)" "k = n"
    | (f) "wt = 5" "4 \<le> length data" "k = 4"
    | (l) l n where "wt = 2" "readVarint data = Some (l, n)" "unat l \<le> length data - n" "k = n + unat l"
    using assms by (auto simp: extent_def split: if_splits option.splits)
  then show ?thesis
  proof cases
    case v
    then show ?thesis by (simp add: extent_def readVarint_take)
  next
    case f
    then show ?thesis by (simp add: extent_def)
  next
    case l
    note b = readVarint_bounds [OF l(2)]
    have "take k data = take n data @ take (unat l) (drop n data)"
      by (simp add: l(4) take_add)
    then have "readVarint (take k data @ rest) = Some (l, n)"
      using readVarint_take [OF l(2)] by simp
    then show ?thesis using l b by (simp add: extent_def)
  qed
qed

lemma len_guard_iff:
  assumes "readVarint data = Some (l, n)" "in_memory data"
  shows "l > of_int (int (length data) - int n) \<longleftrightarrow> \<not> unat l \<le> length data - n"
proof -
  have n: "n \<le> length data" using readVarint_bounds [OF assms(1)] by simp
  have "l > of_int (int (length data) - int n) \<longleftrightarrow> uint l > int (length data) - int n"
    using n assms(2) by (intro u64_of_int_small) simp_all
  also have "\<dots> \<longleftrightarrow> int (unat l) > int (length data - n)" using n by (simp add: of_nat_diff)
  also have "\<dots> \<longleftrightarrow> \<not> unat l \<le> length data - n" by (simp only: of_nat_less_iff not_le)
  finally show ?thesis .
qed

lemma len_sint:
  assumes "readVarint data = Some (l, n)" "in_memory data" "unat l \<le> length data - n"
  shows "sint l = int (unat l)"
  using len_guard(1) [OF assms(1,2)] assms len_guard_iff [OF assms(1,2)] by blast

theorem skipField_extent:
  assumes "in_memory data"
  shows "skipField data wt = Ret c \<longleftrightarrow> (\<exists>k. extent data wt = Some k \<and> c = int k)"
    and "skipField data wt \<noteq> Panic"
proof -
  show "skipField data wt \<noteq> Panic"
    by (auto simp: skipField_def split: option.split)
  have "skipField data wt = Ret c \<longleftrightarrow> (\<exists>k. extent data wt = Some k \<and> c = int k)"
  proof (cases "readVarint data")
    case None
    then show ?thesis by (auto simp: skipField_def extent_def wire_type_consts)
  next
    case (Some ln)
    obtain l n where ln: "readVarint data = Some (l, n)" using Some by (cases ln) simp
    show ?thesis
      using len_guard_iff [OF ln assms] len_sint [OF ln assms]
      by (auto simp: skipField_def extent_def wire_type_consts ln)
  qed
  then show "skipField data wt = Ret c \<longleftrightarrow> (\<exists>k. extent data wt = Some k \<and> c = int k)" .
qed

section \<open>Decoding at each type\<close>

text \<open>The value the decoder makes of the bytes of one field.\<close>

definition first_varint :: "bytes \<Rightarrow> u64" where
  "first_varint b = (case readVarint b of Some (v, _) \<Rightarrow> v | None \<Rightarrow> 0)"

definition after_length :: "bytes \<Rightarrow> bytes" where
  "after_length b = (case readVarint b of Some (_, n) \<Rightarrow> drop n b | None \<Rightarrow> [])"

definition first_fixed32 :: "bytes \<Rightarrow> u32" where
  "first_fixed32 b = le_word32 (b ! 0) (b ! 1) (b ! 2) (b ! 3)"

definition value_of :: "string \<Rightarrow> bytes \<Rightarrow> gval" where
  "value_of typ b =
     (if typ = ''bool'' then VBool (first_varint b \<noteq> 0)
      else if typ = ''int32'' then VInt64 (scast (ucast (first_varint b) :: u32))
      else if typ = ''int64'' then VInt64 (first_varint b)
      else if typ = ''uint32'' then VUint64 (ucast (ucast (first_varint b) :: u32))
      else if typ = ''uint64'' then VUint64 (first_varint b)
      else if typ = ''sint32'' then VInt64 (scast (unzigzag32 (ucast (first_varint b))))
      else if typ = ''sint64'' then VInt64 (unzigzag64 (first_varint b))
      else if typ = ''float'' then VFloat64 (f32_to_f64 (first_fixed32 b))
      else if typ = ''string'' then VString (bytes_string (after_length b))
      else VBytes (after_length b))"

lemma value_of_at [at_type]:
  "value_of ''bool'' b = VBool (first_varint b \<noteq> 0)"
  "value_of ''int32'' b = VInt64 (scast (ucast (first_varint b) :: u32))"
  "value_of ''int64'' b = VInt64 (first_varint b)"
  "value_of ''uint32'' b = VUint64 (ucast (ucast (first_varint b) :: u32))"
  "value_of ''uint64'' b = VUint64 (first_varint b)"
  "value_of ''sint32'' b = VInt64 (scast (unzigzag32 (ucast (first_varint b))))"
  "value_of ''sint64'' b = VInt64 (unzigzag64 (first_varint b))"
  "value_of ''float'' b = VFloat64 (f32_to_f64 (first_fixed32 b))"
  "value_of ''string'' b = VString (bytes_string (after_length b))"
  "value_of ''bytes'' b = VBytes (after_length b)"
  by (simp_all add: value_of_def)

lemma decodeVarintValue_extent:
  "decodeVarintValue data typ mk =
     (case extent data 0 of None \<Rightarrow> Fail (Truncated typ)
      | Some k \<Rightarrow> Ret (mk (first_varint (take k data)), int k))"
proof (cases "readVarint data")
  case (Some vn)
  then obtain v n where r: "readVarint data = Some (v, n)" by (cases vn) simp
  then have "readVarint (take n data) = Some (v, n)" using readVarint_take [OF r, of "[]"] by simp
  then show ?thesis by (simp add: decodeVarintValue_def extent_def first_varint_def r)
qed (simp add: decodeVarintValue_def extent_def)

lemma four_bytes:
  assumes "4 \<le> length (data :: bytes)"
  shows "go_bind (go_slice data 0 4) (\<lambda>d. go_bind (le_uint32 d) f) = f (first_fixed32 (take 4 data))"
proof -
  obtain b0 b1 b2 b3 rest where "data = b0 # b1 # b2 # b3 # rest"
    using assms by (auto simp: eval_nat_numeral Suc_le_length_iff)
  then show ?thesis by (simp add: go_slice_def first_fixed32_def)
qed

lemma len_slice:
  assumes "readVarint data = Some (l, n)" "in_memory data" "unat l \<le> length data - n"
  shows "go_slice data (int n) (int n + sint l) = Ret (after_length (take (n + unat l) data))"
    and "length (after_length (take (n + unat l) data)) = unat l"
proof -
  note b = readVarint_bounds [OF assms(1)]
  have "take (n + unat l) data = take n data @ take (unat l) (drop n data)" by (simp add: take_add)
  then have "readVarint (take (n + unat l) data) = Some (l, n)"
    using readVarint_take [OF assms(1)] by simp
  then have a: "after_length (take (n + unat l) data) = take (unat l) (drop n data)"
    by (simp add: after_length_def drop_take)
  show "go_slice data (int n) (int n + sint l) = Ret (after_length (take (n + unat l) data))"
    unfolding a len_sint [OF assms] of_nat_add [symmetric] using b assms(3)
    by (simp add: go_slice_def le_diff_conv2 del: of_nat_unat)
  show "length (after_length (take (n + unat l) data)) = unat l"
    unfolding a using assms(3) by simp
qed

theorem decodeValue_extent:
  assumes mem: "in_memory data" and wt: "wireTypeFor typ = Ret wt"
  shows "(\<forall>k. extent data wt = Some k \<longrightarrow>
      decodeValue data typ wt = Ret (value_of typ (take k data), int k))
    \<and> (extent data wt = None \<longrightarrow> (\<exists>e. decodeValue data typ wt = Fail e))"
proof -
  have num: "(\<forall>k. extent data 0 = Some k \<longrightarrow>
        decodeVarintValue data t mk = Ret (mk (first_varint (take k data)), int k))
      \<and> (extent data 0 = None \<longrightarrow> (\<exists>e. decodeVarintValue data t mk = Fail e))" for t mk
    by (simp add: decodeVarintValue_extent)
  have len: "(\<forall>k. extent data 2 = Some k \<longrightarrow>
        decodeValue data t 2 = Ret (value_of t (take k data), int k))
      \<and> (extent data 2 = None \<longrightarrow> (\<exists>e. decodeValue data t 2 = Fail e))"
    if t: "t = ''string'' \<or> t = ''bytes''" for t
  proof (cases "readVarint data")
    case None
    with t show ?thesis by (auto simp: decodeValue_def at_type extent_def)
  next
    case (Some ln)
    then obtain l n where r: "readVarint data = Some (l, n)" by (cases ln) simp
    show ?thesis
    proof (cases "unat l \<le> length data - n")
      case True
      note s = len_slice [OF r mem True] and i = len_sint [OF r mem True]
      have make: "go_make (sint l) =
          (Ret (replicate (length (after_length (take (n + unat l) data))) 0) :: (proto_error, _) outcome)"
        unfolding i s(2) go_make_def by (simp del: of_nat_unat)
      have u: "uint l = sint l" using i by simp
      have "\<not> l > of_int (int (length data) - int n)"
        using len_guard_iff [OF r mem] True by blast
      then show ?thesis
        using t True by (auto simp: decodeValue_def at_type extent_def r copy_all u s(1) make)
    next
      case False
      then have "l > of_int (int (length data) - int n)"
        using len_guard_iff [OF r mem] by blast
      with False t show ?thesis by (auto simp: decodeValue_def at_type extent_def r)
    qed
  qed
  have "typ \<in> proto_types" using wt wireTypeFor_type by blast
  then have "\<forall>wt. wireTypeFor typ = Ret wt \<longrightarrow>
     (\<forall>k. extent data wt = Some k \<longrightarrow>
      decodeValue data typ wt = Ret (value_of typ (take k data), int k))
    \<and> (extent data wt = None \<longrightarrow> (\<exists>e. decodeValue data typ wt = Fail e))"
    using len [of "''string''"] len [of "''bytes''"]
    by (cases rule: proto_type_cases)
      (use num in \<open>auto simp: at_type decodeValue_def four_bytes extent_def\<close>)
  with wt show ?thesis by blast
qed

lemma decodeValue_wrong_type:
  "wireTypeFor typ = Ret wt' \<Longrightarrow> wt \<noteq> wt' \<Longrightarrow>
   decodeValue data typ wt = Fail (WireTypeMismatch wt typ wt')"
  by (simp add: decodeValue_def)

text \<open>Success and failure in one view: the extent decides, for known and unknown fields alike.\<close>

lemma decodeValue_Ret_iff:
  assumes "in_memory data" "wireTypeFor typ = Ret wt'"
  shows "decodeValue data typ wt = Ret (v, c) \<longleftrightarrow>
    wt = wt' \<and> (\<exists>k. extent data wt = Some k \<and> v = value_of typ (take k data) \<and> c = int k)"
proof (cases "wt = wt'")
  case True
  then show ?thesis
    using decodeValue_extent [OF assms] by (cases "extent data wt") auto
next
  case False
  then show ?thesis using decodeValue_wrong_type [OF assms(2)] by simp
qed

lemma decodeValue_no_panic:
  assumes "in_memory data"
  shows "decodeValue data typ wt \<noteq> Panic"
proof (cases "typ \<in> proto_types")
  case True
  then obtain wt' where w: "wireTypeFor typ = Ret wt'" using wireTypeFor_type by blast
  show ?thesis
  proof (cases "wt = wt'")
    case True
    then show ?thesis using decodeValue_extent [OF assms w] by (cases "extent data wt") auto
  next
    case False
    then show ?thesis using decodeValue_wrong_type [OF w] by simp
  qed
next
  case False
  then have "wireTypeFor typ = Fail (NoWireType typ)" by (simp add: wireTypeFor_def proto_types_def)
  then show ?thesis by (simp add: decodeValue_def)
qed


section \<open>A value over the wire\<close>

lemma ucast_ucast_32 [simp]: "ucast (ucast (w :: u32) :: u64) = w"
  by (rule bit_word_eqI) (simp add: bit_simps)

lemma first_varint_varint [simp]: "first_varint (varint v) = v"
  using readVarint_varint [of v "[]"] by (simp add: first_varint_def del: readVarint_varint)

lemma after_length_len_prefixed [simp]: "after_length (len_prefixed b) = b"
  using readVarint_len_prefixed [of b "[]"]
  by (simp add: after_length_def len_prefixed_def del: readVarint_len_prefixed)

lemma first_fixed32_le [simp]: "first_fixed32 (le_bytes32 w) = w"
  by (simp add: first_fixed32_def le_bytes32_def le_word32_bytes)

lemma extent_varint: "extent (varint v @ rest) 0 = Some (length (varint v))"
  by (simp add: extent_def)

lemma extent_fixed: "extent (le_bytes32 w @ rest) 5 = Some 4"
  by (simp add: extent_def)

lemma extent_len_prefixed:
  assumes "in_memory (len_prefixed b)"
  shows "extent (len_prefixed b @ rest) 2 = Some (length (len_prefixed b))"
proof -
  have "length b < 2 ^ 64" using assms length_len_prefixed [of b] by simp
  then have "unat (of_nat (length b) :: u64) = length b"
    by (subst unsigned_of_nat) (simp add: take_bit_nat_eq_self_iff)
  then show ?thesis using length_len_prefixed [of b] by (simp add: extent_def)
qed

lemma encodable_wire:
  assumes "encodable arch typ v" "in_memory (value_bytes arch typ v)" "wireTypeFor typ = Ret wt"
  shows "extent (value_bytes arch typ v @ rest) wt = Some (length (value_bytes arch typ v))"
    and "value_of typ (value_bytes arch typ v) = received arch typ v"
proof -
  let ?b = "value_bytes arch typ v"
  have "encodable arch typ v \<longrightarrow> in_memory (value_bytes arch typ v) \<longrightarrow> (\<forall>wt. wireTypeFor typ = Ret wt \<longrightarrow>
      extent (value_bytes arch typ v @ rest) wt = Some (length (value_bytes arch typ v))
      \<and> value_of typ (value_bytes arch typ v) = received arch typ v)"
    using encodable_type [OF assms(1)]
    by (cases rule: proto_type_cases)
      (auto simp: at_type extent_varint extent_fixed extent_len_prefixed)
  with assms show "extent (?b @ rest) wt = Some (length ?b)"
    "value_of typ ?b = received arch typ v" by blast+
qed

theorem decode_encoded_value:
  assumes "encodable arch typ v" "wireTypeFor typ = Ret wt" "in_memory (value_bytes arch typ v @ rest)"
  shows "decodeValue (value_bytes arch typ v @ rest) typ wt =
    Ret (received arch typ v, int (length (value_bytes arch typ v)))"
proof -
  have mem: "in_memory (value_bytes arch typ v)" using assms(3) by simp
  note w = encodable_wire [OF assms(1) mem assms(2)]
  show ?thesis using decodeValue_extent [OF assms(3,2)] w by simp
qed

lemma value_bytes_nonempty:
  assumes "encodable arch typ v"
  shows "value_bytes arch typ v \<noteq> []"
proof -
  have "varint w \<noteq> []" for w using length_varint(1) [of w] by auto
  moreover have "len_prefixed b \<noteq> []" for b using length_len_prefixed [of b] by auto
  moreover have "le_bytes32 w \<noteq> []" for w by (simp add: le_bytes32_def)
  ultimately have "encodable arch typ v \<longrightarrow> value_bytes arch typ v \<noteq> []"
    using encodable_type [OF assms] by (cases rule: proto_type_cases) (auto simp: at_type)
  with assms show ?thesis by blast
qed

end
