(* ===== verification/Proto.thy ===== *)
theory Proto
  imports Proto_Values Schema
begin

text \<open>
  Message bodies of \<open>bridges/mqtt-go/proto.go\<close>: \<open>EncodeProto\<close> and \<open>DecodeProto\<close>.  A Go map from
  field names to values is a partial function.  The decoder's loop is a \<open>partial_function\<close>, so that
  a loop that never ends is the value \<open>None\<close>; \<open>get_field\<close> is the abstract parser of one field, an
  instance of \<open>prefix_codec\<close>, and the loop is shown to return what \<open>get_all\<close> parses.
\<close>

section \<open>Code\<close>

text \<open>One element: tag and value, with the error wrapped by \<open>field %q: %w\<close>.\<close>

definition appendElement ::
  "go_arch \<Rightarrow> SchemaField \<Rightarrow> int \<Rightarrow> gval \<Rightarrow> bytes \<Rightarrow> (proto_error, bytes) outcome" where
  "appendElement arch f wt v buf =
     go_wrap (InField (Name f)) (appendValue arch (appendTag buf (Tag f) wt) (Type f) v)"

definition encodeField ::
  "go_arch \<Rightarrow> (string \<rightharpoonup> gval) \<Rightarrow> SchemaField \<Rightarrow> bytes \<Rightarrow> (proto_error, bytes) outcome" where
  "encodeField arch vals f buf =
     (case vals (Name f) of
        None \<Rightarrow> Ret buf
      | Some v \<Rightarrow>
          go_bind (wireTypeFor (Type f)) (\<lambda>wt.
          if Repeated f then
            (case v of
               VList arr \<Rightarrow> go_for (appendElement arch f wt) arr buf
             | _ \<Rightarrow> Fail (RepeatedNotList (Name f) v))
          else appendElement arch f wt v buf))"

definition EncodeProto :: "go_arch \<Rightarrow> Schema \<Rightarrow> (string \<rightharpoonup> gval) \<Rightarrow> (proto_error, bytes) outcome" where
  "EncodeProto arch s vals = go_for (encodeField arch vals) (Fields s) []"

text \<open>\<open>out[f.Name] = append(cur, val)\<close> or \<open>out[f.Name] = val\<close>\<close>

definition storeValue :: "SchemaField \<Rightarrow> gval \<Rightarrow> (string \<rightharpoonup> gval) \<Rightarrow> string \<rightharpoonup> gval" where
  "storeValue f val out =
     (if Repeated f then
        (let cur = (case out (Name f) of Some (VList xs) \<Rightarrow> xs | _ \<Rightarrow> [])
         in out(Name f \<mapsto> VList (cur @ [val])))
      else out(Name f \<mapsto> val))"

text \<open>The body of the loop \<open>for i < len(body)\<close>.\<close>

definition decodeField :: "Schema \<Rightarrow> bytes \<Rightarrow> int \<times> (string \<rightharpoonup> gval)
    \<Rightarrow> (proto_error, int \<times> (string \<rightharpoonup> gval)) outcome" where
  "decodeField s body = (\<lambda>(i, out).
     go_bind (go_from body i) (\<lambda>data.
     case readVarint data of
       None \<Rightarrow> Fail (TruncatedTag i)
     | Some (key, n) \<Rightarrow>
         let i = i + int n; field = ucast (drop_bit 3 key) :: u32; wt = uint (key AND 7)
         in go_bind (go_from body i) (\<lambda>data.
            case byTag s field of
              None \<Rightarrow>
                go_bind (go_wrap (SkipUnknown field) (skipField data wt)) (\<lambda>skip.
                Ret (i + skip, out))
            | Some idx \<Rightarrow>
                go_bind (go_at (Fields s) idx) (\<lambda>f.
                go_bind (go_wrap (InField (Name f)) (decodeValue data (Type f) wt)) (\<lambda>(val, consumed).
                Ret (i + consumed, storeValue f val out))))))"

partial_function (option) DecodeProto_loop :: "Schema \<Rightarrow> bytes \<Rightarrow> int \<times> (string \<rightharpoonup> gval)
    \<Rightarrow> (proto_error, string \<rightharpoonup> gval) outcome option" where
  "DecodeProto_loop s body st =
     (if fst st < int (length body) then
        (case decodeField s body st of
           Ret st' \<Rightarrow> DecodeProto_loop s body st'
         | Fail e \<Rightarrow> Some (Fail e)
         | Panic \<Rightarrow> Some Panic)
      else Some (Ret (snd st)))"

definition DecodeProto :: "Schema \<Rightarrow> bytes \<Rightarrow> (proto_error, string \<rightharpoonup> gval) outcome option" where
  "DecodeProto s body = DecodeProto_loop s body (0, Map.empty)"


section \<open>One field as a codec\<close>

datatype field_event = Known nat gval | Unknown u32 int

text \<open>What a field with this number and wire type means, given the bytes of its value.\<close>

definition field_meaning :: "Schema \<Rightarrow> u32 \<Rightarrow> int \<Rightarrow> bytes \<Rightarrow> field_event option" where
  "field_meaning s field wt b =
     (case byTag s field of
        None \<Rightarrow> Some (Unknown field wt)
      | Some idx \<Rightarrow>
          if wireTypeFor (Type (Fields s ! idx)) = Ret wt
          then Some (Known idx (value_of (Type (Fields s ! idx)) b)) else None)"

definition get_value :: "Schema \<Rightarrow> u64 \<Rightarrow> bytes \<Rightarrow> (field_event \<times> nat) option" where
  "get_value s key data =
     (case extent data (uint (key AND 7)) of
        None \<Rightarrow> None
      | Some k \<Rightarrow> map_option (\<lambda>ev. (ev, k))
          (field_meaning s (ucast (drop_bit 3 key)) (uint (key AND 7)) (take k data)))"

definition get_field :: "Schema \<Rightarrow> bytes \<Rightarrow> (field_event \<times> nat) option" where
  "get_field s data =
     (case readVarint data of
        None \<Rightarrow> None
      | Some (key, n) \<Rightarrow> map_option (\<lambda>(ev, k). (ev, n + k)) (get_value s key (drop n data)))"

definition element_bytes :: "go_arch \<Rightarrow> SchemaField \<Rightarrow> gval \<Rightarrow> bytes" where
  "element_bytes arch f v =
     (case wireTypeFor (Type f) of
        Ret wt \<Rightarrow> varint (tag_key (Tag f) wt) @ value_bytes arch (Type f) v
      | _ \<Rightarrow> [])"

definition put_field :: "go_arch \<Rightarrow> Schema \<Rightarrow> nat \<times> gval \<Rightarrow> bytes" where
  "put_field arch s = (\<lambda>(idx, v). element_bytes arch (Fields s ! idx) v)"

text \<open>
  Sender and receiver may have different versions of a schema, as long as a tag they share means the
  same field to both.  The receiver knows a sent field by its tag or skips it.
\<close>

definition compatible :: "Schema \<Rightarrow> Schema \<Rightarrow> bool" where
  "compatible s r \<longleftrightarrow> (\<forall>f\<in>set (Fields s). \<forall>g\<in>set (Fields r). Tag f = Tag g \<longrightarrow> f = g)"

definition field_view :: "go_arch \<Rightarrow> Schema \<Rightarrow> Schema \<Rightarrow> nat \<times> gval \<Rightarrow> field_event" where
  "field_view arch s r = (\<lambda>(idx, v).
     let f = Fields s ! idx in
     case byTag r (Tag f) of
       Some j \<Rightarrow> Known j (received arch (Type f) v)
     | None \<Rightarrow> Unknown (Tag f) (case wireTypeFor (Type f) of Ret wt \<Rightarrow> wt | _ \<Rightarrow> 0))"

definition put_ok :: "go_arch \<Rightarrow> Schema \<Rightarrow> Schema \<Rightarrow> nat \<times> gval \<Rightarrow> bool" where
  "put_ok arch s r = (\<lambda>(idx, v). schema_wf r \<and> compatible s r \<and> idx < length (Fields s) \<and>
     encodable arch (Type (Fields s ! idx)) v \<and> in_memory (put_field arch s (idx, v)))"

lemma get_value_Some:
  "get_value s key data = Some (ev, k) \<longleftrightarrow>
     extent data (uint (key AND 7)) = Some k \<and>
     field_meaning s (ucast (drop_bit 3 key)) (uint (key AND 7)) (take k data) = Some ev"
  by (auto simp: get_value_def split: option.splits)

lemma get_field_Some:
  "get_field s data = Some (ev, n) \<longleftrightarrow>
     (\<exists>key m k. readVarint data = Some (key, m) \<and> get_value s key (drop m data) = Some (ev, k) \<and> n = m + k)"
  by (auto simp: get_field_def split: option.splits)

lemma get_field_bounds:
  "get_field s data = Some (ev, n) \<Longrightarrow> 0 < n \<and> n \<le> length data"
  using readVarint_bounds [of data] extent_bounds
  by (fastforce simp: get_field_Some get_value_Some)

lemma get_field_take:
  assumes "get_field s data = Some (ev, n)"
  shows "get_field s (take n data @ rest) = Some (ev, n)"
proof -
  obtain key m k where r: "readVarint data = Some (key, m)" and n: "n = m + k"
      and v: "get_value s key (drop m data) = Some (ev, k)"
    using assms by (auto simp: get_field_Some)
  then have e: "extent (drop m data) (uint (key AND 7)) = Some k" by (simp add: get_value_Some)
  have t: "take n data @ rest = take m data @ take k (drop m data) @ rest"
    by (simp add: n take_add)
  have m: "m \<le> length data" "k \<le> length (drop m data)"
    using readVarint_bounds [OF r] extent_bounds [OF e] by simp_all
  have r': "readVarint (take n data @ rest) = Some (key, m)"
    unfolding t using readVarint_take [OF r] by simp
  have d: "drop m (take n data @ rest) = take k (drop m data) @ rest"
    unfolding t using m by simp
  have "take k (take k (drop m data) @ rest) = take k (drop m data)" using m by simp
  then have "get_value s key (take k (drop m data) @ rest) = Some (ev, k)"
    using v extent_take [OF e] unfolding get_value_Some by (simp only:)
  with r' d n show ?thesis
    unfolding get_field_Some by (intro exI [of _ key] exI [of _ m] exI [of _ k] conjI) (simp_all only:)
qed

lemma get_put_field:
  assumes "put_ok arch s r x"
  shows "get_field r (put_field arch s x @ rest) = Some (field_view arch s r x, length (put_field arch s x))"
proof -
  obtain idx v where x: "x = (idx, v)" by (cases x)
  define f where "f = Fields s ! idx"
  have ok: "schema_wf r" "compatible s r" "f \<in> set (Fields s)" "encodable arch (Type f) v"
      "in_memory (put_field arch s x)"
    using assms by (auto simp: put_ok_def x f_def)
  obtain wt where wt: "wireTypeFor (Type f) = Ret wt"
    using ok(4) encodable_type wireTypeFor_type by blast
  then have range: "0 \<le> wt" "wt < 8" using wireTypeFor_range by auto
  let ?key = "tag_key (Tag f) wt" and ?b = "value_bytes arch (Type f) v"
  have put: "put_field arch s x = varint ?key @ ?b"
    by (simp add: put_field_def x element_bytes_def wt flip: f_def)
  have mem: "in_memory ?b" using ok(5) put by simp
  note w = encodable_wire [OF ok(4) mem wt]
  have "Fields r ! j = f" if "byTag r (Tag f) = Some j" for j
    using that ok(2,3) byTag_iff [OF ok(1)] unfolding compatible_def by (metis nth_mem)
  then have "field_meaning r (Tag f) wt ?b = Some (field_view arch s r x)"
    using wt w(2) by (auto simp: field_meaning_def field_view_def x Let_def simp flip: f_def
        split: option.split)
  then have "get_value r ?key (?b @ rest) = Some (field_view arch s r x, length ?b)"
    unfolding get_value_Some tag_key_field [OF range] tag_key_wt [OF range] using w(1) by simp
  then show ?thesis unfolding put get_field_Some by simp
qed

interpretation field: prefix_codec "put_field arch s" "get_field r" "field_view arch s r" "put_ok arch s r"
  for arch s r
  by unfold_locales (rule get_put_field get_field_bounds get_field_take, assumption)+

section \<open>The decoding loop returns what the fields parse to\<close>

definition apply_event :: "Schema \<Rightarrow> field_event \<Rightarrow> (string \<rightharpoonup> gval) \<Rightarrow> string \<rightharpoonup> gval" where
  "apply_event s ev out =
     (case ev of Known idx v \<Rightarrow> storeValue (Fields s ! idx) v out | Unknown _ _ \<Rightarrow> out)"

lemma byTag_in_range: "schema_wf s \<Longrightarrow> byTag s t = Some idx \<Longrightarrow> idx < length (Fields s)"
  by (simp add: byTag_iff)

lemma field_typed:
  "schema_wf s \<Longrightarrow> idx < length (Fields s) \<Longrightarrow> \<exists>wt. wireTypeFor (Type (Fields s ! idx)) = Ret wt"
proof -
  assume "schema_wf s" "idx < length (Fields s)"
  then have "Type (Fields s ! idx) \<in> validTypes"
    by (auto simp: schema_wf_def fields_ok_def field_ok_def)
  then show ?thesis using wireTypeFor_type by (simp add: validTypes_def proto_types_def)
qed

lemma go_from_nat: "i \<le> length xs \<Longrightarrow> go_from xs (int i) = Ret (drop i xs)"
  by (simp add: go_from_in)

lemma go_from_nat_add: "i + n \<le> length xs \<Longrightarrow> go_from xs (int i + int n) = Ret (drop (i + n) xs)"
  using go_from_nat [of "i + n" xs] by simp

lemma decodeField_get_field:
  assumes wf: "schema_wf s" and mem: "in_memory body" and i: "i \<le> length body"
  shows "case get_field s (drop i body) of
      Some (ev, n) \<Rightarrow> decodeField s body (int i, out) = Ret (int (i + n), apply_event s ev out)
    | None \<Rightarrow> \<exists>e. decodeField s body (int i, out) = Fail e"
proof (cases "readVarint (drop i body)")
  case None
  then have "get_field s (drop i body) = None" by (simp add: get_field_def)
  moreover have "decodeField s body (int i, out) = Fail (TruncatedTag (int i))"
    using None i by (simp add: decodeField_def go_from_nat)
  ultimately show ?thesis by simp
next
  case (Some kn)
  then obtain key n where r: "readVarint (drop i body) = Some (key, n)" by (cases kn) simp
  define fd where "fd = (ucast (drop_bit 3 key) :: u32)"
  define wt where "wt = uint (key AND 7)"
  define data where "data = drop (i + n) body"
  have n: "i + n \<le> length body" using readVarint_bounds [OF r] i unfolding length_drop by linarith
  have mem': "in_memory data" using mem by (simp add: data_def)

  have get: "get_field s (drop i body) = map_option (\<lambda>(ev, k). (ev, n + k)) (get_value s key data)"
    using i by (simp add: get_field_def r data_def add.commute)
  show ?thesis
  proof (cases "byTag s fd")
    case None
    have step: "decodeField s body (int i, out) =
        go_bind (go_wrap (SkipUnknown fd) (skipField data wt)) (\<lambda>skip. Ret (int i + int n + skip, out))"
      using i None n
      by (simp add: decodeField_def go_from_nat go_from_nat_add r Let_def data_def flip: fd_def wt_def)
    show ?thesis
    proof (cases "extent data wt")
      case e: None
      then have "skipField data wt \<noteq> Ret c" for c using skipField_extent [OF mem'] by simp
      then obtain e' where "skipField data wt = Fail e'"
        using skipField_extent(2) [OF mem'] by (cases "skipField data wt") auto
      then have "decodeField s body (int i, out) = Fail (SkipUnknown fd e')"
        unfolding step by simp
      moreover have "get_value s key data = None" using e by (simp add: get_value_def flip: wt_def)
      ultimately show ?thesis unfolding get by simp
    next
      case (Some k)
      then have "skipField data wt = Ret (int k)" using skipField_extent [OF mem'] by simp
      then have "decodeField s body (int i, out) = Ret (int (i + (n + k)), out)"
        unfolding step by simp
      moreover have "get_value s key data = Some (Unknown fd wt, k)"
        using Some None by (simp add: get_value_Some field_meaning_def flip: wt_def fd_def)
      ultimately show ?thesis unfolding get by (simp add: apply_event_def)
    qed
  next
    case (Some idx)
    define f where "f = Fields s ! idx"
    have idx: "idx < length (Fields s)" by (rule byTag_in_range [OF wf Some])
    obtain wt' where wt': "wireTypeFor (Type f) = Ret wt'"
      using field_typed [OF wf idx] by (auto simp: f_def)
    have step: "decodeField s body (int i, out) =
        go_bind (go_wrap (InField (Name f)) (decodeValue data (Type f) wt))
          (\<lambda>(val, consumed). Ret (int i + int n + consumed, storeValue f val out))"
      using i Some n idx
      by (simp add: decodeField_def go_from_nat go_from_nat_add r Let_def data_def go_at_in f_def flip: fd_def wt_def)
    show ?thesis
    proof (cases "get_value s key data")
      case None
      then have "decodeValue data (Type f) wt \<noteq> Ret vc" for vc
        using decodeValue_Ret_iff [OF mem' wt'] Some wt'
        by (cases vc) (auto simp: get_value_def field_meaning_def f_def simp flip: wt_def fd_def split: option.splits)
      then obtain e' where "decodeValue data (Type f) wt = Fail e'"
        using decodeValue_no_panic [OF mem'] by (cases "decodeValue data (Type f) wt") auto
      then have "decodeField s body (int i, out) = Fail (InField (Name f) e')"
        unfolding step by simp
      then show ?thesis unfolding get None by simp
    next
      case v: (Some evk)
      then obtain k where k: "extent data wt = Some k" "wireTypeFor (Type f) = Ret wt"
          "evk = (Known idx (value_of (Type f) (take k data)), k)"
        using Some by (cases evk) (auto simp: get_value_Some field_meaning_def f_def
            simp flip: wt_def fd_def split: if_splits)
      then have "decodeValue data (Type f) wt = Ret (value_of (Type f) (take k data), int k)"
        using decodeValue_Ret_iff [OF mem' wt'] wt' by simp
      then have "decodeField s body (int i, out) =
          Ret (int (i + (n + k)), storeValue f (value_of (Type f) (take k data)) out)"
        unfolding step by simp
      then show ?thesis unfolding get v k(3) by (simp add: apply_event_def f_def)
    qed
  qed
qed

lemma DecodeProto_loop_get_all:
  assumes wf: "schema_wf s" and mem: "in_memory body"
  shows "i \<le> length body \<Longrightarrow>
    (case field.get_all s (drop i body) of
       Some evs \<Rightarrow> DecodeProto_loop s body (int i, out) = Some (Ret (fold (apply_event s) evs out))
     | None \<Rightarrow> \<exists>e. DecodeProto_loop s body (int i, out) = Some (Fail e))"
proof (induction "length body - i" arbitrary: i out rule: less_induct)
  case less
  show ?case
  proof (cases "i = length body")
    case True
    then show ?thesis by (subst DecodeProto_loop.simps) simp
  next
    case False
    then have i: "i < length body" "drop i body \<noteq> []" using less.prems by auto
    note step = decodeField_get_field [OF wf mem less.prems, of out]
    show ?thesis
    proof (cases "get_field s (drop i body)")
      case None
      then obtain e where "decodeField s body (int i, out) = Fail e" using step by auto
      then have "DecodeProto_loop s body (int i, out) = Some (Fail e)"
        using i by (subst DecodeProto_loop.simps) simp
      then show ?thesis using field.get_all_stuck [OF i(2) None] by simp
    next
      case (Some evn)
      then obtain ev n where g: "get_field s (drop i body) = Some (ev, n)" by (cases evn) simp
      note n = get_field_bounds [OF g]
      have "decodeField s body (int i, out) = Ret (int (i + n), apply_event s ev out)"
        using step g by simp
      then have loop: "DecodeProto_loop s body (int i, out) =
          DecodeProto_loop s body (int (i + n), apply_event s ev out)"
        using i by (subst DecodeProto_loop.simps) simp
      have all: "field.get_all s (drop i body) = map_option ((#) ev) (field.get_all s (drop (i + n) body))"
        using field.get_all_step [OF g] by (simp add: add.commute)
      have "i + n \<le> length body" "length body - (i + n) < length body - i"
        using n i unfolding length_drop by linarith+
      from less.hyps [OF this(2,1), of "apply_event s ev out"] show ?thesis
        unfolding loop all by (cases "field.get_all s (drop (i + n) body)") simp_all
    qed
  qed
qed

theorem DecodeProto_get_all:
  assumes "schema_wf s" "in_memory body"
  shows "case field.get_all s body of
       Some evs \<Rightarrow> DecodeProto s body = Some (Ret (fold (apply_event s) evs Map.empty))
     | None \<Rightarrow> \<exists>e. DecodeProto s body = Some (Fail e)"
  using DecodeProto_loop_get_all [OF assms, of 0 Map.empty]
  by (cases "field.get_all s body") (simp_all add: DecodeProto_def)


section \<open>The encoder concatenates field encodings\<close>

text \<open>The elements EncodeProto writes, in order: index of the field and value.\<close>

definition field_elements :: "(string \<rightharpoonup> gval) \<Rightarrow> SchemaField \<Rightarrow> gval list" where
  "field_elements vals f =
     (case vals (Name f) of
        None \<Rightarrow> []
      | Some v \<Rightarrow> if Repeated f then (case v of VList arr \<Rightarrow> arr | _ \<Rightarrow> []) else [v])"

definition field_encodable :: "go_arch \<Rightarrow> (string \<rightharpoonup> gval) \<Rightarrow> SchemaField \<Rightarrow> bool" where
  "field_encodable arch vals f =
     (case vals (Name f) of
        None \<Rightarrow> True
      | Some v \<Rightarrow>
          if Repeated f then (case v of VList arr \<Rightarrow> \<forall>x\<in>set arr. encodable arch (Type f) x | _ \<Rightarrow> False)
          else encodable arch (Type f) v)"

lemma appendElement_Ret:
  assumes "wireTypeFor (Type f) = Ret wt" "encodable arch (Type f) v"
  shows "appendElement arch f wt v buf = Ret (buf @ element_bytes arch f v)"
  using wireTypeFor_range [OF assms(1)] assms
  by (simp add: appendElement_def appendValue_encodable appendTag_eq element_bytes_def)

lemma appendElement_Fail:
  "\<not> encodable arch (Type f) v \<Longrightarrow> \<exists>e. appendElement arch f wt v buf = Fail e"
  using appendValue_not_encodable [of arch "Type f" v "appendTag buf (Tag f) wt"]
  by (auto simp: appendElement_def)

lemma appendElements:
  assumes "wireTypeFor (Type f) = Ret wt"
  shows "if \<forall>x\<in>set arr. encodable arch (Type f) x
    then go_for (appendElement arch f wt) arr buf = Ret (buf @ concat (map (element_bytes arch f) arr))
    else \<exists>e. go_for (appendElement arch f wt) arr buf = Fail e"
proof (induction arr arbitrary: buf)
  case (Cons x arr)
  show ?case
  proof (cases "encodable arch (Type f) x")
    case True
    with Cons.IH [of "buf @ element_bytes arch f x"] show ?thesis
      by (simp add: appendElement_Ret [OF assms])
  next
    case False
    with appendElement_Fail [of arch f x wt buf] show ?thesis by auto
  qed
qed simp

lemma encodeField_eq:
  assumes "wireTypeFor (Type f) = Ret wt"
  shows "if field_encodable arch vals f
    then encodeField arch vals f buf =
      Ret (buf @ concat (map (element_bytes arch f) (field_elements vals f)))
    else \<exists>e. encodeField arch vals f buf = Fail e"
proof (cases "vals (Name f)")
  case None
  then show ?thesis by (simp add: encodeField_def field_encodable_def field_elements_def)
next
  case (Some v)
  show ?thesis
  proof (cases "Repeated f")
    case True
    then show ?thesis
      using Some assms appendElements [OF assms, of "case v of VList arr \<Rightarrow> arr" arch buf]
      by (auto simp: encodeField_def field_encodable_def field_elements_def split: gval.splits)
  next
    case False
    then show ?thesis
      using Some assms appendElement_Ret [OF assms, of arch v buf] appendElement_Fail [of arch f v wt buf]
      by (simp add: encodeField_def field_encodable_def field_elements_def)
  qed
qed

lemma encodeFields_eq:
  assumes "\<forall>f\<in>set fs. \<exists>wt. wireTypeFor (Type f) = Ret wt"
  shows "if \<forall>f\<in>set fs. field_encodable arch vals f
    then go_for (encodeField arch vals) fs buf =
      Ret (buf @ concat (map (\<lambda>f. concat (map (element_bytes arch f) (field_elements vals f))) fs))
    else \<exists>e. go_for (encodeField arch vals) fs buf = Fail e"
  using assms
proof (induction fs arbitrary: buf)
  case (Cons f fs)
  then obtain wt where wt: "wireTypeFor (Type f) = Ret wt" by auto
  note e = encodeField_eq [OF wt, of arch vals buf]
  show ?case
  proof (cases "field_encodable arch vals f")
    case True
    with e Cons.IH [of "buf @ concat (map (element_bytes arch f) (field_elements vals f))"] Cons.prems
    show ?thesis by simp
  next
    case False
    with e show ?thesis by auto
  qed
qed simp

section \<open>A message over the wire\<close>

definition message_elements :: "(string \<rightharpoonup> gval) \<Rightarrow> Schema \<Rightarrow> (nat \<times> gval) list" where
  "message_elements vals s =
     concat (map (\<lambda>idx. map (Pair idx) (field_elements vals (Fields s ! idx))) [0..<length (Fields s)])"

lemma map_upt_nth: "map (\<lambda>i. g (xs ! i)) [0..<length xs] = map g xs"
  by (rule nth_equalityI) simp_all

lemma concat_map_concat: "concat (map h (concat xss)) = concat (map (\<lambda>xs. concat (map h xs)) xss)"
  by (induction xss) simp_all

lemma message_bytes:
  "concat (map (put_field arch s) (message_elements vals s)) =
   concat (map (\<lambda>f. concat (map (element_bytes arch f) (field_elements vals f))) (Fields s))"
  unfolding message_elements_def concat_map_concat
  by (simp add: comp_def put_field_def
      flip: map_upt_nth [of "\<lambda>f. concat (map (element_bytes arch f) (field_elements vals f))"])

lemma EncodeProto_eq:
  assumes "schema_wf s"
  shows "if \<forall>f\<in>set (Fields s). field_encodable arch vals f
    then EncodeProto arch s vals = Ret (concat (map (put_field arch s) (message_elements vals s)))
    else \<exists>e. EncodeProto arch s vals = Fail e"
proof -
  have "\<forall>f\<in>set (Fields s). \<exists>wt. wireTypeFor (Type f) = Ret wt"
    using field_typed [OF assms] by (auto simp: in_set_conv_nth)
  from encodeFields_eq [OF this, of arch vals "[]"] show ?thesis
    by (simp add: EncodeProto_def message_bytes)
qed

lemma message_elements_ok:
  assumes "schema_wf r" "compatible s r" "\<forall>f\<in>set (Fields s). field_encodable arch vals f"
    and "in_memory (concat (map (put_field arch s) (message_elements vals s)))"
  shows "\<forall>x\<in>set (message_elements vals s). put_ok arch s r x"
proof
  fix x assume x: "x \<in> set (message_elements vals s)"
  then obtain idx v where v: "x = (idx, v)" "idx < length (Fields s)"
      "v \<in> set (field_elements vals (Fields s ! idx))"
    by (auto simp: message_elements_def)
  then have "field_encodable arch vals (Fields s ! idx)" using assms(3) by simp
  then have "encodable arch (Type (Fields s ! idx)) v"
    using v(3) by (auto simp: field_encodable_def field_elements_def split: option.splits if_splits gval.splits)
  moreover have "length (put_field arch s x) \<le> length (concat (map (put_field arch s) (message_elements vals s)))"
    using x by (simp add: length_concat comp_def member_le_sum_list)
  ultimately show "put_ok arch s r x" using assms v by (simp add: put_ok_def)
qed

text \<open>What arrives under the name of a field.\<close>

definition received_field :: "go_arch \<Rightarrow> (string \<rightharpoonup> gval) \<Rightarrow> SchemaField \<Rightarrow> gval option" where
  "received_field arch vals f =
     (case field_elements vals f of
        [] \<Rightarrow> None
      | v # vs \<Rightarrow> Some (if Repeated f then VList (map (received arch (Type f)) (v # vs))
                     else received arch (Type f) v))"

definition received_map :: "go_arch \<Rightarrow> (string \<rightharpoonup> gval) \<Rightarrow> SchemaField list \<Rightarrow> string \<rightharpoonup> gval" where
  "received_map arch vals fs n =
     (case map_of (map (\<lambda>f. (Name f, received_field arch vals f)) fs) n of
        None \<Rightarrow> None
      | Some r \<Rightarrow> r)"

lemma received_map_known:
  assumes "fields_ok flds" "f \<in> set flds"
  shows "received_map arch vals flds (Name f) = received_field arch vals f"
proof -
  have "distinct (map fst (map (\<lambda>f. (Name f, received_field arch vals f)) flds))"
    using assms(1) by (simp add: fields_ok_def comp_def)
  from map_of_is_SomeI [OF this, of "Name f" "received_field arch vals f"] assms(2)
  show ?thesis by (auto simp: received_map_def)
qed

lemma received_map_unknown:
  assumes "\<forall>f\<in>set flds. Name f \<noteq> n"
  shows "received_map arch vals flds n = None"
proof -
  have "map_of (map (\<lambda>f. (Name f, received_field arch vals f)) flds) n = None"
    using assms by (auto simp: map_of_eq_None_iff)
  then show ?thesis by (simp add: received_map_def)
qed

lemma fold_store_repeated:
  assumes "Repeated f" "out (Name f) = Some (VList ws)"
  shows "fold (storeValue f) vs out = out(Name f \<mapsto> VList (ws @ vs))"
  using assms(2)
proof (induction vs arbitrary: out ws)
  case (Cons v vs)
  have step: "storeValue f v out = out(Name f \<mapsto> VList (ws @ [v]))"
    using assms(1) Cons.prems by (simp add: storeValue_def)
  have "fold (storeValue f) vs (out(Name f \<mapsto> VList (ws @ [v]))) =
      out(Name f \<mapsto> VList (ws @ [v]), Name f \<mapsto> VList ((ws @ [v]) @ vs))"
    by (rule Cons.IH) simp
  then show ?case by (simp only: fold_simps step fun_upd_upd append_assoc append_Cons append_Nil)
qed (simp add: fun_upd_idem)

lemma field_elements_single: "\<not> Repeated f \<Longrightarrow> length (field_elements vals f) \<le> 1"
  by (simp add: field_elements_def split: option.split)

lemma fold_store_field:
  assumes "out (Name f) = None"
  shows "fold (storeValue f) (map (received arch (Type f)) (field_elements vals f)) out =
    out(Name f := received_field arch vals f)"
proof (cases "field_elements vals f")
  case Nil
  then show ?thesis using assms by (simp add: received_field_def fun_upd_idem)
next
  case (Cons v vs)
  show ?thesis
  proof (cases "Repeated f")
    case True
    have "storeValue f w out = out(Name f \<mapsto> VList [w])" for w
      using True assms by (simp add: storeValue_def)
    then show ?thesis
      using Cons True fold_store_repeated [OF True]
      by (simp add: received_field_def)
  next
    case False
    then have "vs = []" using field_elements_single [of f vals] Cons by simp
    then show ?thesis using Cons False by (simp add: received_field_def storeValue_def)
  qed
qed

lemma fold_store_fields:
  assumes "distinct (map Name fs)" "\<forall>f\<in>set fs. out (Name f) = None"
  shows "fold (\<lambda>f. fold (storeValue f) (map (received arch (Type f)) (field_elements vals f))) fs out n =
    (case map_of (map (\<lambda>f. (Name f, received_field arch vals f)) fs) n of None \<Rightarrow> out n | Some r \<Rightarrow> r)"
  using assms
proof (induction fs arbitrary: out)
  case (Cons f fs)
  have "Name f \<notin> Name ` set fs" using Cons.prems(1) by simp
  then have ne: "\<forall>g\<in>set fs. Name g \<noteq> Name f" by (metis imageI)
  have "fold (\<lambda>f. fold (storeValue f) (map (received arch (Type f)) (field_elements vals f))) fs
      (out(Name f := received_field arch vals f)) n =
    (case map_of (map (\<lambda>f. (Name f, received_field arch vals f)) fs) n of
       None \<Rightarrow> (out(Name f := received_field arch vals f)) n | Some r \<Rightarrow> r)"
    using Cons.prems ne by (intro Cons.IH) auto
  moreover have "map_of (map (\<lambda>f. (Name f, received_field arch vals f)) fs) (Name f) = None"
    using Cons.prems(1) by (auto simp: map_of_eq_None_iff)
  ultimately show ?case using Cons.prems(2) by (simp add: fold_store_field split: option.split)
qed simp

lemma fold_concat: "fold h (concat xss) = fold (fold h) xss"
  by (induction xss) (simp_all add: fun_eq_iff)

lemma apply_Unknown: "apply_event s (Unknown field wt) = (\<lambda>out. out)"
  by (simp add: fun_eq_iff apply_event_def)

lemma apply_Known: "apply_event s (Known idx v) = storeValue (Fields s ! idx) v"
  by (simp add: fun_eq_iff apply_event_def)

lemma fold_skip: "fold (\<lambda>x out. out) xs = (\<lambda>out. out)"
  by (induction xs) (simp_all add: fun_eq_iff)

lemma events_of_message:
  assumes r: "schema_wf r" and comp: "compatible s r"
  shows "fold (apply_event r) (map (field_view arch s r) (message_elements vals s)) out =
    fold (\<lambda>f. fold (storeValue f) (map (received arch (Type f)) (field_elements vals f)))
      (filter (\<lambda>f. f \<in> set (Fields r)) (Fields s)) out"
proof -
  define known where "known f \<longleftrightarrow> f \<in> set (Fields r)" for f
  define body where "body f = fold (storeValue f) (map (received arch (Type f)) (field_elements vals f))" for f
  have one: "fold (apply_event r) (map (\<lambda>v. field_view arch s r (idx, v)) (field_elements vals (Fields s ! idx))) =
      (if known (Fields s ! idx) then body (Fields s ! idx) else (\<lambda>out. out))"
    if "idx < length (Fields s)" for idx
  proof (cases "byTag r (Tag (Fields s ! idx))")
    case None
    then have "\<not> known (Fields s ! idx)"
      using byTag_iff [OF r] unfolding known_def by (metis in_set_conv_nth option.distinct(1))
    then show ?thesis using None
      by (simp add: field_view_def apply_Unknown fold_map comp_def fold_skip Let_def)
  next
    case (Some j)
    then have "Fields r ! j = Fields s ! idx" "j < length (Fields r)"
      using that comp byTag_iff [OF r] unfolding compatible_def by (metis nth_mem)+
    moreover from this have "known (Fields s ! idx)" unfolding known_def by (metis nth_mem)
    ultimately show ?thesis using Some
      by (simp add: body_def field_view_def apply_Known fold_map comp_def)
  qed
  have "fold (apply_event r) (map (field_view arch s r) (message_elements vals s)) =
      fold (\<lambda>idx. if known (Fields s ! idx) then body (Fields s ! idx) else (\<lambda>out. out)) [0..<length (Fields s)]"
    unfolding message_elements_def map_concat fold_concat fold_map map_map comp_def
    by (rule ext, rule fold_cong) (simp_all add: one [unfolded fold_map comp_def])
  also have "\<dots> = fold (\<lambda>f. if known f then body f else (\<lambda>out. out)) (Fields s)"
    by (subst (2) map_nth [symmetric]) (simp only: fold_map comp_def)
  also have "\<dots> = fold body (filter known (Fields s))"
    unfolding fold_filter id_def ..
  finally show ?thesis by (simp add: body_def [abs_def] known_def [abs_def])
qed

theorem decode_encoded_message:
  assumes s: "schema_wf s" and r: "schema_wf r" and comp: "compatible s r"
    and enc: "EncodeProto arch s vals = Ret body" and mem: "in_memory body"
  shows "DecodeProto r body =
    Some (Ret (received_map arch vals (filter (\<lambda>f. f \<in> set (Fields r)) (Fields s))))"
proof -
  have ok: "\<forall>f\<in>set (Fields s). field_encodable arch vals f"
    and body: "body = concat (map (put_field arch s) (message_elements vals s))"
    using EncodeProto_eq [OF s, of arch vals] enc by (auto split: if_splits)
  have "field.get_all r body = Some (map (field_view arch s r) (message_elements vals s))"
    unfolding body
    by (rule field.get_all_concat [OF message_elements_ok [OF r comp ok mem [unfolded body]]])
  then have "DecodeProto r body =
      Some (Ret (fold (apply_event r) (map (field_view arch s r) (message_elements vals s)) Map.empty))"
    using DecodeProto_get_all [OF r mem] by simp
  moreover have "distinct (map Name (filter (\<lambda>f. f \<in> set (Fields r)) (Fields s)))"
    using s by (auto simp: schema_wf_def fields_ok_def intro: distinct_map_filter)
  ultimately show ?thesis
    unfolding events_of_message [OF r comp]
    by (simp add: fun_eq_iff fold_store_fields received_map_def)
qed

end
