(* ===== verification/Proto_Types.thy ===== *)
theory Proto_Types
  imports Proto
begin

text \<open>
  The type discipline of decoded messages (\<open>bridges/mqtt-go/proto.go\<close>): which Go values
  \<open>DecodeProto\<close> stores for each schema type.  The bridge converts these values to JSON without
  checking them again.
\<close>

definition value_typed :: "string \<Rightarrow> gval \<Rightarrow> bool" where
  "value_typed typ v =
     (case v of
        VBool _ \<Rightarrow> typ = ''bool''
      | VInt64 n \<Rightarrow> typ \<in> {''int64'', ''sint64''} \<or>
          (typ \<in> {''int32'', ''sint32''} \<and> - (2 ^ 31) \<le> sint n \<and> sint n < 2 ^ 31)
      | VUint64 n \<Rightarrow> typ = ''uint64'' \<or> (typ = ''uint32'' \<and> uint n < 2 ^ 32)
      | VFloat64 d \<Rightarrow> typ = ''float'' \<and> (\<exists>x. d = f32_to_f64 x)
      | VString _ \<Rightarrow> typ = ''string''
      | VBytes _ \<Rightarrow> typ = ''bytes''
      | _ \<Rightarrow> False)"

definition field_typed_value :: "SchemaField \<Rightarrow> gval \<Rightarrow> bool" where
  "field_typed_value f v =
     (if Repeated f then (case v of VList xs \<Rightarrow> xs \<noteq> [] \<and> list_all (value_typed (Type f)) xs | _ \<Rightarrow> False)
      else value_typed (Type f) v)"

definition message_typed :: "Schema \<Rightarrow> (string \<rightharpoonup> gval) \<Rightarrow> bool" where
  "message_typed s vals \<longleftrightarrow>
     (\<forall>n v. vals n = Some v \<longrightarrow> (\<exists>f\<in>set (Fields s). Name f = n \<and> field_typed_value f v))"

lemma sint_scast_32: "- (2 ^ 31) \<le> sint (scast (w :: u32) :: u64) \<and> sint (scast w :: u64) < 2 ^ 31"
proof -
  have "sint (scast w :: u64) = sint w" by (rule sint_up_scast) (simp add: is_up)
  then show ?thesis using sint_range_size [of w] by (simp add: word_size)
qed

lemma uint_ucast_32: "uint (ucast (w :: u32) :: u64) < 2 ^ 32"
proof -
  have "uint (ucast w :: u64) = uint w" by (rule uint_up_ucast) (simp add: is_up)
  then show ?thesis using uint_lt2p [of w] by simp
qed

lemma value_of_typed: "typ \<in> validTypes \<Longrightarrow> value_typed typ (value_of typ b)"
  using sint_scast_32 uint_ucast_32
  by (auto simp: validTypes_def value_typed_def at_type)

definition event_typed :: "Schema \<Rightarrow> field_event \<Rightarrow> bool" where
  "event_typed s ev =
     (case ev of
        Known idx v \<Rightarrow> idx < length (Fields s) \<and> value_typed (Type (Fields s ! idx)) v
      | Unknown _ _ \<Rightarrow> True)"

lemma field_type_valid: "schema_wf s \<Longrightarrow> idx < length (Fields s) \<Longrightarrow> Type (Fields s ! idx) \<in> validTypes"
  by (auto simp: schema_wf_def fields_ok_def field_ok_def)

lemma get_field_typed:
  assumes "schema_wf s" "get_field s data = Some (ev, n)"
  shows "event_typed s ev"
proof -
  obtain field wt b where "field_meaning s field wt b = Some ev"
    using assms(2) by (auto simp: get_field_def get_value_def split: option.splits)
  then show ?thesis
    using byTag_in_range [OF assms(1)] field_type_valid [OF assms(1)]
    by (auto simp: field_meaning_def event_typed_def value_of_typed split: option.splits if_splits)
qed

lemma storeValue_typed:
  assumes "message_typed s vals" "f \<in> set (Fields s)" "value_typed (Type f) v" "distinct (map Name (Fields s))"
  shows "message_typed s (storeValue f v vals)"
proof -
  have new: "field_typed_value f w" if "storeValue f v vals (Name f) = Some w" for w
  proof (cases "Repeated f")
    case False
    then show ?thesis using that assms(3) by (simp add: storeValue_def field_typed_value_def)
  next
    case True
    define cur where "cur = (case vals (Name f) of Some (VList xs) \<Rightarrow> xs | _ \<Rightarrow> [])"
    have w: "w = VList (cur @ [v])" using that True by (simp add: storeValue_def cur_def)
    have "list_all (value_typed (Type f)) cur"
    proof (cases "\<exists>xs. vals (Name f) = Some (VList xs)")
      case True
      then obtain xs where xs: "vals (Name f) = Some (VList xs)" ..
      then obtain g where "g \<in> set (Fields s)" "Name g = Name f" "field_typed_value g (VList xs)"
        using assms(1) unfolding message_typed_def by blast
      then have "field_typed_value f (VList xs)"
        using assms(2,4) by (auto simp: distinct_map inj_on_def)
      then show ?thesis using \<open>Repeated f\<close> xs by (simp add: cur_def field_typed_value_def)
    next
      case False
      then show ?thesis by (auto simp: cur_def split: option.split gval.split)
    qed
    then show ?thesis using True assms(3) by (simp add: w field_typed_value_def)
  qed
  have old: "storeValue f v vals n = vals n" if "n \<noteq> Name f" for n
    using that by (simp add: storeValue_def)
  show ?thesis
    unfolding message_typed_def
    using new old assms(1,2) unfolding message_typed_def by metis
qed

lemma apply_event_typed:
  assumes "schema_wf s" "event_typed s ev" "message_typed s vals"
  shows "message_typed s (apply_event s ev vals)"
  using assms
  by (cases ev) (auto simp: event_typed_def apply_Known apply_Unknown schema_wf_def fields_ok_def
      intro!: storeValue_typed)

lemma apply_events_typed:
  assumes "schema_wf s"
  shows "\<forall>ev\<in>set evs. event_typed s ev \<Longrightarrow> message_typed s vals \<Longrightarrow>
    message_typed s (fold (apply_event s) evs vals)"
  by (induction evs arbitrary: vals) (simp_all add: apply_event_typed [OF assms])

lemma decoded_typed:
  assumes "schema_wf s" "in_memory body" "DecodeProto s body = Some (Ret vals)"
  shows "message_typed s vals"
proof (cases "field.get_all s body")
  case None
  with DecodeProto_get_all [OF assms(1,2)] assms(3) show ?thesis by auto
next
  case (Some evs)
  then have "vals = fold (apply_event s) evs Map.empty"
    using DecodeProto_get_all [OF assms(1,2)] assms(3) by simp
  moreover have "\<forall>ev\<in>set evs. event_typed s ev"
    by (rule field.get_all_forall [OF get_field_typed [OF assms(1)] Some])
  ultimately show ?thesis
    using apply_events_typed [OF assms(1), of evs Map.empty] by (simp add: message_typed_def)
qed

end
