(* ===== verification/Proto_Props.thy ===== *)
theory Proto_Props
  imports Proto_Types
begin

text \<open>
  The properties of the protobuf layer (\<open>bridges/mqtt-go/proto.go\<close>): the decoder is total and never
  panics, what is encoded arrives, schema versions interoperate, bodies merge by concatenation, and
  what happens to numbers that do not fit.  \<open>in_memory\<close> says that a slice is shorter than \<open>2^63\<close>,
  as every Go slice is.
\<close>

section \<open>Small messages for the witnesses\<close>

definition demo_fields :: "SchemaField list" where
  "demo_fields =
     [\<lparr>Name = ''n'', Type = ''sint32'', Tag = 1, Repeated = False\<rparr>,
      \<lparr>Name = ''s'', Type = ''string'', Tag = 2, Repeated = True\<rparr>]"

definition demo_arch :: go_arch where
  "demo_arch = \<lparr>f64_to_i64_unrepresentable = (\<lambda>_. push_bit 63 1),
                f64_to_u64_unrepresentable = (\<lambda>_. push_bit 63 1)\<rparr>"

definition demo_vals :: "string \<rightharpoonup> gval" where
  "demo_vals = [''n'' \<mapsto> VInt64 (- 3), ''s'' \<mapsto> VList [VString ''hi'']]"

lemma demo_fields_ok: "fields_ok demo_fields"
  by (simp add: demo_fields_def fields_ok_def field_ok_iff validTypes_def)

lemma demo_schema: "NewSchema ''demo'' demo_fields = Ret (built_schema ''demo'' demo_fields)"
  by (rule NewSchema_built [OF _ _ demo_fields_ok]) (simp_all add: demo_fields_def)

lemma demo_encoded:
  "EncodeProto demo_arch (built_schema ''demo'' demo_fields) demo_vals = Ret [0x08, 0x05, 0x12, 0x02, 0x68, 0x69]"
proof -
  have varint_small: "varint v = [ucast v]" if "unat v < 128" for v
    using that by (simp add: varint_def base128.simps)
  have "zigzag32 18446744073709551613 = 5" by (simp add: zigzag32_def signed_drop_bit_top)
  then show ?thesis
    by (simp add: EncodeProto_def demo_fields_def demo_vals_def encodeField_def at_type
        appendElement_def appendTag_def varint_small toInt64.simps len_prefixed_def string_bytes_def)
qed

lemma demo_in_memory: "in_memory [0x08, 0x05, 0x12, 0x02, 0x68, 0x69 :: u8]"
  by simp

lemma NewSchema_wf: "NewSchema sname flds = Ret s \<Longrightarrow> schema_wf s"
  by (simp add: NewSchema_Ret)


lemma compatible_self: "schema_wf s \<Longrightarrow> compatible s s"
  by (auto simp: compatible_def schema_wf_def fields_ok_def distinct_map inj_on_def)

lemma demo_decoded:
  "DecodeProto (built_schema ''demo'' demo_fields) [0x08, 0x05, 0x12, 0x02, 0x68, 0x69] =
     Some (Ret (received_map demo_arch demo_vals demo_fields))"
  using decode_encoded_message [OF NewSchema_wf [OF demo_schema] NewSchema_wf [OF demo_schema]
      compatible_self [OF NewSchema_wf [OF demo_schema]] demo_encoded demo_in_memory]
  by simp


section \<open>Total decoding\<close>

text \<open>
  C10. Decoding ends and does not panic: for every schema and every byte sequence, however hostile its
  tags and lengths, DecodeProto returns a map or an error.
\<close>

theorem DecodeProto_total:
  assumes "NewSchema sname flds = Ret s" "in_memory body"
  shows "(\<exists>out. DecodeProto s body = Some (Ret out)) \<or> (\<exists>e. DecodeProto s body = Some (Fail e))"
  using DecodeProto_get_all [OF NewSchema_wf [OF assms(1)] assms(2)]
  by (cases "field.get_all s body") auto

theorem DecodeProto_total_witness:
  "\<exists>r. DecodeProto (built_schema ''demo'' demo_fields) (replicate 9 0xFF @ [0x01]) = Some r \<and> r \<noteq> Panic"
proof -
  have "in_memory (replicate 9 0xFF @ [0x01 :: u8])" by simp
  from DecodeProto_total [OF demo_schema this] show ?thesis by auto
qed


text \<open>
  C19. A decoded message is well typed whatever the bytes were: every name in it is a field of the schema,
  holding a Go value of the field's type and in the range of that type (a 32-bit type stays within 32
  bits, a float is a widened single), as a non-empty list of such values when the field is repeated.
\<close>

theorem DecodeProto_typed:
  assumes "NewSchema sname flds = Ret s" "in_memory body" "DecodeProto s body = Some (Ret vals)"
  shows "message_typed s vals"
  by (rule decoded_typed [OF NewSchema_wf [OF assms(1)] assms(2,3)])

theorem DecodeProto_typed_witness:
  "message_typed (built_schema ''demo'' demo_fields) (received_map demo_arch demo_vals demo_fields)"
  by (rule DecodeProto_typed [OF demo_schema demo_in_memory demo_decoded])


section \<open>Round trip\<close>

text \<open>
  C6. What is encoded arrives: decoding the body that EncodeProto produced gives, for every field that
  was present, the value as its type transports it (\<open>received\<close>), repeated fields as the list of
  their elements in order, and nothing else.
\<close>

theorem decode_EncodeProto:
  assumes "NewSchema sname flds = Ret s"
    and "EncodeProto arch s vals = Ret body" "in_memory body"
  shows "DecodeProto s body = Some (Ret (received_map arch vals flds))"
proof -
  have wf: "schema_wf s" "Fields s = flds" using assms(1) by (simp_all add: NewSchema_Ret)
  have "compatible s s" by (rule compatible_self [OF wf(1)])
  moreover have "filter (\<lambda>f. f \<in> set (Fields s)) (Fields s) = flds"
    using wf(2) by (simp add: filter_id_conv)
  ultimately show ?thesis using decode_encoded_message [OF wf(1) wf(1) _ assms(2,3)] by simp
qed

theorem decode_EncodeProto_witness:
  "DecodeProto (built_schema ''demo'' demo_fields) [0x08, 0x05, 0x12, 0x02, 0x68, 0x69] =
     Some (Ret (received_map demo_arch demo_vals demo_fields))
   \<and> received_map demo_arch demo_vals demo_fields ''n'' = Some (VInt64 (- 3))"
proof
  show "DecodeProto (built_schema ''demo'' demo_fields) [0x08, 0x05, 0x12, 0x02, 0x68, 0x69] =
     Some (Ret (received_map demo_arch demo_vals demo_fields))"
    by (rule decode_EncodeProto [OF demo_schema demo_encoded demo_in_memory])
  show "received_map demo_arch demo_vals demo_fields ''n'' = Some (VInt64 (- 3))"
    by (simp add: received_map_def received_field_def field_elements_def demo_vals_def demo_fields_def
        at_type i64_of_def toInt64.simps)
qed

text \<open>The values a decoder can produce: those a second trip leaves unchanged.\<close>

definition canonical_value :: "string \<Rightarrow> gval \<Rightarrow> bool" where
  "canonical_value typ v =
     (case v of
        VBool _ \<Rightarrow> typ = ''bool''
      | VInt64 n \<Rightarrow> typ \<in> {''int64'', ''sint64''} \<or>
          (typ \<in> {''int32'', ''sint32''} \<and> - (2 ^ 31) \<le> sint n \<and> sint n < 2 ^ 31)
      | VUint64 n \<Rightarrow> typ = ''uint64'' \<or> (typ = ''uint32'' \<and> uint n < 2 ^ 32)
      | VFloat64 d \<Rightarrow> typ = ''float'' \<and> (\<exists>x. d = f32_to_f64 x \<and> \<not> f32_is_nan x)
      | VString _ \<Rightarrow> typ = ''string''
      | VBytes _ \<Rightarrow> typ = ''bytes''
      | _ \<Rightarrow> False)"

lemma sext_32: "- (2 ^ 31) \<le> sint n \<Longrightarrow> sint n < 2 ^ 31 \<Longrightarrow> scast (ucast n :: u32) = n" for n :: u64
proof -
  assume n: "- (2 ^ 31) \<le> sint n" "sint n < 2 ^ 31"
  have "(ucast n :: u32) = of_int (sint n)"
    by (rule bit_word_eqI) (auto simp: bit_simps min_def)
  moreover have "sint (of_int (sint n) :: u32) = signed_take_bit 31 (sint n)"
    by (subst signed_of_int) simp
  ultimately have "sint (ucast n :: u32) = signed_take_bit 31 (sint n)" by (simp only:)
  also have "\<dots> = sint n" using n by (simp add: signed_take_bit_int_eq_self)
  finally have "of_int (sint (ucast n :: u32)) = (of_int (sint n) :: u64)" by simp
  then show ?thesis by simp
qed

lemma zext_32: "uint n < 2 ^ 32 \<Longrightarrow> ucast (ucast n :: u32) = n" for n :: u64
  by (rule word_uint_eq_iff [THEN iffD2])
    (simp add: unsigned_ucast_eq unsigned_take_bit_eq take_bit_int_eq_self)

lemma canonical_received:
  assumes "canonical_value typ v"
  shows "encodable arch typ v \<and> received arch typ v = v"
  using assms
  by (cases v) (auto simp: canonical_value_def at_type returns_def toInt64.simps toUint64_def
      toFloat64_def i64_of_def u64_of_def f64_of_def sext_32 zext_32 f64_to_f32_to_f64)

definition canonical_message :: "SchemaField list \<Rightarrow> (string \<rightharpoonup> gval) \<Rightarrow> bool" where
  "canonical_message flds vals \<longleftrightarrow>
     (\<forall>n v. vals n = Some v \<longrightarrow> (\<exists>f\<in>set flds. Name f = n \<and>
        (if Repeated f then \<exists>xs. v = VList xs \<and> xs \<noteq> [] \<and> (\<forall>x\<in>set xs. canonical_value (Type f) x)
         else canonical_value (Type f) v)))"

lemma received_canonical:
  assumes ok: "fields_ok flds" and can: "canonical_message flds vals"
  shows "received_map arch vals flds = vals"
proof
  fix n
  show "received_map arch vals flds n = vals n"
  proof (cases "\<exists>f\<in>set flds. Name f = n")
    case True
    then obtain f where f: "f \<in> set flds" "Name f = n" by blast
    then have m: "received_map arch vals flds n = received_field arch vals f"
      using received_map_known [OF ok] by blast
    show ?thesis
    proof (cases "vals n")
      case None
      then show ?thesis using f by (simp add: m received_field_def field_elements_def)
    next
      case (Some v)
      then obtain g where "g \<in> set flds" "Name g = n" and c: "if Repeated g
          then \<exists>xs. v = VList xs \<and> xs \<noteq> [] \<and> (\<forall>x\<in>set xs. canonical_value (Type g) x)
          else canonical_value (Type g) v"
        using can unfolding canonical_message_def by blast
      then have "g = f" using f ok by (auto simp: fields_ok_def distinct_map inj_on_def)
      moreover have "map (received arch (Type f)) xs = xs" if "\<forall>x\<in>set xs. canonical_value (Type f) x" for xs
        using that canonical_received by (simp add: map_idI)
      ultimately show ?thesis
        using c f Some canonical_received [of "Type f" v arch]
        by (auto simp: m received_field_def field_elements_def neq_Nil_conv
            canonical_received [THEN conjunct2] split: if_splits)
    qed
  next
    case False
    then have "vals n = None" using can unfolding canonical_message_def by (cases "vals n") auto
    moreover have "received_map arch vals flds n = None"
      using False by (intro received_map_unknown) blast
    ultimately show ?thesis by simp
  qed
qed

lemma canonical_encodes:
  assumes s: "NewSchema sname flds = Ret s" and can: "canonical_message flds vals"
  shows "\<exists>body. EncodeProto arch s vals = Ret body"
proof -
  have wf: "schema_wf s" "Fields s = flds" using s by (simp_all add: NewSchema_Ret)
  have "field_encodable arch vals f" if f: "f \<in> set flds" for f
  proof (cases "vals (Name f)")
    case None
    then show ?thesis by (simp add: field_encodable_def)
  next
    case (Some v)
    then obtain g where "g \<in> set flds" "Name g = Name f" and c: "if Repeated g
        then \<exists>xs. v = VList xs \<and> xs \<noteq> [] \<and> (\<forall>x\<in>set xs. canonical_value (Type g) x)
        else canonical_value (Type g) v"
      using can unfolding canonical_message_def by blast
    then have "g = f" using f wf by (auto simp: schema_wf_def fields_ok_def distinct_map inj_on_def)
    then show ?thesis using c Some canonical_received by (auto simp: field_encodable_def split: if_splits)
  qed
  then show ?thesis using EncodeProto_eq [OF wf(1), of arch vals] wf(2) by auto
qed

text \<open>
  The codec is lossless on canonical messages, those whose fields are named in the schema and
  hold values in the range of their type (repeated ones a non-empty list): they encode, and decoding
  gives back the very same map.
\<close>

theorem proto_lossless:
  assumes "NewSchema sname flds = Ret s" "canonical_message flds vals"
  shows "\<exists>body. EncodeProto arch s vals = Ret body \<and>
    (in_memory body \<longrightarrow> DecodeProto s body = Some (Ret vals))"
proof -
  have wf: "schema_wf s" "Fields s = flds" using assms(1) by (simp_all add: NewSchema_Ret)
  have "compatible s s" by (rule compatible_self [OF wf(1)])
  moreover have "filter (\<lambda>f. f \<in> set (Fields s)) (Fields s) = flds"
    using wf(2) by (simp add: filter_id_conv)
  moreover have "received_map arch vals flds = vals"
    using wf assms(2) by (intro received_canonical) (auto simp: schema_wf_def)
  moreover obtain body where "EncodeProto arch s vals = Ret body"
    using canonical_encodes [OF assms] by blast
  ultimately show ?thesis
    using decode_encoded_message [OF wf(1) wf(1), of arch vals body] by auto
qed

theorem proto_lossless_witness:
  "\<exists>body. EncodeProto demo_arch (built_schema ''demo'' demo_fields) demo_vals = Ret body \<and>
    (in_memory body \<longrightarrow> DecodeProto (built_schema ''demo'' demo_fields) body = Some (Ret demo_vals))"
proof -
  have "canonical_message demo_fields demo_vals"
    by (auto simp: canonical_message_def demo_vals_def demo_fields_def canonical_value_def split: if_splits)
  then show ?thesis by (rule proto_lossless [OF demo_schema])
qed



section \<open>Schema evolution\<close>

text \<open>
  C14. Versions of a schema interoperate: a receiver that agrees with the sender on every tag they
  share decodes the sender's body to exactly the values of the fields it knows, and skips the others
  without error, whatever their types.
\<close>

theorem schema_evolution:
  assumes "NewSchema sname flds = Ret s" "NewSchema rname rflds = Ret r"
    and "\<forall>f\<in>set flds. \<forall>g\<in>set rflds. Tag f = Tag g \<longrightarrow> f = g"
    and "EncodeProto arch s vals = Ret body" "in_memory body"
  shows "DecodeProto r body = Some (Ret (received_map arch vals (filter (\<lambda>f. f \<in> set rflds) flds)))"
proof -
  have wf: "schema_wf s" "Fields s = flds" "schema_wf r" "Fields r = rflds"
    using assms(1,2) by (simp_all add: NewSchema_Ret)
  then have "compatible s r" using assms(3) by (simp add: compatible_def)
  from decode_encoded_message [OF wf(1,3) this assms(4,5)] show ?thesis by (simp add: wf)
qed

theorem schema_evolution_witness:
  "\<exists>m. DecodeProto (built_schema ''old'' [\<lparr>Name = ''n'', Type = ''sint32'', Tag = 1, Repeated = False\<rparr>])
     [0x08, 0x05, 0x12, 0x02, 0x68, 0x69] = Some (Ret m) \<and> m ''s'' = None \<and> m ''n'' = Some (VInt64 (- 3))"
proof -
  let ?r = "[\<lparr>Name = ''n'', Type = ''sint32'', Tag = 1, Repeated = False\<rparr>]"
  have r: "NewSchema ''old'' ?r = Ret (built_schema ''old'' ?r)"
    by (rule NewSchema_built) (simp_all add: fields_ok_def field_ok_iff validTypes_def)
  have "\<forall>f\<in>set demo_fields. \<forall>g\<in>set ?r. Tag f = Tag g \<longrightarrow> f = g"
    by (simp add: demo_fields_def)
  note e = schema_evolution [OF demo_schema r this demo_encoded demo_in_memory]
  let ?m = "received_map demo_arch demo_vals (filter (\<lambda>f. f \<in> set ?r) demo_fields)"
  have "?m ''s'' = None" "?m ''n'' = Some (VInt64 (- 3))"
    by (simp_all add: demo_fields_def demo_vals_def received_map_def received_field_def
        field_elements_def at_type i64_of_def toInt64.simps)
  with e show ?thesis by blast
qed


section \<open>Concatenation\<close>

text \<open>Later scalars win, repeated fields are appended.\<close>

definition merge :: "(string \<rightharpoonup> gval) \<Rightarrow> (string \<rightharpoonup> gval) \<Rightarrow> string \<rightharpoonup> gval" where
  "merge a b n =
     (case b n of
        None \<Rightarrow> a n
      | Some (VList ys) \<Rightarrow> (case a n of Some (VList xs) \<Rightarrow> Some (VList (xs @ ys)) | _ \<Rightarrow> Some (VList ys))
      | Some v \<Rightarrow> Some v)"

definition lists_ok :: "Schema \<Rightarrow> (string \<rightharpoonup> gval) \<Rightarrow> bool" where
  "lists_ok s m \<longleftrightarrow> (\<forall>f\<in>set (Fields s). \<forall>v. m (Name f) = Some v \<longrightarrow> Repeated f = (\<exists>xs. v = VList xs))"

definition event_ok :: "Schema \<Rightarrow> field_event \<Rightarrow> bool" where
  "event_ok s ev \<longleftrightarrow> (case ev of Known idx v \<Rightarrow> idx < length (Fields s) \<and> (\<forall>xs. v \<noteq> VList xs) | _ \<Rightarrow> True)"

lemma get_all_events:
  assumes "schema_wf s"
  shows "field.get_all s bs = Some evs \<Longrightarrow> \<forall>ev\<in>set evs. event_ok s ev"
proof (induction bs arbitrary: evs rule: field.get_all.induct [where r = s])
  case (1 bs)
  show ?case
  proof (cases "bs = []")
    case True
    with 1 show ?thesis by simp
  next
    case False
    with "1.prems" obtain ev n where g: "get_field s bs = Some (ev, n)"
      using field.get_all_stuck by fastforce
    then obtain rest where rest: "field.get_all s (drop n bs) = Some rest" "evs = ev # rest"
      using "1.prems" by (auto simp: field.get_all_step)
    have "value_of t b \<noteq> VList xs" for t b xs by (simp add: value_of_def)
    then have "event_ok s ev"
      using g byTag_in_range [OF assms]
      by (auto simp: get_field_Some get_value_Some field_meaning_def event_ok_def
          split: option.splits if_splits)
    with "1.IH" [OF False g refl rest(1)] rest(2) show ?thesis by simp
  qed
qed

lemma store_merge:
  assumes "lists_ok s m" "f \<in> set (Fields s)" "\<forall>xs. v \<noteq> VList xs"
  shows "storeValue f v (merge out m) = merge out (storeValue f v m)"
proof -
  have m: "m (Name f) = Some w \<Longrightarrow> Repeated f = (\<exists>xs. w = VList xs)" for w
    using assms(1,2) by (auto simp: lists_ok_def)
  show ?thesis
  proof
    fix n
    show "storeValue f v (merge out m) n = merge out (storeValue f v m) n"
      using m assms(3)
      by (auto simp: storeValue_def merge_def Let_def split: option.split gval.split)
  qed
qed

lemma store_lists_ok:
  assumes "schema_wf s" "lists_ok s m" "f \<in> set (Fields s)" "\<forall>xs. v \<noteq> VList xs"
  shows "lists_ok s (storeValue f v m)"
proof -
  have "g = f" if "g \<in> set (Fields s)" "Name g = Name f" for g
    using that assms(1,3) by (auto simp: schema_wf_def fields_ok_def distinct_map inj_on_def)
  then show ?thesis
    using assms(2-4) unfolding lists_ok_def storeValue_def Let_def by (auto split: if_splits)
qed

lemma fold_merge:
  assumes s: "schema_wf s" and evs: "\<forall>ev\<in>set evs. event_ok s ev"
  shows "fold (apply_event s) evs out = merge out (fold (apply_event s) evs Map.empty)
    \<and> lists_ok s (fold (apply_event s) evs Map.empty)"
  using evs
proof (induction evs rule: rev_induct)
  case Nil
  then show ?case by (simp add: merge_def lists_ok_def fun_eq_iff)
next
  case (snoc ev evs)
  then show ?case
    by (cases ev) (auto simp: apply_Known apply_Unknown event_ok_def store_merge store_lists_ok [OF s])
qed

text \<open>
  C40. Bodies merge by concatenation: if two bodies decode, so does one followed by the other, to the
  first map updated with the second, with repeated fields appended.
\<close>

theorem DecodeProto_append:
  assumes "NewSchema sname flds = Ret s" "in_memory (b1 @ b2)"
    and "DecodeProto s b1 = Some (Ret m1)" "DecodeProto s b2 = Some (Ret m2)"
  shows "DecodeProto s (b1 @ b2) = Some (Ret (merge m1 m2))"
proof -
  have wf: "schema_wf s" by (rule NewSchema_wf [OF assms(1)])
  have mem: "in_memory b1" "in_memory b2" using assms(2) by simp_all
  obtain e1 e2 where e: "field.get_all s b1 = Some e1" "m1 = fold (apply_event s) e1 Map.empty"
      "field.get_all s b2 = Some e2" "m2 = fold (apply_event s) e2 Map.empty"
    using DecodeProto_get_all [OF wf mem(1)] DecodeProto_get_all [OF wf mem(2)] assms(3,4)
    by (auto split: option.splits)
  have "field.get_all s (b1 @ b2) = Some (e1 @ e2)"
    using field.get_all_append [OF e(1)] e(3) by simp
  then have "DecodeProto s (b1 @ b2) = Some (Ret (fold (apply_event s) e2 m1))"
    using DecodeProto_get_all [OF wf assms(2)] e(2) by simp
  also have "fold (apply_event s) e2 m1 = merge m1 m2"
    using fold_merge [OF wf get_all_events [OF wf e(3)], of m1] e(4) by simp
  finally show ?thesis .
qed

theorem DecodeProto_append_witness:
  "\<exists>m. DecodeProto (built_schema ''demo'' demo_fields)
      ([0x08, 0x05, 0x12, 0x02, 0x68, 0x69] @ [0x08, 0x05, 0x12, 0x02, 0x68, 0x69]) = Some (Ret m)
    \<and> m ''s'' = Some (VList [VString ''hi'', VString ''hi''])"
proof -
  let ?m = "received_map demo_arch demo_vals demo_fields"
  have "in_memory ([0x08, 0x05, 0x12, 0x02, 0x68, 0x69] @ [0x08, 0x05, 0x12, 0x02, 0x68, 0x69 :: u8])"
    by simp
  from DecodeProto_append [OF demo_schema this demo_decoded demo_decoded]
  have "DecodeProto (built_schema ''demo'' demo_fields)
      ([0x08, 0x05, 0x12, 0x02, 0x68, 0x69] @ [0x08, 0x05, 0x12, 0x02, 0x68, 0x69]) =
      Some (Ret (merge ?m ?m))" .
  moreover have "?m ''s'' = Some (VList [VString ''hi''])"
    by (simp add: received_map_def received_field_def field_elements_def demo_vals_def demo_fields_def
        at_type)
  then have "merge ?m ?m ''s'' = Some (VList [VString ''hi'', VString ''hi''])"
    by (simp add: merge_def)
  ultimately show ?thesis by blast
qed


section \<open>Numbers that do not fit\<close>

lemma unat_and_7: "unat (x AND 7) = unat x mod 8" for x :: u64
proof -
  have 7: "(7 :: u64) = mask 3" by (simp add: mask_eq_exp_minus_1)
  show ?thesis unfolding 7 by (simp add: take_bit_eq_mod unat_mod flip: take_bit_eq_mask)
qed

text \<open>The key of a field whose number is \<open>2^32\<close> larger.\<close>

definition alias_key :: "u32 \<Rightarrow> int \<Rightarrow> u64" where
  "alias_key field wt = tag_key field wt + push_bit 35 1"

lemma unat_alias_key:
  assumes "0 \<le> wt" "wt < 8"
  shows "unat (alias_key field wt) = 8 * (unat field + 2 ^ 32) + nat wt"
proof -
  have k: "unat (tag_key field wt) = 8 * unat field + nat wt" by (rule unat_tag_key [OF assms])
  have "unat field < 2 ^ 32" using unsigned_less [of field] by simp
  then show ?thesis
    unfolding alias_key_def by (subst unat_add_lem [THEN iffD1]) (use k assms in simp_all)
qed

lemma key_alias:
  assumes "0 \<le> wt" "wt < 8"
  shows "(ucast (drop_bit 3 (alias_key field wt)) :: u32) = field"
    and "uint (alias_key field wt AND 7) = wt"
proof -
  note sum = unat_alias_key [OF assms, of field]
  have f: "unat field < 2 ^ 32" using unsigned_less [of field] by simp
  have "unat (drop_bit 3 (alias_key field wt)) = unat field + 2 ^ 32"
    using sum assms unfolding drop_bit_eq_div by (simp add: unat_div)
  then have "unat (ucast (drop_bit 3 (alias_key field wt)) :: u32) = unat field"
    using f by (simp only: unsigned_ucast_eq) (simp add: take_bit_eq_mod)
  then show "(ucast (drop_bit 3 (alias_key field wt)) :: u32) = field"
    by (simp only: word_unat_eq_iff)
  have "(8 * a + b) mod 8 = b" if "b < 8" for a b :: nat using that by simp
  from this [of "nat wt" "unat field + 2 ^ 32"]
  have "unat (alias_key field wt AND 7) = nat wt"
    unfolding unat_and_7 sum using assms by simp
  then show "uint (alias_key field wt AND 7) = wt"
    using assms uint_eq_int_iff [of "alias_key field wt AND 7" "nat wt"] by simp
qed

lemma length_varint_mono: "unat v \<le> unat w \<Longrightarrow> length (varint v) \<le> length (varint w)"
proof -
  assume "unat v \<le> unat w"
  moreover have "unat w < 128 ^ length (varint w)"
    using length_varint_le [of "length (varint w)" w] length_varint(1) [of w] by simp
  ultimately show ?thesis
    using length_varint_le [of "length (varint w)" v] length_varint(1) [of w] by simp
qed

text \<open>
  Field numbers are taken modulo 2^32: a body whose first tag carries the field number of a known
  field plus 2^32 is decoded as if it carried that field's own number.
\<close>

theorem field_number_truncated:
  assumes "NewSchema sname flds = Ret s" "0 \<le> wt" "wt < 8"
    and "in_memory (appendVarint [] (alias_key field wt) @ rest)"
  shows "DecodeProto s (appendVarint [] (alias_key field wt) @ rest) = Some (Ret m) \<longleftrightarrow>
    DecodeProto s (appendTag [] field wt @ rest) = Some (Ret m)"
proof -
  have wf: "schema_wf s" by (rule NewSchema_wf [OF assms(1)])
  let ?k = "tag_key field wt" and ?k' = "alias_key field wt"
  have val: "get_value s ?k' rest = get_value s ?k rest"
    unfolding get_value_def key_alias [OF assms(2,3)] tag_key_field [OF assms(2,3)]
      tag_key_wt [OF assms(2,3)] ..
  have step: "field.get_all s (varint k @ rest) = (case get_value s k rest of None \<Rightarrow> None
      | Some (ev, n) \<Rightarrow> map_option ((#) ev) (field.get_all s (drop n rest)))" for k
    using field.get_all_step [of s "varint k @ rest"] field.get_all_stuck [of "varint k @ rest" s]
      length_varint(1) [of k]
    by (auto simp: get_field_def split: option.split)
  have "length (varint ?k) \<le> length (varint ?k')"
    by (rule length_varint_mono) (simp add: unat_tag_key unat_alias_key assms(2,3))
  then have mem: "in_memory (varint ?k @ rest)" and mem': "in_memory (varint ?k' @ rest)"
    using assms(4) by simp_all
  show ?thesis
    using DecodeProto_get_all [OF wf mem] DecodeProto_get_all [OF wf mem']
    unfolding appendTag_eq [OF assms(2,3)] step val by (auto split: option.splits)
qed

theorem field_number_truncated_witness:
  "\<exists>m. DecodeProto (built_schema ''demo'' demo_fields) (appendVarint [] (alias_key 1 0) @ [0x05]) =
     Some (Ret m)"
proof -
  have "in_memory (appendVarint [] (alias_key 1 0) @ [0x05])"
    using length_varint(2) [of "alias_key 1 0"] by simp
  from field_number_truncated [OF demo_schema _ _ this]
  have iff: "DecodeProto (built_schema ''demo'' demo_fields) (appendVarint [] (alias_key 1 0) @ [0x05]) = Some (Ret m)
    \<longleftrightarrow> DecodeProto (built_schema ''demo'' demo_fields) (appendTag [] 1 0 @ [0x05]) = Some (Ret m)" for m
    by simp
  have "EncodeProto demo_arch (built_schema ''demo'' demo_fields) [''n'' \<mapsto> VInt64 (- 3)] =
      Ret (appendTag [] 1 0 @ [0x05])"
  proof -
    have "varint 5 = [0x05]" by (simp add: varint_def base128.simps)
    moreover have "zigzag32 18446744073709551613 = 5" by (simp add: zigzag32_def signed_drop_bit_top)
    ultimately show ?thesis
      by (simp add: EncodeProto_def demo_fields_def encodeField_def at_type appendElement_def
          appendTag_eq toInt64.simps)
  qed
  moreover have "in_memory (appendTag [] 1 0 @ [0x05])"
    using length_varint(2) [of "tag_key 1 0"] by (simp add: appendTag_eq)
  ultimately show ?thesis
    unfolding iff
    using decode_encoded_message [OF NewSchema_wf [OF demo_schema] NewSchema_wf [OF demo_schema]
      compatible_self [OF NewSchema_wf [OF demo_schema]]] by blast
qed

text \<open>
  C39. Integers outside the range of a 32-bit type are not rejected: for every 64-bit integer, encoding
  as int32, sint32 or uint32 succeeds, and the receiver gets the low 32 bits, extended according to
  the type.
\<close>

theorem narrow_integers_truncated:
  "(\<exists>enc. appendValue arch [] ''int32'' (VInt64 n) = Ret enc \<and>
      decodeValue enc ''int32'' 0 = Ret (VInt64 (scast (ucast n :: u32)), int (length enc))) \<and>
   (\<exists>enc. appendValue arch [] ''sint32'' (VInt64 n) = Ret enc \<and>
      decodeValue enc ''sint32'' 0 = Ret (VInt64 (scast (ucast n :: u32)), int (length enc))) \<and>
   (\<exists>enc. appendValue arch [] ''uint32'' (VUint64 n) = Ret enc \<and>
      decodeValue enc ''uint32'' 0 = Ret (VUint64 (ucast (ucast n :: u32)), int (length enc)))"
proof -
  have "decodeVarintValue (varint v) t mk = Ret (mk v, int (length (varint v)))" for v t mk
    using readVarint_varint [of v "[]"] by (simp add: decodeVarintValue_def del: readVarint_varint)
  then show ?thesis
    by (simp add: at_type toInt64.simps toUint64_def decodeValue_def)
qed

text \<open>
  A whole number of at most 53 bits that arrives as a JSON float64 is converted exactly: to the
  same signed integer, and if it is not negative to the same unsigned integer.
\<close>

theorem whole_floats_exact:
  assumes "\<bar>i\<bar> < 2 ^ 53"
  shows "toInt64 arch (VFloat64 (int_to_f64 i)) = Ret (of_int i)
    \<and> (0 \<le> i \<longrightarrow> toUint64 arch (VFloat64 (int_to_f64 i)) = Ret (of_int i))"
proof -
  note x = int_to_f64_exact [OF assms]
  have "0 \<le> i \<Longrightarrow> \<not> f64_is_negative (int_to_f64 i)"
    using inf_less(1) by (simp add: f64_is_negative_def int_to_f64_def)
  then show ?thesis
    using x assms
    by (auto simp: toInt64.simps toUint64_def f64_to_i64_def f64_to_u64_def Let_def)
qed

theorem whole_floats_exact_witness:
  "toInt64 demo_arch (VFloat64 (int_to_f64 (- 7))) = Ret (of_int (- 7))"
  using whole_floats_exact [of "- 7" demo_arch] by simp

end
