(* ===== verification/Proto_Accepts.thy ===== *)
theory Proto_Accepts
  imports Complex_Main Proto_Props
begin

text \<open>
  Which Go values a schema type accepts, stated over the numbers that they denote and not over the code
  that checks them (\<open>toInt64\<close>, \<open>toUint64\<close> and \<open>toFloat64\<close> in \<open>bridges/mqtt-go/proto.go\<close>), and that \<open>EncodeProto\<close>
  succeeds exactly on such values.
\<close>

section \<open>The number of a float64\<close>

definition f64_real :: "u64 \<Rightarrow> real" where
  "f64_real x =
     (case unpack64 (f64_mag x) of (m, e) \<Rightarrow> (if bit x 63 then - 1 else 1) * real m * 2 powi e)"

definition f64_finite :: "u64 \<Rightarrow> bool" where "f64_finite x \<longleftrightarrow> f64_mag x < inf64"
definition f64_infinite :: "u64 \<Rightarrow> bool" where "f64_infinite x \<longleftrightarrow> f64_mag x = inf64"

lemma whole_iff_dvd: "real m * 2 powi (- int k) \<in> \<int> \<longleftrightarrow> 2 ^ k dvd m"
proof -
  have eq: "real m * 2 powi (- int k) = real m / 2 ^ k"
    by (simp add: power_int_minus divide_inverse)
  have "real m / 2 ^ k \<in> \<int> \<longleftrightarrow> (\<exists>n :: int. real m = real_of_int n * 2 ^ k)"
    by (auto simp: Ints_def field_simps)
  also have "\<dots> \<longleftrightarrow> (\<exists>n :: int. int m = n * 2 ^ k)"
  proof -
    have "real m = real_of_int n * 2 ^ k \<longleftrightarrow> int m = n * 2 ^ k" for n
    proof -
      have "real m = real_of_int (int m)" "real_of_int n * 2 ^ k = real_of_int (n * 2 ^ k)" by simp_all
      then show ?thesis by (simp only: of_int_eq_iff)
    qed
    then show ?thesis by simp
  qed
  also have "\<dots> \<longleftrightarrow> int (2 ^ k) dvd int m" by (auto simp: dvd_def mult.commute)
  finally show ?thesis by (simp only: eq of_nat_dvd_iff)
qed

lemma sign_whole: "(if s then - 1 else 1) * r \<in> \<int> \<longleftrightarrow> (r :: real) \<in> \<int>"
  by (simp add: minus_in_Ints_iff)

lemma integral_whole:
  assumes "f64_finite x"
  shows "f64_is_integral x \<longleftrightarrow> f64_real x \<in> \<int>"
proof -
  obtain m e where u: "unpack64 (f64_mag x) = (m, e)" by fastforce
  have "f64_is_integral x \<longleftrightarrow> 0 \<le> e \<or> m mod 2 ^ nat (- e) = 0"
    using assms by (simp add: f64_is_integral_def f64_finite_def u)
  also have "\<dots> \<longleftrightarrow> real m * 2 powi e \<in> \<int>"
  proof (cases "0 \<le> e")
    case True
    then have "real m * 2 powi e = real_of_int (int m * 2 ^ nat e)" by (simp add: power_int_def)
    with True show ?thesis by (metis Ints_of_int)
  next
    case False
    then have "e = - int (nat (- e))" by simp
    with False whole_iff_dvd [of m "nat (- e)"] show ?thesis by (auto simp: mod_eq_0_iff_dvd)
  qed
  finally show ?thesis by (simp only: f64_real_def u prod.case mult.assoc sign_whole)
qed

lemma unpack64_zero: "fst (unpack64 mag) = 0 \<longleftrightarrow> mag = 0"
proof -
  have "mag = 0" if "mag div 2 ^ 52 = 0" "mag mod 2 ^ 52 = 0"
    using that by (metis div_mult_mod_eq add_0 mult_zero_left)
  then show ?thesis by (auto simp: unpack64_def unpack_def Let_def)
qed

lemma negative_real:
  assumes "f64_finite x"
  shows "f64_is_negative x \<longleftrightarrow> f64_real x < 0"
proof -
  obtain m e where u: "unpack64 (f64_mag x) = (m, e)" by fastforce
  define r where "r = real m * 2 powi e"
  have r: "0 \<le> r" "r = 0 \<longleftrightarrow> m = 0" by (simp_all add: r_def)
  have "f64_real x = (if bit x 63 then - r else r)" by (simp add: f64_real_def u r_def)
  then have "f64_real x < 0 \<longleftrightarrow> bit x 63 \<and> m \<noteq> 0" using r by (cases "bit x 63") auto
  moreover have "m = 0 \<longleftrightarrow> f64_mag x = 0" using unpack64_zero [of "f64_mag x"] by (simp add: u)
  ultimately show ?thesis using assms by (auto simp: f64_is_negative_def f64_finite_def)
qed

section \<open>Accepted values\<close>

text \<open>A whole number, or an infinity, which passes the comparison with \<open>math.Trunc\<close>; never a NaN.\<close>

definition whole_float :: "u64 \<Rightarrow> bool" where
  "whole_float x \<longleftrightarrow> f64_infinite x \<or> f64_finite x \<and> f64_real x \<in> \<int>"

definition nonnegative_float :: "u64 \<Rightarrow> bool" where
  "nonnegative_float x \<longleftrightarrow> f64_infinite x \<and> \<not> bit x 63 \<or> f64_finite x \<and> 0 \<le> f64_real x"

definition accepts :: "string \<Rightarrow> gval \<Rightarrow> bool" where
  "accepts typ v \<longleftrightarrow>
     (case v of
        VBool _ \<Rightarrow> typ = ''bool''
      | VString _ \<Rightarrow> typ = ''string''
      | VBytes _ \<Rightarrow> typ = ''bytes''
      | VFloat64 x \<Rightarrow>
          typ = ''float'' \<or>
          typ \<in> {''int32'', ''int64'', ''sint32'', ''sint64''} \<and> whole_float x \<or>
          typ \<in> {''uint32'', ''uint64''} \<and> whole_float x \<and> nonnegative_float x
      | VFloat32 y \<Rightarrow>
          typ = ''float'' \<or>
          typ \<in> {''int32'', ''int64'', ''sint32'', ''sint64''} \<and> whole_float (f32_to_f64 y)
      | VInt n \<Rightarrow>
          typ \<in> {''int32'', ''int64'', ''sint32'', ''sint64'', ''float''} \<or>
          typ \<in> {''uint32'', ''uint64''} \<and> 0 \<le> sint n
      | VInt32 n \<Rightarrow>
          typ \<in> {''int32'', ''int64'', ''sint32'', ''sint64'', ''float''} \<or>
          typ \<in> {''uint32'', ''uint64''} \<and> 0 \<le> sint n
      | VInt64 n \<Rightarrow>
          typ \<in> {''int32'', ''int64'', ''sint32'', ''sint64'', ''float''} \<or>
          typ \<in> {''uint32'', ''uint64''} \<and> 0 \<le> sint n
      | VUint _ \<Rightarrow> typ \<in> {''int32'', ''int64'', ''sint32'', ''sint64'', ''uint32'', ''uint64''}
      | VUint32 _ \<Rightarrow> typ \<in> {''int32'', ''int64'', ''sint32'', ''sint64'', ''uint32'', ''uint64'', ''float''}
      | VUint64 _ \<Rightarrow> typ \<in> {''int32'', ''int64'', ''sint32'', ''sint64'', ''uint32'', ''uint64'', ''float''}
      | _ \<Rightarrow> False)"

lemma whole_float_iff: "whole_float x \<longleftrightarrow> f64_is_integral x"
proof -
  consider "f64_finite x" | "f64_infinite x" | "inf64 < f64_mag x"
    unfolding f64_finite_def f64_infinite_def by linarith
  then show ?thesis
  proof cases
    case 1
    then have "\<not> f64_infinite x" by (simp add: f64_finite_def f64_infinite_def)
    with 1 show ?thesis by (simp add: whole_float_def integral_whole)
  qed (simp_all add: whole_float_def f64_finite_def f64_infinite_def f64_is_integral_def)
qed

lemma nonnegative_float_iff:
  assumes "whole_float x"
  shows "nonnegative_float x \<longleftrightarrow> \<not> f64_is_negative x"
proof -
  have "0 < inf64" by (simp add: inf64_def)
  with assms negative_real [of x] show ?thesis
    by (auto simp: whole_float_def nonnegative_float_def f64_is_negative_def f64_infinite_def f64_finite_def)
qed

lemma toInt64_accepts:
  "returns (toInt64 arch v) \<longleftrightarrow> accepts ''int32'' v" "returns (toInt64 arch v) \<longleftrightarrow> accepts ''int64'' v"
  "returns (toInt64 arch v) \<longleftrightarrow> accepts ''sint32'' v" "returns (toInt64 arch v) \<longleftrightarrow> accepts ''sint64'' v"
  by (cases v; auto simp: accepts_def toInt64.simps returns_def whole_float_iff)+

lemma toUint64_accepts:
  "returns (toUint64 arch v) \<longleftrightarrow> accepts ''uint32'' v" "returns (toUint64 arch v) \<longleftrightarrow> accepts ''uint64'' v"
  by (cases v; auto simp: accepts_def toUint64_def returns_def nonnegative_float_iff whole_float_iff)+

lemma toFloat64_accepts: "returns (toFloat64 v) \<longleftrightarrow> accepts ''float'' v"
  by (cases v) (auto simp: accepts_def toFloat64_def returns_def)

lemma accepts_other:
  "accepts ''bool'' v \<longleftrightarrow> (\<exists>b. v = VBool b)" "accepts ''string'' v \<longleftrightarrow> (\<exists>s. v = VString s)"
  "accepts ''bytes'' v \<longleftrightarrow> (\<exists>b. v = VBytes b)"
  by (simp_all add: accepts_def split: gval.split)

text \<open>The code accepts exactly these values.\<close>

lemma encodable_accepts: "encodable arch typ v \<longleftrightarrow> accepts typ v"
proof (cases "typ \<in> proto_types")
  case True
  then show ?thesis
    by (rule proto_type_cases)
      (simp_all only: encodable_at accepts_other, (rule toInt64_accepts toUint64_accepts toFloat64_accepts)+)
next
  case False
  then show ?thesis
    by (cases v) (auto simp: encodable_def accepts_def proto_types_def)
qed

section \<open>Encoding\<close>

text \<open>
  C23. EncodeProto never panics, and succeeds exactly when every field that is present holds a value
  its type accepts, a list of such values for a repeated field.  What a type accepts is stated over the
  numbers: an integer type takes Go integers and floats that denote a whole number (or an infinity), an
  unsigned one only those that are not negative, float every number but a Go uint, and bool, string and
  bytes their own kind.
\<close>

theorem EncodeProto_outcome:
  assumes "NewSchema sname flds = Ret s"
  shows "EncodeProto arch s vals \<noteq> Panic \<and>
    ((\<exists>body. EncodeProto arch s vals = Ret body) \<longleftrightarrow>
      (\<forall>f\<in>set flds. case vals (Name f) of
          None \<Rightarrow> True
        | Some v \<Rightarrow> if Repeated f then \<exists>xs. v = VList xs \<and> (\<forall>x\<in>set xs. accepts (Type f) x)
                    else accepts (Type f) v))"
proof -
  have flds: "Fields s = flds" using assms by (simp add: NewSchema_Ret)
  have fe: "field_encodable arch vals f \<longleftrightarrow> (case vals (Name f) of
          None \<Rightarrow> True
        | Some v \<Rightarrow> if Repeated f then \<exists>xs. v = VList xs \<and> (\<forall>x\<in>set xs. accepts (Type f) x)
                    else accepts (Type f) v)" for f
    by (auto simp: field_encodable_def encodable_accepts split: option.split gval.split)
  show ?thesis
    unfolding fe [symmetric]
    using EncodeProto_eq [OF NewSchema_wf [OF assms], of arch vals] flds
    by (auto split: if_splits)
qed

theorem EncodeProto_outcome_witness:
  "EncodeProto demo_arch (built_schema ''demo'' demo_fields) [''n'' \<mapsto> VBool True] \<noteq> Panic \<and>
   (\<nexists>body. EncodeProto demo_arch (built_schema ''demo'' demo_fields) [''n'' \<mapsto> VBool True] = Ret body) \<and>
   (\<exists>body. EncodeProto demo_arch (built_schema ''demo'' demo_fields) demo_vals = Ret body)"
  using EncodeProto_outcome [OF demo_schema, of demo_arch "[''n'' \<mapsto> VBool True]"]
    EncodeProto_outcome [OF demo_schema, of demo_arch demo_vals]
  by (simp add: demo_fields_def demo_vals_def accepts_def)

end
