(* ===== verification/Go_Utf8.thy ===== *)
theory Go_Utf8
  imports Go_Prelude "HOL-Library.Char_ord"
begin

text \<open>
  UTF-8 as \<open>unicode/utf8\<close> of the standard library treats it: decoding the first rune of a string,
  encoding a rune, and the coercion of a string to well-formed UTF-8, in which every byte that
  belongs to no valid sequence becomes U+FFFD.  A Go string is a sequence of bytes, here a list of
  characters with codes below 256.
\<close>

section \<open>Code\<close>

abbreviation code :: "char \<Rightarrow> nat" where "code c \<equiv> of_char c"

definition RuneError :: nat where "RuneError = 0xFFFD"

text \<open>The length a leading byte announces; 0 for a byte that cannot lead.\<close>

definition rune_size :: "nat \<Rightarrow> nat" where
  "rune_size b0 =
     (if b0 < 0x80 then 1 else if b0 < 0xC2 then 0 else if b0 < 0xE0 then 2
      else if b0 < 0xF0 then 3 else if b0 < 0xF5 then 4 else 0)"

definition continues :: "nat \<Rightarrow> bool" where
  "continues b \<longleftrightarrow> 0x80 \<le> b \<and> b \<le> 0xBF"

text \<open>The accept ranges of the second byte exclude overlong forms, surrogates and codes above U+10FFFF.\<close>

definition second_ok :: "nat \<Rightarrow> nat \<Rightarrow> bool" where
  "second_ok b0 b1 \<longleftrightarrow> continues b1 \<and> (b0 = 0xE0 \<longrightarrow> 0xA0 \<le> b1) \<and> (b0 = 0xED \<longrightarrow> b1 \<le> 0x9F) \<and>
     (b0 = 0xF0 \<longrightarrow> 0x90 \<le> b1) \<and> (b0 = 0xF4 \<longrightarrow> b1 \<le> 0x8F)"

definition DecodeRune :: "string \<Rightarrow> nat \<times> nat" where
  "DecodeRune s =
     (case s of
        [] \<Rightarrow> (RuneError, 0)
      | c0 # s1 \<Rightarrow>
        if rune_size (code c0) = 1 then (code c0, 1)
        else if rune_size (code c0) = 0 then (RuneError, 1)
        else
        (case s1 of
           [] \<Rightarrow> (RuneError, 1)
         | c1 # s2 \<Rightarrow>
           if \<not> second_ok (code c0) (code c1) then (RuneError, 1)
           else if rune_size (code c0) = 2 then (code c0 mod 32 * 64 + code c1 mod 64, 2)
           else
           (case s2 of
              [] \<Rightarrow> (RuneError, 1)
            | c2 # s3 \<Rightarrow>
              if \<not> continues (code c2) then (RuneError, 1)
              else if rune_size (code c0) = 3
              then ((code c0 mod 16 * 64 + code c1 mod 64) * 64 + code c2 mod 64, 3)
              else
              (case s3 of
                 [] \<Rightarrow> (RuneError, 1)
               | c3 # s4 \<Rightarrow>
                 if \<not> continues (code c3) then (RuneError, 1)
                 else (((code c0 mod 8 * 64 + code c1 mod 64) * 64 + code c2 mod 64) * 64 + code c3 mod 64, 4)))))"

definition is_surrogate :: "nat \<Rightarrow> bool" where
  "is_surrogate r \<longleftrightarrow> 0xD800 \<le> r \<and> r < 0xE000"

definition EncodeRune :: "nat \<Rightarrow> string" where
  "EncodeRune r0 =
     (let r = (if r0 > 0x10FFFF \<or> is_surrogate r0 then RuneError else r0)
      in if r < 0x80 then [char_of r]
         else if r < 0x800 then [char_of (0xC0 + r div 64), char_of (0x80 + r mod 64)]
         else if r < 0x10000
         then [char_of (0xE0 + r div 4096), char_of (0x80 + r div 64 mod 64), char_of (0x80 + r mod 64)]
         else [char_of (0xF0 + r div 262144), char_of (0x80 + r div 4096 mod 64),
               char_of (0x80 + r div 64 mod 64), char_of (0x80 + r mod 64)])"

text \<open>\<open>DecodeRune\<close> in a loop; on a nonempty string it consumes at least one byte.\<close>

fun coerce_utf8 :: "string \<Rightarrow> string" where
  "coerce_utf8 [] = []"
| "coerce_utf8 (c # cs) =
     (let rn = DecodeRune (c # cs) in EncodeRune (fst rn) @ coerce_utf8 (drop (snd rn - 1) cs))"


section \<open>Decoding and encoding\<close>

lemma code_less [simp]: "code c < 256"
  by (metis of_char_mod_256 mod_less_divisor zero_less_numeral)

lemma DecodeRune_cases:
  assumes "DecodeRune (c # cs) = (r, n)"
  shows "code c < 0x80 \<and> r = code c \<and> n = 1 \<or> 0x80 \<le> code c \<and> r = RuneError \<and> n = 1 \<or>
    0x80 \<le> code c \<and> 2 \<le> n \<and> n \<le> Suc (length cs)"
  using assms by (auto simp: DecodeRune_def rune_size_def split: if_splits list.splits)

lemma low_bits: "0x80 \<le> b \<Longrightarrow> b < 0xC0 \<Longrightarrow> b = 0x80 + b mod 64" for b :: nat
proof -
  assume b: "0x80 \<le> b" "b < 0xC0"
  define d where "d = b - 0x80"
  have "b = d + 64 * 2" "d < 64" using b by (simp_all add: d_def)
  then show ?thesis by (simp only: mod_mult_self2 mod_less)
qed

lemma code_parts:
  "second_ok b0 b1 \<Longrightarrow> b1 = 0x80 + b1 mod 64"
  "continues b \<Longrightarrow> b = 0x80 + b mod 64"
  using low_bits by (simp_all add: second_ok_def continues_def)

text \<open>The bits of the leading byte.\<close>

lemma lead_bits:
  "rune_size b = 2 \<Longrightarrow> b = 0xC0 + b mod 32 \<and> 2 \<le> b mod 32"
  "rune_size b = 3 \<Longrightarrow> b = 0xE0 + b mod 16"
  "rune_size b = 4 \<Longrightarrow> b = 0xF0 + b mod 8 \<and> b mod 8 \<le> 4"
proof -
  have split: "b = q * k + b mod k" if "q * k \<le> b" "b < q * k + k" for q k :: nat
  proof -
    define d where "d = b - q * k"
    have "b = d + q * k" "d < k" using that by (simp_all add: d_def)
    then show ?thesis by (simp only: mod_mult_self1 mod_less add.commute)
  qed
  show "b = 0xC0 + b mod 32 \<and> 2 \<le> b mod 32" if "rune_size b = 2"
  proof -
    have "0xC2 \<le> b" "b < 0xE0" using that by (auto simp: rune_size_def split: if_splits)
    then show ?thesis using split [of 6 32] by simp
  qed
  show "b = 0xE0 + b mod 16" if "rune_size b = 3"
  proof -
    have "0xE0 \<le> b" "b < 0xF0" using that by (auto simp: rune_size_def split: if_splits)
    then show ?thesis using split [of 14 16] by simp
  qed
  show "b = 0xF0 + b mod 8 \<and> b mod 8 \<le> 4" if "rune_size b = 4"
  proof -
    have "0xF0 \<le> b" "b < 0xF5" using that by (auto simp: rune_size_def split: if_splits)
    then show ?thesis using split [of 30 8] by simp
  qed
qed

text \<open>Digits in base 64.\<close>

lemma base64_digits: "x < 64 \<Longrightarrow> (a * 64 + x) div 64 = a" "x < 64 \<Longrightarrow> (a * 64 + x) mod 64 = x" for a x :: nat
  by simp_all

lemma div_64s: "r div 4096 = r div 64 div 64" "r div 262144 = r div 64 div 64 div 64" for r :: nat
  by (simp_all flip: div_mult2_eq)

lemma EncodeRune_2:
  assumes "rune_size b0 = 2" "second_ok b0 b1"
  shows "EncodeRune (b0 mod 32 * 64 + b1 mod 64) = [char_of b0, char_of b1]"
proof -
  define x y where xy: "x = b0 mod 32" "y = b1 mod 64"
  have b: "b0 = 0xC0 + x" "2 \<le> x" "x < 32" "b1 = 0x80 + y" "y < 64"
    using lead_bits(1) [OF assms(1)] code_parts(1) [OF assms(2)] by (simp_all add: xy)
  have "EncodeRune (x * 64 + y) = [char_of (0xC0 + x), char_of (0x80 + y)]"
    using b(2,3,5) by (simp add: EncodeRune_def is_surrogate_def base64_digits)
  then show ?thesis by (simp only: xy [symmetric] b(1,4) [symmetric])
qed

lemma EncodeRune_wide:
  "0x800 \<le> r \<Longrightarrow> r < 0x10000 \<Longrightarrow> \<not> is_surrogate r \<Longrightarrow> EncodeRune r =
    [char_of (0xE0 + r div 4096), char_of (0x80 + r div 64 mod 64), char_of (0x80 + r mod 64)]"
  "0x10000 \<le> r \<Longrightarrow> r \<le> 0x10FFFF \<Longrightarrow> EncodeRune r =
    [char_of (0xF0 + r div 262144), char_of (0x80 + r div 4096 mod 64),
     char_of (0x80 + r div 64 mod 64), char_of (0x80 + r mod 64)]"
proof -
  have "\<not> is_surrogate r" if "0x10000 \<le> r" using that by (simp add: is_surrogate_def)
  then show "0x800 \<le> r \<Longrightarrow> r < 0x10000 \<Longrightarrow> \<not> is_surrogate r \<Longrightarrow> EncodeRune r =
    [char_of (0xE0 + r div 4096), char_of (0x80 + r div 64 mod 64), char_of (0x80 + r mod 64)]"
  "0x10000 \<le> r \<Longrightarrow> r \<le> 0x10FFFF \<Longrightarrow> EncodeRune r =
    [char_of (0xF0 + r div 262144), char_of (0x80 + r div 4096 mod 64),
     char_of (0x80 + r div 64 mod 64), char_of (0x80 + r mod 64)]"
    by (simp_all add: EncodeRune_def)
qed

lemma EncodeRune_3:
  assumes "rune_size b0 = 3" "second_ok b0 b1" "continues b2"
  shows "EncodeRune ((b0 mod 16 * 64 + b1 mod 64) * 64 + b2 mod 64) = [char_of b0, char_of b1, char_of b2]"
proof -
  define x y z where xyz: "x = b0 mod 16" "y = b1 mod 64" "z = b2 mod 64"
  have b: "b0 = 0xE0 + x" "x < 16" "b1 = 0x80 + y" "y < 64" "b2 = 0x80 + z" "z < 64"
    using lead_bits(2) [OF assms(1)] code_parts(1) [OF assms(2)] code_parts(2) [OF assms(3)]
    by (simp_all add: xyz)
  let ?r = "(x * 64 + y) * 64 + z"
  have "x = 0 \<longrightarrow> 32 \<le> y" "x = 13 \<longrightarrow> y < 32" using assms(2) b by (auto simp: second_ok_def)
  then have r: "0x800 \<le> ?r" "?r < 0x10000" "?r < 0xD800 \<or> 0xE000 \<le> ?r"
    using b(2,4,6) by (cases "x = 0"; cases "x = 13"; simp; linarith)+
  have d: "?r div 4096 = x" "?r div 64 mod 64 = y" "?r mod 64 = z"
    using b(4,6) by (simp_all only: div_64s base64_digits)
  have "\<not> is_surrogate ?r" using r(3) unfolding is_surrogate_def by linarith
  from EncodeRune_wide(1) [OF r(1,2) this]
  have "EncodeRune ?r = [char_of (0xE0 + x), char_of (0x80 + y), char_of (0x80 + z)]"
    by (simp only: d)
  then show ?thesis by (simp only: xyz [symmetric] b(1,3,5) [symmetric])
qed

lemma EncodeRune_4:
  assumes "rune_size b0 = 4" "second_ok b0 b1" "continues b2" "continues b3"
  shows "EncodeRune (((b0 mod 8 * 64 + b1 mod 64) * 64 + b2 mod 64) * 64 + b3 mod 64) =
    [char_of b0, char_of b1, char_of b2, char_of b3]"
proof -
  define w x y z where wxyz: "w = b0 mod 8" "x = b1 mod 64" "y = b2 mod 64" "z = b3 mod 64"
  have b: "b0 = 0xF0 + w" "w \<le> 4" "b1 = 0x80 + x" "x < 64" "b2 = 0x80 + y" "y < 64" "b3 = 0x80 + z" "z < 64"
    using lead_bits(3) [OF assms(1)] code_parts(1) [OF assms(2)] code_parts(2) [OF assms(3)]
      code_parts(2) [OF assms(4)] by (simp_all add: wxyz)
  let ?r = "((w * 64 + x) * 64 + y) * 64 + z"
  have "w = 0 \<longrightarrow> 16 \<le> x" "w = 4 \<longrightarrow> x < 16" using assms(2) b by (auto simp: second_ok_def)
  then have r: "0x10000 \<le> ?r" "?r \<le> 0x10FFFF"
    using b(2,4,6,8) by (cases "w = 0"; cases "w = 4"; simp; linarith)+
  have d: "?r div 262144 = w" "?r div 4096 mod 64 = x" "?r div 64 mod 64 = y" "?r mod 64 = z"
    using b(4,6,8) by (simp_all only: div_64s base64_digits)
  have "EncodeRune ?r = [char_of (0xF0 + w), char_of (0x80 + x), char_of (0x80 + y), char_of (0x80 + z)]"
    by (simp only: EncodeRune_wide(2) [OF r] d)
  then show ?thesis by (simp only: wxyz [symmetric] b(1,3,5,7) [symmetric])
qed

text \<open>Decoding several bytes and encoding the rune gives the bytes back, and looks at no other byte.\<close>

lemma DecodeRune_multibyte:
  assumes "DecodeRune s = (r, n)" "1 < n"
  shows "EncodeRune r = take n s" "DecodeRune (take n s @ t) = (r, n)"
proof -
  obtain c0 c1 s2 where s: "s = c0 # c1 # s2" "second_ok (code c0) (code c1)"
    using assms by (auto simp: DecodeRune_def split: list.splits if_splits)
  consider (two) "n = 2" "rune_size (code c0) = 2" "r = code c0 mod 32 * 64 + code c1 mod 64"
    | (three) c2 s3 where "n = 3" "rune_size (code c0) = 3" "s2 = c2 # s3" "continues (code c2)"
        "r = (code c0 mod 16 * 64 + code c1 mod 64) * 64 + code c2 mod 64"
    | (four) c2 c3 s4 where "n = 4" "rune_size (code c0) = 4" "s2 = c2 # c3 # s4" "continues (code c2)"
        "continues (code c3)"
        "r = ((code c0 mod 8 * 64 + code c1 mod 64) * 64 + code c2 mod 64) * 64 + code c3 mod 64"
    using assms unfolding s
    by (auto simp: DecodeRune_def rune_size_def split: list.splits if_splits)
  then have "EncodeRune r = take n s \<and> DecodeRune (take n s @ t) = (r, n)"
  proof cases
    case two
    then show ?thesis using s EncodeRune_2 [OF two(2) s(2)] by (simp add: DecodeRune_def)
  next
    case three
    then show ?thesis using s EncodeRune_3 [OF three(2) s(2) three(4)]
      by (simp add: DecodeRune_def)
  next
    case four
    then show ?thesis using s EncodeRune_4 [OF four(2) s(2) four(4,5)]
      by (simp add: DecodeRune_def)
  qed
  then show "EncodeRune r = take n s" "DecodeRune (take n s @ t) = (r, n)" by simp_all
qed

section \<open>Every rune can be encoded, and the coercion produces UTF-8\<close>

definition valid_rune :: "nat \<Rightarrow> bool" where
  "valid_rune r \<longleftrightarrow> r \<le> 0x10FFFF \<and> \<not> is_surrogate r"

lemma EncodeRune_invalid: "\<not> valid_rune r \<Longrightarrow> EncodeRune r = EncodeRune RuneError"
  by (auto simp: EncodeRune_def valid_rune_def RuneError_def is_surrogate_def Let_def)

lemma code_char_of: "n < 256 \<Longrightarrow> code (char_of n) = n"
  by simp

lemma lead_mods: "x < 32 \<Longrightarrow> (192 + x) mod 32 = x" "x < 16 \<Longrightarrow> (224 + x) mod 16 = x" "x < 8 \<Longrightarrow> (240 + x) mod 8 = x"
  "x < 64 \<Longrightarrow> (128 + x) mod 64 = x" for x :: nat
  using mod_mult_self3 [of 6 32 x] mod_mult_self3 [of 14 16 x] mod_mult_self3 [of 30 8 x]
    mod_mult_self3 [of 2 64 x] by simp_all

lemma DecodeRune_EncodeRune_2:
  assumes "0x80 \<le> r" "r < 0x800"
  shows "DecodeRune (EncodeRune r @ t) = (r, 2)"
proof -
  define x y where xy: "x = r div 64" "y = r mod 64"
  have r: "r = x * 64 + y" "y < 64" by (simp_all add: xy)
  then have x: "2 \<le> x" "x < 32" using assms by linarith+
  have "EncodeRune r = [char_of (0xC0 + x), char_of (0x80 + y)]"
    using assms by (simp add: EncodeRune_def is_surrogate_def xy)
  then show ?thesis
    using x r(2) by (simp add: DecodeRune_def code_char_of rune_size_def second_ok_def continues_def
        lead_mods r(1) del: of_char_of)
qed

lemma DecodeRune_EncodeRune_3:
  assumes "0x800 \<le> r" "r < 0x10000" "\<not> is_surrogate r"
  shows "DecodeRune (EncodeRune r @ t) = (r, 3)"
proof -
  define x y z where xyz: "x = r div 64 div 64" "y = r div 64 mod 64" "z = r mod 64"
  have r: "r = (x * 64 + y) * 64 + z" "y < 64" "z < 64" by (simp_all add: xyz)
  have flat: "r = 4096 * x + 64 * y + z" using r(1) by simp
  have x: "x < 16" using flat assms(2) by linarith
  have "x = 0 \<longrightarrow> 32 \<le> y" using flat assms(1) r(3) by auto
  note x = x this
  have "x = 13 \<longrightarrow> y \<le> 31" using assms(3) flat r(2,3) by (auto simp: is_surrogate_def)
  moreover have "EncodeRune r = [char_of (0xE0 + x), char_of (0x80 + y), char_of (0x80 + z)]"
    by (simp only: EncodeRune_wide(1) [OF assms] div_64s xyz)
  ultimately show ?thesis
    using x r(2,3) by (simp add: DecodeRune_def code_char_of rune_size_def second_ok_def continues_def
        lead_mods r(1) del: of_char_of)
qed

lemma DecodeRune_EncodeRune_4:
  assumes "0x10000 \<le> r" "r \<le> 0x10FFFF"
  shows "DecodeRune (EncodeRune r @ t) = (r, 4)"
proof -
  define w x y z where wxyz: "w = r div 64 div 64 div 64" "x = r div 64 div 64 mod 64" "y = r div 64 mod 64" "z = r mod 64"
  have r: "r = ((w * 64 + x) * 64 + y) * 64 + z" "x < 64" "y < 64" "z < 64" by (simp_all add: wxyz)
  have flat: "r = 262144 * w + 4096 * x + 64 * y + z" using r(1) by simp
  have w: "w \<le> 4" using flat assms(2) by linarith
  have "w = 0 \<longrightarrow> 16 \<le> x" "w = 4 \<longrightarrow> x \<le> 15" using flat assms r(3,4) by auto
  note w = w this
  have "EncodeRune r = [char_of (0xF0 + w), char_of (0x80 + x), char_of (0x80 + y), char_of (0x80 + z)]"
    by (simp only: EncodeRune_wide(2) [OF assms] div_64s wxyz)
  then show ?thesis
    using w r(2-4) by (simp add: DecodeRune_def code_char_of rune_size_def second_ok_def continues_def
        lead_mods r(1) del: of_char_of)
qed

lemma DecodeRune_EncodeRune:
  assumes "valid_rune r"
  shows "DecodeRune (EncodeRune r @ t) = (r, length (EncodeRune r))"
proof -
  consider "r < 0x80" | "0x80 \<le> r" "r < 0x800" | "0x800 \<le> r" "r < 0x10000" | "0x10000 \<le> r" by linarith
  then show ?thesis
  proof cases
    case 1
    then show ?thesis
      by (simp add: EncodeRune_def DecodeRune_def rune_size_def is_surrogate_def code_char_of del: of_char_of)
  next
    case 2
    then show ?thesis using DecodeRune_EncodeRune_2 [of r t] by (simp add: EncodeRune_def is_surrogate_def)
  next
    case 3
    then show ?thesis using DecodeRune_EncodeRune_3 [of r t] EncodeRune_wide(1) [of r] assms
      by (simp add: valid_rune_def)
  next
    case 4
    then show ?thesis using DecodeRune_EncodeRune_4 [of r t] EncodeRune_wide(2) [of r] assms
      by (simp add: valid_rune_def)
  qed
qed

lemma EncodeRune_nonempty: "EncodeRune r \<noteq> []"
  by (simp add: EncodeRune_def Let_def)

lemma coerce_utf8_EncodeRune: "coerce_utf8 (EncodeRune r @ s) = EncodeRune r @ coerce_utf8 s"
proof -
  have "coerce_utf8 (EncodeRune r @ s) = EncodeRune r @ coerce_utf8 s" if "valid_rune r" for r
  proof -
    obtain c cs where e: "EncodeRune r = c # cs" using EncodeRune_nonempty by (cases "EncodeRune r") blast
    note d = DecodeRune_EncodeRune [OF that, of s]
    then show ?thesis by (simp add: e Let_def)
  qed
  moreover have "valid_rune RuneError" by (simp add: valid_rune_def RuneError_def is_surrogate_def)
  ultimately show ?thesis by (cases "valid_rune r") (simp_all add: EncodeRune_invalid)
qed

lemma coerce_utf8_idem [simp]: "coerce_utf8 (coerce_utf8 s) = coerce_utf8 s"
  by (induction s rule: coerce_utf8.induct) (simp_all add: Let_def coerce_utf8_EncodeRune)

lemma coerce_utf8_ascii: "list_all (\<lambda>c. code c < 0x80) s \<Longrightarrow> coerce_utf8 s = s"
  by (induction s) (simp_all add: DecodeRune_def rune_size_def EncodeRune_def is_surrogate_def Let_def)

end
