(* ===== verification/Go_Decimal.thy ===== *)
theory Go_Decimal
  imports Go_Float
begin

text \<open>
  Decimal and binary floating point: reading \<open>D * 10^E\<close> (\<open>strconv.ParseFloat\<close>), rounded to nearest
  with ties to even, and the shortest decimal that is read back as a given number
  (\<open>strconv.AppendFloat\<close> with precision -1).  All arithmetic is exact.
\<close>

section \<open>Reading\<close>

text \<open>
  A quotient to more binary places than any format has, with a sticky bit for the remainder, so that
  the truncation does not show after rounding.
\<close>

definition sticky_ratio :: "nat \<Rightarrow> nat \<Rightarrow> nat \<times> int" where
  "sticky_ratio n d =
     (let k = 1100 + bitlen d; q = n * 2 ^ k div d; r = n * 2 ^ k mod d
      in (2 * q + (if r = 0 then 0 else 1), - int k - 1))"

text \<open>The magnitude of \<open>D * 10^E\<close> in a format; at least \<open>I\<close> if it overflows.\<close>

definition decimal_pack :: "nat \<Rightarrow> int \<Rightarrow> nat \<Rightarrow> nat \<Rightarrow> int \<Rightarrow> nat" where
  "decimal_pack p emin I D E =
     pack p emin I (if 0 \<le> E then (D * 10 ^ nat E, 0) else sticky_ratio D (10 ^ nat (- E)))"

definition decimal64 :: "nat \<Rightarrow> int \<Rightarrow> nat" where "decimal64 = decimal_pack 53 (-1074) inf64"
definition decimal32 :: "nat \<Rightarrow> int \<Rightarrow> nat" where "decimal32 = decimal_pack 24 (-149) inf32"


section \<open>Writing\<close>

text \<open>
  A multiple of \<open>10^k\<close> that is read as the number \<open>b\<close>: of the two around \<open>b\<close> the nearer one, or the even
  one, if both are read as \<open>b\<close>.
\<close>

definition multiple_near :: "nat \<Rightarrow> int \<Rightarrow> nat \<Rightarrow> nat \<Rightarrow> int \<Rightarrow> nat option" where
  "multiple_near p emin I b k =
     (case unpack p emin b of (m, e) \<Rightarrow>
        let num = m * 2 ^ nat e * 10 ^ nat (- k);
            den = 2 ^ nat (- e) * 10 ^ nat k;
            c = num div den;
            r = num mod den;
            below = (decimal_pack p emin I c k = b);
            above = (decimal_pack p emin I (c + 1) k = b)
        in if below \<and> above
           then Some (if 2 * r < den \<or> (2 * r = den \<and> even c) then c else c + 1)
           else if below then Some c
           else if above then Some (c + 1)
           else None)"

fun first_some :: "('a \<Rightarrow> 'b option) \<Rightarrow> 'a list \<Rightarrow> ('a \<times> 'b) option" where
  "first_some f [] = None"
| "first_some f (x # xs) = (case f x of Some y \<Rightarrow> Some (x, y) | None \<Rightarrow> first_some f xs)"

text \<open>
  The shortest decimal is the one with the largest power of ten.  No format exceeds \<open>10^310\<close>; with the
  exponent of the last binary place the decimal expansion is exact, so the search ends there.
\<close>

definition shortest :: "nat \<Rightarrow> int \<Rightarrow> nat \<Rightarrow> nat \<Rightarrow> (int \<times> nat) option" where
  "shortest p emin I b =
     first_some (multiple_near p emin I b) (rev [min 0 (snd (unpack p emin b))..310])"

definition shortest64 :: "nat \<Rightarrow> (int \<times> nat) option" where "shortest64 = shortest 53 (-1074) inf64"
definition shortest32 :: "nat \<Rightarrow> (int \<times> nat) option" where "shortest32 = shortest 24 (-149) inf32"


section \<open>An exact decimal is read exactly\<close>

lemma pack_scale_to:
  assumes "0 < m" "m' = m * 2 ^ k" "e' = e - int k"
  shows "pack p emin I (m', e') = pack p emin I (m, e)"
  using pack_scale [OF assms(1)] assms(2,3) by simp

text \<open>\<open>D * 10^E = m * 2^e\<close>, with the negative powers on the other side.\<close>

definition same_number :: "nat \<Rightarrow> int \<Rightarrow> nat \<Rightarrow> int \<Rightarrow> bool" where
  "same_number D E m e \<longleftrightarrow> D * 10 ^ nat E * 2 ^ nat (- e) = m * 2 ^ nat e * 10 ^ nat (- E)"

lemma sticky_ratio_exact:
  assumes m: "0 < m" and e: "- 1100 \<le> e" and eq: "n * 2 ^ nat (- e) = m * 2 ^ nat e * d" and d: "0 < d"
  shows "pack p emin I (sticky_ratio n d) = pack p emin I (m, e)"
proof -
  define k where "k = 1100 + bitlen d"
  define j where "j = nat (e + int k)"
  have j: "int j = e + int k" using e by (simp add: j_def k_def)
  have "n * 2 ^ k = m * 2 ^ j * d"
  proof (cases "0 \<le> e")
    case True
    then have "j = nat e + k" using j by linarith
    then show ?thesis using True eq by (simp add: power_add mult_ac)
  next
    case False
    then have k: "k = nat (- e) + j" using j by linarith
    have "n * 2 ^ k = n * 2 ^ nat (- e) * 2 ^ j" by (simp add: k power_add)
    then show ?thesis using False eq by (simp add: mult_ac)
  qed
  then have "n * 2 ^ k div d = m * 2 ^ j" "n * 2 ^ k mod d = 0" using d by simp_all
  then have "sticky_ratio n d = (m * 2 ^ Suc j, - int k - 1)"
    by (simp add: sticky_ratio_def Let_def flip: k_def)
  moreover have "- int k - 1 = e - int (Suc j)" using j by simp
  ultimately show ?thesis using pack_scale [OF m, of p emin I "Suc j" e] by simp
qed

lemma decimal_pack_exact:
  assumes m: "0 < m" and e: "- 1100 \<le> e" and eq: "same_number D E m e"
  shows "decimal_pack p emin I D E = pack p emin I (m, e)"
proof (cases "0 \<le> E")
  case True
  show ?thesis
  proof (cases "0 \<le> e")
    case e0: True
    then have "D * 10 ^ nat E = m * 2 ^ nat e" using eq True by (simp add: same_number_def)
    then show ?thesis using True e0 m by (simp add: decimal_pack_def pack_scale_to [of m _ "nat e"])
  next
    case False
    then have d: "m = D * 10 ^ nat E * 2 ^ nat (- e)" using eq True by (simp add: same_number_def)
    with m have "0 < D * 10 ^ nat E" by (metis mult_0 neq0_conv)
    then have "pack p emin I (m, e) = pack p emin I (D * 10 ^ nat E, 0)"
      using d False by (intro pack_scale_to) (simp, simp, linarith)
    then show ?thesis using True by (simp add: decimal_pack_def)
  qed
next
  case False
  then have "D * 2 ^ nat (- e) = m * 2 ^ nat e * 10 ^ nat (- E)" using eq by (simp add: same_number_def)
  from sticky_ratio_exact [OF m e this] show ?thesis using False by (simp add: decimal_pack_def)
qed

lemma decimal_pack_zero: "0 < p \<Longrightarrow> decimal_pack p emin I 0 E = 0"
  by (simp add: decimal_pack_def sticky_ratio_def pack_zero Let_def)

lemma decimal_pack_shift: "0 \<le> E \<Longrightarrow> decimal_pack p emin I (D * 10 ^ nat E) 0 = decimal_pack p emin I D E"
  by (simp add: decimal_pack_def)

section \<open>The shortest decimal exists and is read back\<close>

lemma first_some_Some: "first_some f xs = Some (x, y) \<Longrightarrow> x \<in> set xs \<and> f x = Some y"
  by (induction xs) (auto split: option.splits)

lemma first_some_ex: "x \<in> set xs \<Longrightarrow> f x \<noteq> None \<Longrightarrow> first_some f xs \<noteq> None"
  by (induction xs) (auto split: option.splits)

lemma multiple_near_reads: "multiple_near p emin I b k = Some D \<Longrightarrow> decimal_pack p emin I D k = b"
  by (auto simp: multiple_near_def Let_def split: prod.splits if_splits)

text \<open>At the exponent of the last place the multiple below is the number itself.\<close>

lemma multiple_near_last:
  assumes "1 < p" "0 < b" "b < I" "-1100 \<le> emin"
  shows "multiple_near p emin I b (min 0 (snd (unpack p emin b))) \<noteq> None"
proof -
  obtain m e where u: "unpack p emin b = (m, e)" by fastforce
  define k where "k = min 0 e"
  have b: "pack p emin I (m, e) = b" using pack_unpack [OF assms(1,3)] by (simp add: u [symmetric])
  have m: "0 < m"
  proof (rule ccontr)
    assume "\<not> 0 < m"
    then have "pack p emin I (m, e) = 0" using pack_zero [of p emin I e] assms(1) by simp
    then show False using b assms(2) by simp
  qed
  have e: "-1100 \<le> e" using u assms(4) by (auto simp: unpack_def Let_def split: if_splits)
  have p10: "(10::nat) ^ n = 5 ^ n * 2 ^ n" for n by (simp flip: power_mult_distrib)
  define D where "D = m * 2 ^ nat e * 10 ^ nat (- k) div (2 ^ nat (- e) * 10 ^ nat k)"
  have D: "D = m * 2 ^ nat e * 5 ^ nat (- k)"
    by (cases "0 \<le> e") (simp_all add: D_def k_def p10 [of "nat (- e)"] mult.assoc [symmetric])
  have "same_number D k m e"
    by (cases "0 \<le> e") (simp_all add: same_number_def D k_def p10 [of "nat (- e)"] mult_ac)
  from decimal_pack_exact [OF m e this] have "decimal_pack p emin I D k = b" by (simp add: b)
  then show ?thesis
    by (simp add: multiple_near_def u Let_def flip: k_def D_def)
qed

lemma shortest_ex:
  assumes "1 < p" "0 < b" "b < I" "-1100 \<le> emin"
  shows "\<exists>k D. shortest p emin I b = Some (k, D) \<and> decimal_pack p emin I D k = b \<and> - 1100 \<le> k \<and> k \<le> 310"
proof -
  let ?k = "min 0 (snd (unpack p emin b))"
  have "?k \<in> set (rev [?k..310])" by simp
  then have "shortest p emin I b \<noteq> None"
    unfolding shortest_def using multiple_near_last [OF assms(1-4)] by (rule first_some_ex)
  then obtain k D where kD: "shortest p emin I b = Some (k, D)" by auto
  then have "k \<in> set [?k..310]" "multiple_near p emin I b k = Some D"
    using first_some_Some unfolding shortest_def by fastforce+
  moreover have "-1100 \<le> ?k" using assms(4) by (auto simp: unpack_def Let_def split: prod.splits)
  ultimately show ?thesis using kD multiple_near_reads by fastforce
qed

lemma multiple_near_bound:
  assumes "multiple_near p emin I b k = Some D" "unpack p emin b = (m, e)"
  shows "D \<le> m * 2 ^ nat e * 10 ^ nat (- k) + 1"
proof -
  let ?num = "m * 2 ^ nat e * 10 ^ nat (- k)" and ?den = "2 ^ nat (- e) * 10 ^ nat k :: nat"
  have "D \<le> ?num div ?den + 1"
    using assms by (auto simp: multiple_near_def Let_def split: if_splits)
  also have "\<dots> \<le> ?num + 1" by (simp add: div_le_dividend)
  finally show ?thesis .
qed

lemma unpack64_bounds:
  assumes "b < inf64" "unpack64 b = (m, e)"
  shows "m < 2 ^ 53" "-1074 \<le> e" "e \<le> 971"
proof -
  define E where "E = b div 2 ^ 52"
  define f where "f = b mod 2 ^ 52"
  have E: "E < 2047" using assms(1) by (simp add: E_def inf64_def less_mult_imp_div_less)
  have f: "f < 2 ^ 52" by (simp add: f_def)
  have "unpack64 b = (if E = 0 then (f, -1074) else (2 ^ 52 + f, int E - 1075))"
    by (simp add: unpack64_def unpack_def Let_def E_def f_def)
  then have me: "(m, e) = (if E = 0 then (f, -1074) else (2 ^ 52 + f, int E - 1075))"
    by (simp only: assms(2))
  show "m < 2 ^ 53" "-1074 \<le> e" "e \<le> 971" using me E f by (auto split: if_splits)
qed

lemma below_power_10: "x \<le> 10 ^ i * 10 ^ j \<Longrightarrow> y \<le> x + 1 \<Longrightarrow> y < 10 ^ Suc (i + j)" for x y :: nat
proof -
  assume "x \<le> 10 ^ i * 10 ^ j" "y \<le> x + 1"
  then have "y \<le> 10 ^ (i + j) + 1" by (simp add: power_add)
  moreover have "1 \<le> (10::nat) ^ (i + j)" by simp
  ultimately have "y < 10 * 10 ^ (i + j)" by linarith
  then show ?thesis by simp
qed

lemma shortest64_ex:
  assumes "0 < b" "b < inf64"
  shows "\<exists>k D. shortest64 b = Some (k, D) \<and> decimal64 D k = b \<and> 0 < D \<and> (\<exists>j\<le>2124. D < 10 ^ Suc j) \<and> -1100 \<le> k \<and> k \<le> 310"
proof -
  obtain k D where kD: "shortest64 b = Some (k, D)" "decimal64 D k = b" "-1100 \<le> k" "k \<le> 310"
    using shortest_ex [of 53 b inf64 "-1074"] assms unfolding shortest64_def decimal64_def by auto
  obtain m e where u: "unpack64 b = (m, e)" by fastforce
  note ub = unpack64_bounds [OF assms(2) u]
  have "multiple_near 53 (-1074) inf64 b k = Some D"
    using kD(1) first_some_Some unfolding shortest64_def shortest_def by fastforce
  then have D: "D \<le> m * 2 ^ nat e * 10 ^ nat (- k) + 1"
    by (rule multiple_near_bound) (use u in \<open>simp add: unpack64_def\<close>)
  have "m \<le> 10 ^ 53" using ub(1) by simp
  moreover have "(2::nat) ^ nat e \<le> 10 ^ nat e" by (intro power_mono) simp_all
  ultimately have "m * 2 ^ nat e \<le> 10 ^ 53 * 10 ^ nat e" by (rule mult_le_mono)
  then have "m * 2 ^ nat e * 10 ^ nat (- k) \<le> 10 ^ (53 + nat e) * 10 ^ nat (- k)"
    by (simp only: power_add mult_le_mono1)
  from below_power_10 [OF this D] have "D < 10 ^ Suc (53 + nat e + nat (- k))" .
  moreover have "53 + nat e + nat (- k) \<le> 2124" using ub(3) kD(3) by linarith
  ultimately have "\<exists>j\<le>2124. D < 10 ^ Suc j" by blast
  moreover have "0 < D"
    using kD(2) assms(1) decimal_pack_zero [of 53 "-1074" inf64 k] by (cases D) (auto simp: decimal64_def)
  ultimately show ?thesis using kD by blast
qed

text \<open>Integers below \<open>2^64\<close> do not overflow.\<close>

lemma pack64_finite:
  assumes "m < 2 ^ 64"
  shows "pack64 (m, 0) < inf64"
proof -
  consider "m = 0" | "0 < m" "bitlen m \<le> 53" | "0 < m" "53 < bitlen m" by linarith
  then show ?thesis
  proof cases
    case 1
    then show ?thesis by (simp add: pack64_def pack_zero inf64_def)
  next
    case 2
    then show ?thesis using pack64_exact(2) [of m 0] by simp
  next
    case 3
    define j where "j = bitlen m - 53"
    have j: "j \<le> 11" using bitlen_le [OF 3(1) assms] by (simp add: j_def)
    have e': "last_place 53 (-1074) m 0 = int j" using 3(2) by (simp add: last_place_def j_def)
    have "bitlen m = 53 + j" using 3(2) by (simp add: j_def)
    then have "m < 2 ^ 53 * 2 ^ j" using bitlen_bounds [OF 3(1)] by (simp only: power_add)
    then have "m div 2 ^ j < 2 ^ 53" by (simp add: less_mult_imp_div_less)
    moreover have "0 < j" using 3(2) by (simp add: j_def)
    ultimately have q: "rescale m 0 (int j) \<le> 2 ^ 53"
      by (auto simp: rescale_def round_half_even_def Let_def)
    have "pack64 (m, 0) = pack_bits 53 (-1074) inf64 (int j) (rescale m 0 (int j))"
      by (simp add: pack64_def pack.simps e' Let_def)
    also have "\<dots> \<le> nat (int j + 1075) * 2 ^ 52 + 2 ^ 53"
      using q by (auto simp: pack_bits_def)
    also have "\<dots> \<le> 1086 * 2 ^ 52 + 2 ^ 53"
      using j by (intro add_mono mult_mono) simp_all
    also have "\<dots> < inf64" by (simp add: inf64_def)
    finally show ?thesis .
  qed
qed

end
