(* ===== verification/Go_Time.thy ===== *)
theory Go_Time
  imports Go_Float
begin

text \<open>
  Durations: \<open>time.ParseDuration\<close> of the standard library, which \<open>applyDefaults\<close> uses on
  \<open>retransmit_delay\<close>.  A duration is a number of nanoseconds.  The fraction of a number is scaled
  in \<open>float64\<close> arithmetic as the library does.
\<close>

section \<open>float64 multiplication and division of positive numbers\<close>

definition f64_finite_mul :: "u64 \<Rightarrow> u64 \<Rightarrow> u64" where
  "f64_finite_mul x y =
     (case (unpack64 (f64_mag x), unpack64 (f64_mag y)) of
        ((m, e), (m', e')) \<Rightarrow> f64_of_mag False (pack64 (m * m', e + e')))"

text \<open>
  The quotient is computed to 200 binary places with a sticky bit for the remainder, which leaves the
  rounding of \<open>pack64\<close> unaffected by the truncation.
\<close>

definition f64_finite_div :: "u64 \<Rightarrow> u64 \<Rightarrow> u64" where
  "f64_finite_div x y =
     (case (unpack64 (f64_mag x), unpack64 (f64_mag y)) of
        ((m, e), (m', e')) \<Rightarrow>
          let n = m * 2 ^ 200; q = n div m'; r = n mod m'
          in f64_of_mag False (pack64 (2 * q + (if r = 0 then 0 else 1), e - e' - 201)))"


section \<open>ParseDuration\<close>

type_synonym duration = int

definition Nanosecond :: duration where "Nanosecond = 1"
definition Microsecond :: duration where "Microsecond = 1000 * Nanosecond"
definition Millisecond :: duration where "Millisecond = 1000 * Microsecond"
definition Second :: duration where "Second = 1000 * Millisecond"
definition Minute :: duration where "Minute = 60 * Second"
definition Hour :: duration where "Hour = 60 * Minute"

lemmas duration_consts = Nanosecond_def Microsecond_def Millisecond_def Second_def Minute_def Hour_def

definition is_digit :: "char \<Rightarrow> bool" where
  "is_digit c \<longleftrightarrow> 48 \<le> (of_char c :: nat) \<and> (of_char c :: nat) \<le> 57"

definition digit_value :: "char \<Rightarrow> nat" where
  "digit_value c = of_char c - 48"

text \<open>\<open>None\<close> is the overflow error.\<close>

fun leadingInt :: "nat \<Rightarrow> string \<Rightarrow> (nat \<times> string) option" where
  "leadingInt x [] = Some (x, [])"
| "leadingInt x (c # s) =
     (if \<not> is_digit c then Some (x, c # s)
      else if x > 2 ^ 63 div 10 then None
      else let x = x * 10 + digit_value c in
        if x > 2 ^ 63 then None else leadingInt x s)"

fun leadingFraction :: "nat \<Rightarrow> u64 \<Rightarrow> bool \<Rightarrow> string \<Rightarrow> nat \<times> u64 \<times> string" where
  "leadingFraction x scale overflow [] = (x, scale, [])"
| "leadingFraction x scale overflow (c # s) =
     (if \<not> is_digit c then (x, scale, c # s)
      else if overflow then leadingFraction x scale True s
      else if x > (2 ^ 63 - 1) div 10 then leadingFraction x scale True s
      else let y = x * 10 + digit_value c in
        if y > 2 ^ 63 then leadingFraction x scale True s
        else leadingFraction y (f64_finite_mul scale (int_to_f64 10)) False s)"

definition unit_of :: "string \<Rightarrow> nat option" where
  "unit_of u =
     (if u = ''ns'' then Some (nat Nanosecond)
      else if u = ''us'' then Some (nat Microsecond)
      else if u = [CHR 0xC2, CHR 0xB5, CHR ''s''] then Some (nat Microsecond)
      else if u = [CHR 0xCE, CHR 0xBC, CHR ''s''] then Some (nat Microsecond)
      else if u = ''ms'' then Some (nat Millisecond)
      else if u = ''s'' then Some (nat Second)
      else if u = ''m'' then Some (nat Minute)
      else if u = ''h'' then Some (nat Hour)
      else None)"

text \<open>The digits after a decimal point, if the text goes on with one.\<close>

definition fraction_part :: "string \<Rightarrow> nat \<times> u64 \<times> string \<times> bool" where
  "fraction_part s =
     (case s of
        [] \<Rightarrow> (0, int_to_f64 1, s, False)
      | c # s' \<Rightarrow>
          if c = CHR ''.'' then
            (case leadingFraction 0 (int_to_f64 1) False s' of
               (f, scale, s2) \<Rightarrow> (f, scale, s2, length s' \<noteq> length s2))
          else (0, int_to_f64 1, s, False))"

text \<open>\<open>v\<close> and the fraction \<open>f / scale\<close> of a unit of \<open>ns\<close> nanoseconds; \<open>None\<close> is the overflow error.\<close>

definition duration_value :: "nat \<Rightarrow> nat \<Rightarrow> nat \<Rightarrow> u64 \<Rightarrow> nat option" where
  "duration_value v ns f scale =
     (if v > 2 ^ 63 div ns then None
      else
        let v = v * ns;
            v = (if f > 0
                 then v + nat (f64_int_part (f64_finite_mul (int_to_f64 (int f))
                        (f64_finite_div (int_to_f64 (int ns)) scale)))
                 else v)
        in if v > 2 ^ 63 then None else Some v)"

text \<open>One number with its unit; the result is the nanoseconds it adds and the rest of the string.\<close>

definition duration_term :: "string \<Rightarrow> (nat \<times> string) option" where
  "duration_term s =
     (case s of
        [] \<Rightarrow> None
      | c # _ \<Rightarrow>
        if \<not> (c = CHR ''.'' \<or> is_digit c) then None
        else
          (case leadingInt 0 s of
             None \<Rightarrow> None
           | Some (v, s1) \<Rightarrow>
             let pre = (length s \<noteq> length s1);
                 (f, scale, s2, post) = fraction_part s1
             in if \<not> pre \<and> \<not> post then None
                else
                  let u = takeWhile (\<lambda>c. \<not> (c = CHR ''.'' \<or> is_digit c)) s2;
                      s3 = drop (length u) s2
                  in if u = [] then None
                     else (case unit_of u of
                         None \<Rightarrow> None
                       | Some ns \<Rightarrow> map_option (\<lambda>v. (v, s3)) (duration_value v ns f scale))))"

text \<open>The loop over the terms; each consumes at least one byte, so \<open>length s\<close> iterations suffice.\<close>

fun duration_terms :: "nat \<Rightarrow> nat \<Rightarrow> string \<Rightarrow> nat option" where
  "duration_terms fuel d [] = Some d"
| "duration_terms 0 d s = None"
| "duration_terms (Suc fuel) d s =
     (case duration_term s of
        None \<Rightarrow> None
      | Some (v, s) \<Rightarrow>
          let d = (d + v) mod 2 ^ 64 in if d > 2 ^ 63 then None else duration_terms fuel d s)"

definition parse_duration :: "string \<Rightarrow> duration option" where
  "parse_duration str =
     (let neg = (case str of c # _ \<Rightarrow> c = CHR ''-'' | [] \<Rightarrow> False);
          s = (case str of c # s \<Rightarrow> if c = CHR ''-'' \<or> c = CHR ''+'' then s else str | [] \<Rightarrow> [])
      in if s = ''0'' then Some 0
         else if s = '''' then None
         else (case duration_terms (length s) 0 s of
             None \<Rightarrow> None
           | Some d \<Rightarrow>
               if neg then Some (- int d)
               else if d > 2 ^ 63 - 1 then None
               else Some (int d)))"


lemma parse_duration_examples:
  "parse_duration ''100ms'' = Some (100 * Millisecond)"
  "parse_duration ''0s'' = Some 0"
  "parse_duration ''1s'' = Some Second"
  "parse_duration ''1h2m'' = Some (62 * Minute)"
  "parse_duration ''-5s'' = Some (- 5 * Second)"
  "parse_duration ''5'' = None"
  by (simp_all add: parse_duration_def duration_term_def duration_value_def fraction_part_def is_digit_def digit_value_def unit_of_def
      duration_consts Let_def)

section \<open>The fuel suffices\<close>

lemma leadingInt_shorter: "leadingInt x s = Some (v, r) \<Longrightarrow> length r \<le> length s"
  by (induction x s rule: leadingInt.induct) (auto simp: Let_def split: if_splits)

lemma leadingFraction_shorter: "leadingFraction x scale ov s = (f, scale', r) \<Longrightarrow> length r \<le> length s"
  by (induction x scale ov s rule: leadingFraction.induct) (auto simp: Let_def split: if_splits)

lemma fraction_part_shorter: "fraction_part s = (f, scale, r, post) \<Longrightarrow> length r \<le> length s"
  by (auto simp: fraction_part_def split: list.splits if_splits prod.splits dest: leadingFraction_shorter)

lemma duration_term_shorter:
  assumes "duration_term s = Some (v, r)"
  shows "length r < length s"
proof -
  obtain c s' where s: "s = c # s'" "c = CHR ''.'' \<or> is_digit c"
    using assms by (auto simp: duration_term_def split: list.splits if_splits)
  then obtain n s1 where n: "leadingInt 0 s = Some (n, s1)"
    using assms by (auto simp: duration_term_def split: option.splits)
  obtain f scale s2 post where fr: "fraction_part s1 = (f, scale, s2, post)" by (metis prod_cases4)
  define u where "u = takeWhile (\<lambda>c. \<not> (c = CHR ''.'' \<or> is_digit c)) s2"
  have "duration_term s = (if \<not> length s \<noteq> length s1 \<and> \<not> post then None else if u = [] then None
      else case unit_of u of None \<Rightarrow> None
        | Some ns \<Rightarrow> map_option (\<lambda>v. (v, drop (length u) s2)) (duration_value n ns f scale))"
    unfolding duration_term_def
    by (simp only: s(1) list.case n [unfolded s(1)] option.case prod.case fr Let_def s(2) not_not
        simp_thms if_False if_True u_def [symmetric])
  then have "u \<noteq> [] \<and> r = drop (length u) s2"
    using assms by (cases "u = []"; cases "unit_of u"; cases "duration_value n (the (unit_of u)) f scale")
      (auto split: if_splits)
  then have "length r < length s2" by (cases s2) (auto simp: u_def split: if_splits)
  also have "\<dots> \<le> length s" using leadingInt_shorter [OF n] fraction_part_shorter [OF fr] by simp
  finally show ?thesis .
qed

lemma duration_terms_fuel: "length s \<le> n \<Longrightarrow> duration_terms n d s = duration_terms (length s) d s"
proof (induction "length s" arbitrary: s n d rule: less_induct)
  case less
  show ?case
  proof (cases s)
    case (Cons c s')
    obtain n' where n: "n = Suc n'" "length s' \<le> n'" using less.prems Cons by (cases n) auto
    have "duration_terms n' e r = duration_terms (length s') e r" if "duration_term s = Some (v, r)" for v e r
    proof -
      have r: "length r < length s" by (rule duration_term_shorter [OF that])
      have "duration_terms n' e r = duration_terms (length r) e r"
        "duration_terms (length s') e r = duration_terms (length r) e r"
        by (rule less.hyps [OF r]; use r n(2) Cons in simp)+
      then show ?thesis by simp
    qed
    then show ?thesis
      by (cases "duration_term s") (auto simp: n(1) Cons Let_def)
  qed (cases n; simp)
qed

end
