(* ===== verification/Json_Number.thy ===== *)
theory Json_Number
  imports Go_Decimal Go_Time Schema
begin

text \<open>
  The numbers of JSON text, as \<open>encoding/json\<close> reads and writes them: the grammar of its scanner,
  \<open>strconv.ParseFloat\<close> on what was scanned, and the encoders of integers and floats.
\<close>

section \<open>Reading\<close>

text \<open>The parts of a number: sign, integer digits, fraction digits, sign and digits of the exponent.\<close>

record number_text =
  negative :: bool
  int_digits :: string
  frac_digits :: string
  exp_negative :: bool
  exp_digits :: string

definition scan_int :: "string \<Rightarrow> (string \<times> string) option" where
  "scan_int s =
     (case s of
        [] \<Rightarrow> None
      | c # r \<Rightarrow>
          if c = CHR ''0'' then Some (''0'', r)
          else if is_digit c then Some (takeWhile is_digit s, dropWhile is_digit s)
          else None)"

definition scan_frac :: "string \<Rightarrow> (string \<times> string) option" where
  "scan_frac s =
     (case s of
        [] \<Rightarrow> Some ([], [])
      | c # r \<Rightarrow>
          if c \<noteq> CHR ''.'' then Some ([], s)
          else if takeWhile is_digit r = [] then None
          else Some (takeWhile is_digit r, dropWhile is_digit r))"

definition scan_exp :: "string \<Rightarrow> (bool \<times> string \<times> string) option" where
  "scan_exp s =
     (case s of
        [] \<Rightarrow> Some (False, [], [])
      | c # r \<Rightarrow>
          if c \<noteq> CHR ''e'' \<and> c \<noteq> CHR ''E'' then Some (False, [], s)
          else
            let neg = (r \<noteq> [] \<and> hd r = CHR ''-'');
                t = (if r \<noteq> [] \<and> (hd r = CHR ''-'' \<or> hd r = CHR ''+'') then tl r else r)
            in if takeWhile is_digit t = [] then None
               else Some (neg, takeWhile is_digit t, dropWhile is_digit t))"

definition scan_unsigned :: "bool \<Rightarrow> string \<Rightarrow> (number_text \<times> string) option" where
  "scan_unsigned neg s =
     (case scan_int s of
        None \<Rightarrow> None
      | Some (ds, s) \<Rightarrow>
          (case scan_frac s of
             None \<Rightarrow> None
           | Some (fs, s) \<Rightarrow>
               (case scan_exp s of
                  None \<Rightarrow> None
                | Some (en, es, s) \<Rightarrow>
                    Some (\<lparr>negative = neg, int_digits = ds, frac_digits = fs, exp_negative = en,
                           exp_digits = es\<rparr>, s))))"

definition scan_number :: "string \<Rightarrow> (number_text \<times> string) option" where
  "scan_number s =
     (if s \<noteq> [] \<and> hd s = CHR ''-'' then scan_unsigned True (tl s) else scan_unsigned False s)"

definition digits_nat :: "string \<Rightarrow> nat" where
  "digits_nat ds = foldl (\<lambda>v c. v * 10 + digit_value c) 0 ds"

text \<open>The library stops reading digits of the exponent once it has reached 10000.\<close>

definition exponent_nat :: "string \<Rightarrow> nat" where
  "exponent_nat ds = foldl (\<lambda>e c. if e < 10000 then e * 10 + digit_value c else e) 0 ds"

text \<open>\<open>strconv.ParseFloat\<close>; \<open>None\<close> is its range error, which \<open>Unmarshal\<close> passes on.\<close>

definition ParseFloat :: "number_text \<Rightarrow> u64 option" where
  "ParseFloat t =
     (let ex = int (exponent_nat (exp_digits t));
          E = (if exp_negative t then - ex else ex) - int (length (frac_digits t));
          mag = decimal64 (digits_nat (int_digits t @ frac_digits t)) E
      in if mag < inf64 then Some (f64_of_mag (negative t) mag) else None)"


section \<open>Writing\<close>

definition format_int :: "int \<Rightarrow> string" where
  "format_int i = (if i < 0 then CHR ''-'' # decimal (nat (- i)) else decimal (nat i))"

text \<open>The digits \<open>ds\<close> with the decimal point after \<open>dp\<close> of them, in the formats \<open>'f'\<close> and \<open>'e'\<close>.\<close>

definition format_f :: "string \<Rightarrow> int \<Rightarrow> string" where
  "format_f ds dp =
     (if dp > 0 then take (nat dp) ds @ replicate (nat dp - length ds) (CHR ''0'') else ''0'') @
     (if int (length ds) > dp then CHR ''.'' # replicate (nat (- dp)) (CHR ''0'') @ drop (nat dp) ds else [])"

text \<open>\<open>encoding/json\<close> removes the leading zero of a one-digit negative exponent, so no padding is left.\<close>

definition format_e :: "string \<Rightarrow> int \<Rightarrow> string" where
  "format_e ds dp =
     take 1 ds @ (if length ds > 1 then CHR ''.'' # drop 1 ds else []) @
     CHR ''e'' # (if dp - 1 < 0 then CHR ''-'' else CHR ''+'') # decimal (nat \<bar>dp - 1\<bar>)"

text \<open>\<open>floatEncoder\<close> on a finite number: exponents below \<open>1e-6\<close> and from \<open>1e21\<close> on.\<close>

definition format_mag :: "(nat \<Rightarrow> (int \<times> nat) option) \<Rightarrow> nat \<Rightarrow> nat \<Rightarrow> nat \<Rightarrow> string" where
  "format_mag short small large mag =
     (if mag = 0 then ''0''
      else case short mag of
          None \<Rightarrow> []
        | Some (k, D) \<Rightarrow>
            let ds = decimal D; dp = int (length ds) + k
            in if mag < small \<or> large \<le> mag then format_e ds dp else format_f ds dp)"

definition format_sign :: "bool \<Rightarrow> string \<Rightarrow> string" where
  "format_sign neg s = (if neg then CHR ''-'' # s else s)"

text \<open>\<open>None\<close> is the \<open>UnsupportedValueError\<close> on infinities and NaN.\<close>

definition format_float64 :: "u64 \<Rightarrow> string option" where
  "format_float64 x =
     (if inf64 \<le> f64_mag x then None
      else Some (format_sign (bit x 63) (format_mag shortest64 (decimal64 1 (-6)) (decimal64 1 21) (f64_mag x))))"

definition format_float32 :: "u32 \<Rightarrow> string option" where
  "format_float32 x =
     (if inf32 \<le> f32_mag x then None
      else Some (format_sign (bit x 31) (format_mag shortest32 (decimal32 1 (-6)) (decimal32 1 21) (f32_mag x))))"


section \<open>Digits\<close>

lemma digit_char [simp]:
  fixes d :: nat
  shows "d < 10 \<Longrightarrow> is_digit (char_of (48 + d))" "d < 10 \<Longrightarrow> digit_value (char_of (48 + d)) = d"
  by (simp_all add: is_digit_def digit_value_def)

lemma char_0 [simp]: "char_of (48 :: nat) = CHR ''0''"
  using char_of_char [of "CHR ''0''", where ?'a = nat] by simp

lemma digit_char_0: "d < 10 \<Longrightarrow> char_of (48 + d) = CHR ''0'' \<longleftrightarrow> d = 0" for d :: nat
  by (metis add.right_neutral char_0 digit_char(2) zero_less_numeral)

lemma digits_nat_Nil [simp]: "digits_nat [] = 0"
  by (simp add: digits_nat_def)

lemma digits_nat_snoc [simp]: "digits_nat (ds @ [c]) = digits_nat ds * 10 + digit_value c"
  by (simp add: digits_nat_def)

lemma digits_nat_zeros [simp]: "digits_nat (replicate n (CHR ''0'')) = 0"
  by (induction n) (simp_all add: replicate_append_same [symmetric] digit_value_def del: replicate.simps(2) add: replicate_Suc)

lemma digits_nat_append: "digits_nat (xs @ ys) = digits_nat xs * 10 ^ length ys + digits_nat ys"
proof (induction ys rule: rev_induct)
  case (snoc c ys)
  then show ?case by (simp flip: append_assoc)
qed simp

lemma decimal_digits: "list_all is_digit (decimal n)" "digits_nat (decimal n) = n" "decimal n \<noteq> []"
proof -
  show "list_all is_digit (decimal n)"
    by (induction n rule: decimal.induct) (subst decimal.simps, auto)
  show "digits_nat (decimal n) = n"
  proof (induction n rule: decimal.induct)
    case (1 n)
    show ?case
    proof (cases "n < 10")
      case True
      then show ?thesis using digits_nat_snoc [of "[]"] by (subst decimal.simps) simp
    next
      case False
      then show ?thesis using 1 by (subst decimal.simps) simp
    qed
  qed
  show "decimal n \<noteq> []" by (subst decimal.simps) simp
qed

lemma hd_decimal: "0 < n \<Longrightarrow> hd (decimal n) \<noteq> CHR ''0''"
proof (induction n rule: decimal.induct)
  case (1 n)
  show ?case
  proof (cases "n < 10")
    case True
    then show ?thesis using 1(2) by (subst decimal.simps) (simp add: digit_char_0)
  next
    case False
    then show ?thesis using 1 decimal_digits(3) [of "n div 10"] by (subst decimal.simps) simp
  qed
qed

lemma decimal_zero [simp]: "decimal 0 = ''0''"
  by (subst decimal.simps) simp

section \<open>What is written is scanned\<close>

definition number_ok :: "number_text \<Rightarrow> bool" where
  "number_ok t \<longleftrightarrow> list_all is_digit (int_digits t) \<and> int_digits t \<noteq> [] \<and>
     (hd (int_digits t) = CHR ''0'' \<longrightarrow> length (int_digits t) = 1) \<and>
     list_all is_digit (frac_digits t) \<and> list_all is_digit (exp_digits t) \<and>
     (exp_digits t = [] \<longrightarrow> \<not> exp_negative t)"

definition number_string :: "number_text \<Rightarrow> string" where
  "number_string t =
     format_sign (negative t) (int_digits t @
       (if frac_digits t = [] then [] else CHR ''.'' # frac_digits t) @
       (if exp_digits t = [] then []
        else CHR ''e'' # (if exp_negative t then CHR ''-'' else CHR ''+'') # exp_digits t))"

text \<open>What may follow a number without being read as a part of it.\<close>

definition ends_number :: "string \<Rightarrow> bool" where
  "ends_number s \<longleftrightarrow> s = [] \<or> \<not> is_digit (hd s) \<and> hd s \<notin> {CHR ''.'', CHR ''e'', CHR ''E''}"

definition no_digit :: "string \<Rightarrow> bool" where
  "no_digit s \<longleftrightarrow> s = [] \<or> \<not> is_digit (hd s)"

lemma span_digits:
  "list_all is_digit ds \<Longrightarrow> no_digit s \<Longrightarrow> takeWhile is_digit (ds @ s) = ds \<and> dropWhile is_digit (ds @ s) = s"
proof (induction ds)
  case Nil
  then show ?case by (cases s) (simp_all add: no_digit_def)
qed simp

lemma no_digit_chars [simp]:
  "no_digit []" "no_digit (CHR ''.'' # s)" "no_digit (CHR ''e'' # s)" "ends_number s \<Longrightarrow> no_digit s"
  by (auto simp: no_digit_def is_digit_def ends_number_def)

lemma scan_int_digits:
  assumes "list_all is_digit ds" "ds \<noteq> []" "hd ds = CHR ''0'' \<longrightarrow> length ds = 1" "no_digit s"
  shows "scan_int (ds @ s) = Some (ds, s)"
proof (cases ds)
  case (Cons d ds')
  show ?thesis
  proof (cases "d = CHR ''0''")
    case True
    then have "ds' = []" using assms(3) Cons by simp
    then show ?thesis by (simp add: scan_int_def Cons True)
  next
    case False
    then show ?thesis
      using span_digits [OF assms(1,4)] assms(1) by (simp add: scan_int_def Cons)
  qed
qed (use assms(2) in simp)

lemma scan_frac_digits:
  assumes "list_all is_digit fs" "no_digit s" "s = [] \<or> hd s \<noteq> CHR ''.''"
  shows "scan_frac ((if fs = [] then [] else CHR ''.'' # fs) @ s) = Some (fs, s)"
  using assms span_digits [OF assms(1,2)]
  by (cases s; cases fs) (auto simp: scan_frac_def)

lemma scan_exp_digits:
  assumes "list_all is_digit es" "ends_number s" "es = [] \<longrightarrow> \<not> en"
  shows "scan_exp ((if es = [] then [] else CHR ''e'' # (if en then CHR ''-'' else CHR ''+'') # es) @ s)
    = Some (en, es, s)"
  using assms span_digits [OF assms(1), of s]
  by (cases s; cases es) (auto simp: scan_exp_def ends_number_def)

lemma scan_number_string:
  assumes t: "number_ok t" and s: "ends_number s"
  shows "scan_number (number_string t @ s) = Some (t, s)"
proof -
  let ?fs = "if frac_digits t = [] then [] else CHR ''.'' # frac_digits t"
  let ?es = "if exp_digits t = [] then []
    else CHR ''e'' # (if exp_negative t then CHR ''-'' else CHR ''+'') # exp_digits t"
  have nd: "no_digit (?es @ s)" "?es @ s = [] \<or> hd (?es @ s) \<noteq> CHR ''.''" "no_digit (?fs @ ?es @ s)"
    using s by (auto simp: ends_number_def no_digit_def is_digit_def)
  have ok: "list_all is_digit (int_digits t)" "int_digits t \<noteq> []"
    "hd (int_digits t) = CHR ''0'' \<longrightarrow> length (int_digits t) = 1"
    "list_all is_digit (frac_digits t)" "list_all is_digit (exp_digits t)" "exp_digits t = [] \<longrightarrow> \<not> exp_negative t"
    using t by (simp_all add: number_ok_def)
  have "hd (int_digits t) \<noteq> CHR ''-''" using ok(1,2) by (cases "int_digits t") (auto simp: is_digit_def)
  then have "scan_number (number_string t @ s) = scan_unsigned (negative t) (int_digits t @ ?fs @ ?es @ s)"
    using ok(2) by (simp add: scan_number_def number_string_def format_sign_def)
  also have "\<dots> = Some (t, s)"
    by (simp only: scan_unsigned_def scan_int_digits [OF ok(1-3) nd(3)] scan_frac_digits [OF ok(4) nd(1,2)]
        scan_exp_digits [OF ok(5) s ok(6)] option.case prod.case) simp
  finally show ?thesis .
qed

section \<open>What is written is read back\<close>

lemma digit_value_less: "is_digit c \<Longrightarrow> digit_value c < 10"
  unfolding is_digit_def digit_value_def by linarith

lemma decimal_length: "n < 10 ^ Suc j \<Longrightarrow> length (decimal n) \<le> Suc j"
proof (induction j arbitrary: n)
  case 0
  then show ?case by (subst decimal.simps) simp
next
  case (Suc j)
  show ?case
  proof (cases "n < 10")
    case True
    then show ?thesis by (subst decimal.simps) simp
  next
    case False
    have "n div 10 < 10 ^ Suc j" using Suc.prems by (simp add: less_mult_imp_div_less)
    from Suc.IH [OF this] show ?thesis using False by (subst decimal.simps) simp
  qed
qed

text \<open>The cut-off of long exponents does not affect a number below 100000.\<close>

lemma exponent_nat_digits: "list_all is_digit ds \<Longrightarrow> digits_nat ds < 100000 \<Longrightarrow> exponent_nat ds = digits_nat ds"
proof (induction ds rule: rev_induct)
  case Nil
  show ?case by (simp add: exponent_nat_def)
next
  case (snoc c ds)
  then have "digits_nat ds < 10000" by simp
  with snoc show ?case by (simp add: exponent_nat_def)
qed

text \<open>The two formats as texts of numbers.\<close>

definition text_f :: "bool \<Rightarrow> nat \<Rightarrow> int \<Rightarrow> number_text" where
  "text_f neg D k =
     (let ds = decimal D; dp = int (length ds) + k
      in \<lparr>negative = neg,
          int_digits = if dp > 0 then take (nat dp) ds @ replicate (nat dp - length ds) (CHR ''0'') else ''0'',
          frac_digits = if int (length ds) > dp then replicate (nat (- dp)) (CHR ''0'') @ drop (nat dp) ds else [],
          exp_negative = False, exp_digits = []\<rparr>)"

definition text_e :: "bool \<Rightarrow> nat \<Rightarrow> int \<Rightarrow> number_text" where
  "text_e neg D k =
     (let ds = decimal D; dp = int (length ds) + k
      in \<lparr>negative = neg, int_digits = take 1 ds, frac_digits = drop 1 ds, exp_negative = dp - 1 < 0,
          exp_digits = decimal (nat \<bar>dp - 1\<bar>)\<rparr>)"

lemma decimal_not_Nil [simp]: "decimal n \<noteq> []" "0 < length (decimal n)"
  using decimal_digits(3) by simp_all

lemma decimal_length_pos: "1 \<le> int (length (decimal n))"
  using decimal_digits(3) [of n] by (cases "decimal n") simp_all

lemma hd_take: "0 < n \<Longrightarrow> hd (take n xs) = hd xs"
  by (cases xs; cases n) simp_all

lemma digits_parts [simp]:
  "list_all is_digit (take n (decimal D))" "list_all is_digit (drop n (decimal D))"
  "list_all is_digit (replicate n (CHR ''0''))" "is_digit (CHR ''0'')"
  using decimal_digits(1) [of D]
  by (auto simp: list_all_iff is_digit_def dest: in_set_takeD in_set_dropD)

lemma text_f_ok:
  assumes "0 < D"
  shows "number_ok (text_f neg D k)"
    and "number_string (text_f neg D k) = format_sign neg (format_f (decimal D) (int (length (decimal D)) + k))"
  using assms hd_decimal [OF assms]
  by (auto simp: number_ok_def number_string_def text_f_def format_f_def Let_def hd_take hd_append)

lemma text_e_ok:
  assumes "0 < D"
  shows "number_ok (text_e neg D k)"
    and "number_string (text_e neg D k) = format_sign neg (format_e (decimal D) (int (length (decimal D)) + k))"
  using assms hd_decimal [OF assms] decimal_digits(1)
  by (auto simp: number_ok_def number_string_def text_e_def format_e_def Let_def hd_take)

lemma ParseFloat_text_f:
  assumes "decimal64 D k < inf64"
  shows "ParseFloat (text_f neg D k) = Some (f64_of_mag neg (decimal64 D k))"
proof -
  define ds where "ds = decimal D"
  define dp where "dp = int (length ds) + k"
  define t where "t = text_f neg D k"
  have D: "digits_nat ds = D" by (simp add: ds_def decimal_digits)
  have "decimal64 (digits_nat (int_digits t @ frac_digits t)) (- int (length (frac_digits t))) = decimal64 D k"
  proof -
    consider (right) "int (length ds) \<le> dp" | (mid) "0 < dp" "dp < int (length ds)" | (left) "dp \<le> 0"
      by linarith
    then show ?thesis
    proof cases
      case right
      then have "nat dp - length ds = nat k" "0 \<le> k" "0 < dp"
        using decimal_length_pos [of D] by (simp_all add: dp_def ds_def)
      then have "int_digits t = ds @ replicate (nat k) (CHR ''0'')" "frac_digits t = []"
        using right by (simp_all add: t_def text_f_def Let_def flip: ds_def dp_def)
      then show ?thesis
        using \<open>0 \<le> k\<close> D decimal_pack_shift [of k] by (simp add: digits_nat_append decimal64_def)
    next
      case mid
      then have "k < 0" "nat dp \<le> length ds" "- int (length ds) \<le> k" by (simp_all add: dp_def)
      then have "int_digits t = take (nat dp) ds" "frac_digits t = drop (nat dp) ds"
        using mid by (simp_all add: t_def text_f_def Let_def flip: ds_def dp_def)
      moreover have "- int (length ds - nat dp) = k"
      proof -
        have "int (length ds - nat dp) = int (length ds) - dp"
          using mid \<open>nat dp \<le> length ds\<close> by (simp add: of_nat_diff)
        then show ?thesis by (simp add: dp_def)
      qed
      ultimately show ?thesis using D by simp
    next
      case left
      then have "int_digits t = replicate 1 (CHR ''0'')" "frac_digits t = replicate (nat (- dp)) (CHR ''0'') @ ds"
        using decimal_length_pos [of D]
        by (auto simp: t_def text_f_def Let_def dp_def ds_def)
      moreover have "- int (nat (- dp) + length ds) = k" using left by (simp add: dp_def)
      ultimately show ?thesis using D by (simp add: digits_nat_append del: replicate_numeral replicate.simps)
    qed
  qed
  moreover have "exp_digits t = []" "\<not> exp_negative t" "negative t = neg"
    by (simp_all add: t_def text_f_def Let_def)
  ultimately show ?thesis using assms by (simp add: ParseFloat_def Let_def exponent_nat_def flip: t_def)
qed

lemma ParseFloat_text_e:
  assumes "decimal64 D k < inf64" "\<bar>int (length (decimal D)) + k - 1\<bar> < 100000"
  shows "ParseFloat (text_e neg D k) = Some (f64_of_mag neg (decimal64 D k))"
proof -
  let ?x = "int (length (decimal D)) + k - 1"
  have "exponent_nat (decimal (nat \<bar>?x\<bar>)) = nat \<bar>?x\<bar>"
    using exponent_nat_digits [OF decimal_digits(1)] assms(2) decimal_digits(2) by simp
  then have "(if ?x < 0 then - int (exponent_nat (decimal (nat \<bar>?x\<bar>))) else int (exponent_nat (decimal (nat \<bar>?x\<bar>)))) -
      int (length (drop 1 (decimal D))) = k"
    using decimal_length_pos [of D] by (auto simp: of_nat_diff)
  moreover have "digits_nat (take 1 (decimal D) @ drop 1 (decimal D)) = D"
    by (simp add: decimal_digits del: take_Suc)
  ultimately show ?thesis using assms(1) by (simp add: ParseFloat_def text_e_def Let_def)
qed

text \<open>Integers become the nearest float64.\<close>

lemma read_format_int:
  assumes "\<bar>i\<bar> < 2 ^ 64" "ends_number s"
  shows "\<exists>t. scan_number (format_int i @ s) = Some (t, s) \<and> ParseFloat t = Some (int_to_f64 i)"
proof -
  let ?n = "nat \<bar>i\<bar>"
  let ?t = "\<lparr>negative = i < 0, int_digits = decimal ?n, frac_digits = [], exp_negative = False, exp_digits = []\<rparr>"
  have "number_ok ?t"
    using hd_decimal [of ?n] decimal_digits(1) by (cases "?n = 0") (auto simp: number_ok_def)
  moreover have "number_string ?t = format_int i"
    by (simp add: number_string_def format_int_def format_sign_def)
  ultimately have "scan_number (format_int i @ s) = Some (?t, s)"
    using scan_number_string [OF _ assms(2), of ?t] by simp
  moreover have "decimal64 ?n 0 = pack64 (?n, 0)"
    by (simp add: decimal64_def decimal_pack_def pack64_def)
  then have "ParseFloat ?t = Some (int_to_f64 i)"
    using pack64_finite [of ?n] assms(1)
    by (simp add: ParseFloat_def exponent_nat_def decimal_digits int_to_f64_def)
  ultimately show ?thesis by blast
qed

text \<open>A finite float64 is written so that reading gives the same bits.\<close>

lemma read_format_float64:
  assumes "format_float64 x = Some str" "ends_number s"
  shows "\<exists>t. scan_number (str @ s) = Some (t, s) \<and> ParseFloat t = Some x"
proof -
  have fin: "f64_mag x < inf64" and str: "str = format_sign (bit x 63)
      (format_mag shortest64 (decimal64 1 (-6)) (decimal64 1 21) (f64_mag x))"
    using assms(1) by (auto simp: format_float64_def split: if_splits)
  show ?thesis
  proof (cases "f64_mag x = 0")
    case True
    let ?t = "\<lparr>negative = bit x 63, int_digits = ''0'', frac_digits = [], exp_negative = False, exp_digits = []\<rparr>"
    have "number_ok ?t" by (simp add: number_ok_def)
    moreover have "number_string ?t = str"
      using True by (simp add: number_string_def str format_mag_def)
    ultimately have "scan_number (str @ s) = Some (?t, s)"
      using scan_number_string [OF _ assms(2), of ?t] by simp
    moreover have "digits_nat ''0'' = 0" using digits_nat_zeros [of 1] by simp
    then have "ParseFloat ?t = Some x"
      using of_mag_mag(1) [of x] True decimal_pack_zero [of 53]
      by (simp add: ParseFloat_def exponent_nat_def decimal64_def inf64_def)
    ultimately show ?thesis by blast
  next
    case False
    then have "0 < f64_mag x" by simp
    from shortest64_ex [OF this fin] obtain k D where kD: "shortest64 (f64_mag x) = Some (k, D)"
        "decimal64 D k = f64_mag x" "0 < D" "\<exists>j\<le>2124. D < 10 ^ Suc j" "-1100 \<le> k" "k \<le> 310"
      by blast
    define t where "t = (if f64_mag x < decimal64 1 (-6) \<or> decimal64 1 21 \<le> f64_mag x
      then text_e (bit x 63) D k else text_f (bit x 63) D k)"
    have "str = number_string t"
      using False by (simp add: str t_def format_mag_def kD(1) text_f_ok(2) [OF kD(3)] text_e_ok(2) [OF kD(3)] Let_def)
    moreover have "number_ok t" using text_f_ok(1) [OF kD(3)] text_e_ok(1) [OF kD(3)] by (simp add: t_def)
    ultimately have "scan_number (str @ s) = Some (t, s)" using scan_number_string [OF _ assms(2)] by simp
    moreover obtain j where "j \<le> 2124" "D < 10 ^ Suc j" using kD(4) by blast
    with decimal_length [of D j] have "length (decimal D) \<le> Suc 2124" by linarith
    then have "\<bar>int (length (decimal D)) + k - 1\<bar> < 100000" using kD(5,6) by linarith
    then have "ParseFloat t = Some (f64_of_mag (bit x 63) (decimal64 D k))"
      using ParseFloat_text_e ParseFloat_text_f fin kD(2) by (simp add: t_def)
    ultimately show ?thesis using kD(2) of_mag_mag(1) [of x] by auto
  qed
qed

end
