(* ===== verification/Base64.thy ===== *)
theory Base64
  imports Go_Prelude
begin

text \<open>
  \<open>base64.StdEncoding\<close> of the standard library, which carries \<open>bytes\<close> fields through JSON: encoding
  with padding, and decoding, which skips carriage returns and newlines, insists on the padding and
  ignores the unused low bits of the last digit.
\<close>

definition b64_alphabet :: string where
  "b64_alphabet = ''ABCDEFGHIJKLMNOPQRSTUVWXYZabcdefghijklmnopqrstuvwxyz0123456789+/''"

definition b64_char :: "nat \<Rightarrow> char" where
  "b64_char d = b64_alphabet ! (d mod 64)"

definition b64_digit :: "char \<Rightarrow> nat option" where
  "b64_digit c = map_of (zip b64_alphabet [0..<64]) c"

definition byte_of :: "nat \<Rightarrow> u8" where
  "byte_of n = of_nat n"

fun EncodeToString :: "bytes \<Rightarrow> string" where
  "EncodeToString [] = ''''"
| "EncodeToString [a] =
     (let v = unat a * 65536 in [b64_char (v div 262144), b64_char (v div 4096), CHR ''='', CHR ''=''])"
| "EncodeToString [a, b] =
     (let v = unat a * 65536 + unat b * 256
      in [b64_char (v div 262144), b64_char (v div 4096), b64_char (v div 64), CHR ''=''])"
| "EncodeToString (a # b # c # bs) =
     (let v = unat a * 65536 + unat b * 256 + unat c
      in [b64_char (v div 262144), b64_char (v div 4096), b64_char (v div 64), b64_char v]
         @ EncodeToString bs)"

fun decode_groups :: "string \<Rightarrow> bytes option" where
  "decode_groups [] = Some []"
| "decode_groups (c0 # c1 # c2 # c3 # cs) =
     (case (b64_digit c0, b64_digit c1) of
        (Some d0, Some d1) \<Rightarrow>
          let v = d0 * 262144 + d1 * 4096 in
          if c2 = CHR ''='' then
            (if c3 = CHR ''='' \<and> cs = [] then Some [byte_of (v div 65536)] else None)
          else
            (case b64_digit c2 of
               None \<Rightarrow> None
             | Some d2 \<Rightarrow>
                 let v = v + d2 * 64 in
                 if c3 = CHR ''='' then
                   (if cs = [] then Some [byte_of (v div 65536), byte_of (v div 256 mod 256)] else None)
                 else
                   (case (b64_digit c3, decode_groups cs) of
                      (Some d3, Some bs) \<Rightarrow>
                        let v = v + d3
                        in Some (byte_of (v div 65536) # byte_of (v div 256 mod 256) # byte_of (v mod 256) # bs)
                    | _ \<Rightarrow> None))
      | _ \<Rightarrow> None)"
| "decode_groups _ = None"

definition DecodeString :: "string \<Rightarrow> bytes option" where
  "DecodeString s = decode_groups (filter (\<lambda>c. c \<noteq> CHR 0x0A \<and> c \<noteq> CHR 0x0D) s)"


section \<open>Round trip\<close>

lemma length_alphabet [simp]: "length b64_alphabet = 64"
  by (simp add: b64_alphabet_def)

lemma distinct_alphabet: "distinct b64_alphabet"
  by (simp add: b64_alphabet_def)

lemma b64_digit_char [simp]: "b64_digit (b64_char d) = Some (d mod 64)"
  unfolding b64_digit_def b64_char_def
  by (intro map_of_is_SomeI) (auto simp: distinct_alphabet set_zip intro: exI [of _ "d mod 64"])

lemma b64_char_plain:
  "b64_char d \<noteq> CHR ''=''" "b64_char d \<noteq> CHR 0x0A" "b64_char d \<noteq> CHR 0x0D"
proof -
  have "b64_char d \<in> set b64_alphabet" by (simp add: b64_char_def)
  then show "b64_char d \<noteq> CHR ''=''" "b64_char d \<noteq> CHR 0x0A" "b64_char d \<noteq> CHR 0x0D"
    by (auto simp: b64_alphabet_def)
qed

lemma unat_u8: "unat (a :: u8) < 256"
  using unsigned_less [of a] by simp

lemma byte_of_unat [simp]: "byte_of (unat a) = a"
  by (simp add: byte_of_def)

lemma top_sextet: "v < 16777216 \<Longrightarrow> v div 262144 mod 64 = v div (262144 :: nat)"
  by (simp add: less_mult_imp_div_less)

lemma sextets: "v div 262144 * 262144 + v div 4096 mod 64 * 4096 + v div 64 mod 64 * 64 + v mod 64 = (v :: nat)"
proof -
  have a: "v = v div 64 * 64 + v mod 64" by simp
  have b: "v div 64 = v div 4096 * 64 + v div 64 mod 64"
    using div_mult_mod_eq [of "v div 64" 64] by (simp flip: div_mult2_eq)
  have c: "v div 4096 = v div 262144 * 64 + v div 4096 mod 64"
    using div_mult_mod_eq [of "v div 4096" 64] by (simp flip: div_mult2_eq)
  show ?thesis using a b c by linarith
qed

lemma octets:
  fixes a b c :: nat
  assumes "b < 256" "c < 256"
  shows "(a * 65536 + b * 256 + c) div 256 mod 256 = b" "(a * 65536 + b * 256 + c) mod 256 = c"
proof -
  have low: "(n + 256 * x) div 256 = x" "(n + 256 * x) mod 256 = n" if "n < 256" for n x :: nat
    using that by simp_all
  have e: "a * 65536 + b * 256 + c = c + 256 * (b + 256 * a)" by simp
  show "(a * 65536 + b * 256 + c) div 256 mod 256 = b" "(a * 65536 + b * 256 + c) mod 256 = c"
    unfolding e low [OF assms(2)] using low(2) [OF assms(1)] by simp_all
qed

lemma decode_groups_encode: "decode_groups (EncodeToString bs) = Some bs"
proof (induction bs rule: EncodeToString.induct)
  case (2 a)
  define v where "v = unat a * 65536"
  have "v < 16777216" "v div 64 mod 64 = 0" "v mod 64 = 0" "v div 65536 = unat a"
    using unat_u8 [of a] by (simp_all add: v_def)
  then have "v div 262144 * 262144 + v div 4096 mod 64 * 4096 = v" using sextets [of v] by simp
  then show ?case using \<open>v div 65536 = unat a\<close> top_sextet [OF \<open>v < 16777216\<close>]
    by (simp add: b64_char_plain Let_def flip: v_def)
next
  case (3 a b)
  define v where "v = unat a * 65536 + unat b * 256"
  have v: "v < 16777216" "v mod 64 = 0" "v div 65536 = unat a" "v div 256 mod 256 = unat b"
    using unat_u8 [of a] unat_u8 [of b] by (auto simp: v_def)
  then have "v div 262144 * 262144 + v div 4096 mod 64 * 4096 + v div 64 mod 64 * 64 = v"
    using sextets [of v] by simp
  then show ?case using v(3,4) top_sextet [OF v(1)]
    by (simp add: b64_char_plain Let_def flip: v_def)
next
  case (4 a b c bs)
  define v where "v = unat a * 65536 + unat b * 256 + unat c"
  have v: "v < 16777216" "v div 65536 = unat a" "v div 256 mod 256 = unat b" "v mod 256 = unat c"
    using unat_u8 [of a] unat_u8 [of b] unat_u8 [of c] octets [of "unat b" "unat c"]
    by (auto simp: v_def)
  then show ?case using sextets [of v] 4 top_sextet [OF v(1)]
    by (simp add: b64_char_plain Let_def flip: v_def)
qed simp

lemma encoded_no_newline: "filter (\<lambda>c. c \<noteq> CHR 0x0A \<and> c \<noteq> CHR 0x0D) (EncodeToString bs) = EncodeToString bs"
  by (induction bs rule: EncodeToString.induct) (simp_all add: b64_char_plain Let_def)

lemma DecodeString_EncodeToString [simp]: "DecodeString (EncodeToString bs) = Some bs"
  by (simp add: DecodeString_def encoded_no_newline decode_groups_encode)

end
