(* ===== verification/Json_Text.thy ===== *)
theory Json_Text
  imports Go_Utf8 Json_Number Proto_Values Base64 "HOL-Library.AList"
begin

text \<open>
  \<open>encoding/json\<close> of the standard library as the bridge uses it: \<open>Unmarshal\<close> of a document into a
  \<open>map[string]any\<close> and \<open>Marshal\<close> of such a map.  The scanner's grammar is a recursive descent parser; a
  syntax error, a number out of range, nesting beyond 10000 and a document that is no object are all
  the error \<open>None\<close>.
\<close>

section \<open>Strings\<close>

definition hex_value :: "char \<Rightarrow> nat option" where
  "hex_value c =
     (let n = code c in
      if 48 \<le> n \<and> n \<le> 57 then Some (n - 48)
      else if 97 \<le> n \<and> n \<le> 102 then Some (n - 87)
      else if 65 \<le> n \<and> n \<le> 70 then Some (n - 55)
      else None)"

definition hex4 :: "string \<Rightarrow> nat option" where
  "hex4 s =
     (case s of
        a # b # c # d # _ \<Rightarrow>
          (case (hex_value a, hex_value b, hex_value c, hex_value d) of
             (Some w, Some x, Some y, Some z) \<Rightarrow> Some (((w * 16 + x) * 16 + y) * 16 + z)
           | _ \<Rightarrow> None)
      | _ \<Rightarrow> None)"

text \<open>The second half of a surrogate pair, if the text goes on with one.\<close>

definition low_half :: "nat \<Rightarrow> string \<Rightarrow> nat option" where
  "low_half hi s =
     (if take 2 s \<noteq> [CHR 0x5C, CHR ''u''] then None
      else case hex4 (drop 2 s) of
          None \<Rightarrow> None
        | Some lo \<Rightarrow>
            if hi < 0xDC00 \<and> 0xDC00 \<le> lo \<and> lo < 0xE000
            then Some ((hi - 0xD800) * 1024 + (lo - 0xDC00) + 0x10000) else None)"

definition escaped :: "char \<Rightarrow> char option" where
  "escaped e =
     (if e = CHR 0x22 \<or> e = CHR 0x5C \<or> e = CHR ''/'' then Some e
      else if e = CHR ''b'' then Some (CHR 0x08)
      else if e = CHR ''f'' then Some (CHR 0x0C)
      else if e = CHR ''n'' then Some (CHR 0x0A)
      else if e = CHR ''r'' then Some (CHR 0x0D)
      else if e = CHR ''t'' then Some (CHR 0x09)
      else None)"

definition prepend :: "string \<Rightarrow> (string \<times> 'r) option \<Rightarrow> (string \<times> 'r) option" where
  "prepend x = map_option (\<lambda>(t, r). (x @ t, r))"

text \<open>The text after an opening quote: the string it stands for, and what follows the closing quote.\<close>

fun unquote :: "string \<Rightarrow> (string \<times> string) option" where
  "unquote [] = None"
| "unquote (c # s) =
     (if c = CHR 0x22 then Some ([], s)
      else if c = CHR 0x5C then
        (case s of
           [] \<Rightarrow> None
         | e # r \<Rightarrow>
             if e = CHR ''u'' then
               (case hex4 r of
                  None \<Rightarrow> None
                | Some rr \<Rightarrow>
                    if \<not> is_surrogate rr then prepend (EncodeRune rr) (unquote (drop 4 r))
                    else (case low_half rr (drop 4 r) of
                        Some dec \<Rightarrow> prepend (EncodeRune dec) (unquote (drop 10 r))
                      | None \<Rightarrow> prepend (EncodeRune RuneError) (unquote (drop 4 r))))
             else (case escaped e of None \<Rightarrow> None | Some x \<Rightarrow> prepend [x] (unquote r)))
      else if code c < 0x20 then None
      else prepend (EncodeRune (fst (DecodeRune (c # s)))) (unquote (drop (snd (DecodeRune (c # s)) - 1) s)))"

definition hex_char :: "nat \<Rightarrow> char" where
  "hex_char d = ''0123456789abcdef'' ! (d mod 16)"

text \<open>\<open>appendString\<close> with HTML escaping, on one ASCII character.\<close>

definition quote_ascii :: "char \<Rightarrow> string" where
  "quote_ascii c =
     (if c = CHR 0x22 \<or> c = CHR 0x5C then [CHR 0x5C, c]
      else if c = CHR 0x08 then [CHR 0x5C, CHR ''b'']
      else if c = CHR 0x0C then [CHR 0x5C, CHR ''f'']
      else if c = CHR 0x0A then [CHR 0x5C, CHR ''n'']
      else if c = CHR 0x0D then [CHR 0x5C, CHR ''r'']
      else if c = CHR 0x09 then [CHR 0x5C, CHR ''t'']
      else if code c < 0x20 \<or> c = CHR ''<'' \<or> c = CHR ''>'' \<or> c = CHR ''&''
      then CHR 0x5C # ''u00'' @ [hex_char (code c div 16), hex_char (code c)]
      else [c])"

fun quote_body :: "string \<Rightarrow> string" where
  "quote_body [] = []"
| "quote_body (c # s) =
     (if code c < 0x80 then quote_ascii c @ quote_body s
      else
        let rn = DecodeRune (c # s); rest = quote_body (drop (snd rn - 1) s) in
        if fst rn = RuneError \<and> snd rn = 1 then CHR 0x5C # ''ufffd'' @ rest
        else if fst rn = 0x2028 \<or> fst rn = 0x2029 then CHR 0x5C # ''u202'' @ [hex_char (fst rn)] @ rest
        else take (snd rn) (c # s) @ rest)"

definition quote :: "string \<Rightarrow> string" where
  "quote s = CHR 0x22 # quote_body s @ [CHR 0x22]"


section \<open>Reading a document\<close>

definition is_space :: "char \<Rightarrow> bool" where
  "is_space c \<longleftrightarrow> c = CHR '' '' \<or> c = CHR 0x09 \<or> c = CHR 0x0A \<or> c = CHR 0x0D"

abbreviation skip_ws :: "string \<Rightarrow> string" where
  "skip_ws \<equiv> dropWhile is_space"

text \<open>A later entry for a key replaces an earlier one.\<close>

definition entries :: "(string \<times> gval) list \<Rightarrow> (string \<times> gval) list" where
  "entries kvs = fold (\<lambda>(k, v). AList.update k v) kvs []"

text \<open>The next character that is no white space.\<close>

definition next_char :: "string \<Rightarrow> (char \<times> string) option" where
  "next_char s = (case skip_ws s of [] \<Rightarrow> None | c # r \<Rightarrow> Some (c, r))"

definition parse_scalar :: "char \<Rightarrow> string \<Rightarrow> (gval \<times> string) option" where
  "parse_scalar c r =
     (if c = CHR 0x22 then map_option (\<lambda>(t, r). (VString t, r)) (unquote r)
      else if take 4 (c # r) = ''true'' then Some (VBool True, drop 3 r)
      else if take 5 (c # r) = ''false'' then Some (VBool False, drop 4 r)
      else if take 4 (c # r) = ''null'' then Some (VNil, drop 3 r)
      else
        (case scan_number (c # r) of
           None \<Rightarrow> None
         | Some (t, r) \<Rightarrow> map_option (\<lambda>x. (VFloat64 x, r)) (ParseFloat t)))"

text \<open>
  The second argument is how many arrays and objects may still be opened.  Each call but the ones for
  the first element or member consumes a character, so twice the length of the text is enough fuel
  (lemma \<open>parse_fuel\<close>).
\<close>

fun parse_value :: "nat \<Rightarrow> nat \<Rightarrow> string \<Rightarrow> (gval \<times> string) option"
  and parse_elements :: "nat \<Rightarrow> nat \<Rightarrow> string \<Rightarrow> (gval list \<times> string) option"
  and parse_members :: "nat \<Rightarrow> nat \<Rightarrow> string \<Rightarrow> ((string \<times> gval) list \<times> string) option" where
  "parse_value 0 d s = None"
| "parse_value (Suc n) d s =
     (case next_char s of
        None \<Rightarrow> None
      | Some (c, r) \<Rightarrow>
          if c = CHR ''['' then
            (if d = 0 then None
             else case next_char r of
                 None \<Rightarrow> None
               | Some (c', r') \<Rightarrow>
                   if c' = CHR '']'' then Some (VList [], r')
                   else map_option (\<lambda>(vs, r). (VList vs, r)) (parse_elements n (d - 1) r))
          else if c = CHR ''{'' then
            (if d = 0 then None
             else case next_char r of
                 None \<Rightarrow> None
               | Some (c', r') \<Rightarrow>
                   if c' = CHR ''}'' then Some (VMap [], r')
                   else map_option (\<lambda>(kvs, r). (VMap (entries kvs), r)) (parse_members n (d - 1) r))
          else parse_scalar c r)"
| "parse_elements 0 d s = None"
| "parse_elements (Suc n) d s =
     (case parse_value n d s of
        None \<Rightarrow> None
      | Some (v, r) \<Rightarrow>
          (case next_char r of
             None \<Rightarrow> None
           | Some (c, r) \<Rightarrow>
               if c = CHR '','' then map_option (\<lambda>(vs, r). (v # vs, r)) (parse_elements n d r)
               else if c = CHR '']'' then Some ([v], r)
               else None))"
| "parse_members 0 d s = None"
| "parse_members (Suc n) d s =
     (case next_char s of
        None \<Rightarrow> None
      | Some (c, r) \<Rightarrow>
          if c \<noteq> CHR 0x22 then None
          else
          (case unquote r of
             None \<Rightarrow> None
           | Some (k, r) \<Rightarrow>
               (case next_char r of
                  None \<Rightarrow> None
                | Some (c, r) \<Rightarrow>
                    if c \<noteq> CHR '':'' then None
                    else
                    (case parse_value n d r of
                       None \<Rightarrow> None
                     | Some (v, r) \<Rightarrow>
                         (case next_char r of
                            None \<Rightarrow> None
                          | Some (c, r) \<Rightarrow>
                              if c = CHR '','' then
                                map_option (\<lambda>(kvs, r). ((k, v) # kvs, r)) (parse_members n d r)
                              else if c = CHR ''}'' then Some ([(k, v)], r)
                              else None)))))"

definition maxNestingDepth :: nat where "maxNestingDepth = 10000"

text \<open>The value of a whole document.\<close>

definition json_document :: "bytes \<Rightarrow> gval option" where
  "json_document data =
     (let s = bytes_string data in
      case parse_value (2 * length s + 2) maxNestingDepth s of
        None \<Rightarrow> None
      | Some (v, r) \<Rightarrow> if skip_ws r \<noteq> [] then None else Some v)"

text \<open>\<open>json.Unmarshal\<close> into a nil map: \<open>null\<close> leaves the map nil, any other value but an object is an error.\<close>

definition Unmarshal :: "bytes \<Rightarrow> (string \<times> gval) list option" where
  "Unmarshal data =
     (case json_document data of
        Some (VMap kvs) \<Rightarrow> Some kvs
      | Some VNil \<Rightarrow> Some []
      | _ \<Rightarrow> None)"


section \<open>Writing a document\<close>

definition object_text :: "(string \<times> string) list \<Rightarrow> string" where
  "object_text kts = CHR ''{'' # join '','' (map (\<lambda>(k, t). quote k @ CHR '':'' # t) kts) @ ''}''"

fun json_text :: "gval \<Rightarrow> string option" where
  "json_text VNil = Some ''null''"
| "json_text (VBool b) = Some (if b then ''true'' else ''false'')"
| "json_text (VInt i) = Some (format_int (sint i))"
| "json_text (VInt32 i) = Some (format_int (sint i))"
| "json_text (VInt64 i) = Some (format_int (sint i))"
| "json_text (VUint i) = Some (format_int (uint i))"
| "json_text (VUint32 i) = Some (format_int (uint i))"
| "json_text (VUint64 i) = Some (format_int (uint i))"
| "json_text (VFloat64 x) = format_float64 x"
| "json_text (VFloat32 x) = format_float32 x"
| "json_text (VString s) = Some (quote s)"
| "json_text (VBytes b) = Some (quote (EncodeToString b))"
| "json_text (VList vs) =
     map_option (\<lambda>ts. CHR ''['' # join '','' ts @ '']'') (those (map json_text vs))"
| "json_text (VMap kvs) =
     map_option (\<lambda>ts. object_text (sort_key fst (zip (map fst kvs) ts)))
       (those (map (\<lambda>kv. json_text (snd kv)) kvs))"

text \<open>
  \<open>json.Marshal\<close> of a map whose keys are among \<open>names\<close>; the members are written in the order of their
  keys.  \<open>None\<close> is the error on a value that JSON cannot express.
\<close>

definition Marshal :: "string list \<Rightarrow> (string \<rightharpoonup> gval) \<Rightarrow> bytes option" where
  "Marshal names m =
     (let ks = sort (remdups (filter (\<lambda>k. m k \<noteq> None) names)) in
      map_option (\<lambda>ts. string_bytes (object_text (zip ks ts)))
        (those (map (\<lambda>k. json_text (the (m k))) ks)))"

section \<open>Quoted strings are read back\<close>

lemma hex_value_char [simp]: "hex_value (hex_char d) = Some (d mod 16)"
proof -
  have "d mod 16 \<in> set [0..<16]" by simp
  then show ?thesis unfolding hex_char_def by (simp add: upt_rec) (elim disjE; simp add: hex_value_def)
qed

lemma hex_value_literals [simp]:
  "hex_value (CHR ''0'') = Some 0" "hex_value (CHR ''2'') = Some 2"
  "hex_value (CHR ''f'') = Some 15" "hex_value (CHR ''d'') = Some 13"
  by (simp_all add: hex_value_def)

lemma EncodeRune_ascii: "code c < 0x80 \<Longrightarrow> EncodeRune (code c) = [c]"
  by (simp add: EncodeRune_def is_surrogate_def)

lemma DecodeRune_ascii: "code c < 0x80 \<Longrightarrow> DecodeRune (c # s) = (code c, 1)"
  by (simp add: DecodeRune_def rune_size_def)

lemma coerce_ascii: "code c < 0x80 \<Longrightarrow> coerce_utf8 (c # s) = c # coerce_utf8 s"
  by (simp add: DecodeRune_ascii EncodeRune_ascii)

lemma unquote_escape: "escaped e = Some x \<Longrightarrow> unquote (CHR 0x5C # e # r) = prepend [x] (unquote r)"
  by (auto simp: escaped_def split: if_splits)

lemma unquote_u:
  assumes "hex4 h = Some rr" "length h = 4" "\<not> is_surrogate rr"
  shows "unquote (CHR 0x5C # CHR ''u'' # h @ r) = prepend (EncodeRune rr) (unquote r)"
proof -
  have "hex4 (h @ r) = hex4 h"
    using assms(2) by (auto simp: hex4_def length_Suc_conv eval_nat_numeral)
  then show ?thesis using assms by simp
qed

lemma unquote_quote_ascii:
  assumes "code c < 0x80"
  shows "unquote (quote_ascii c @ r) = prepend [c] (unquote r)"
proof -
  have "prepend [c] (unquote r) = unquote (c # r)" if "c \<noteq> CHR 0x22" "c \<noteq> CHR 0x5C" "0x20 \<le> code c"
    using that assms by (simp add: DecodeRune_ascii EncodeRune_ascii)
  moreover have "unquote (CHR 0x5C # CHR ''u'' # [CHR ''0'', CHR ''0'', hex_char (code c div 16), hex_char (code c)] @ r)
      = prepend [c] (unquote r)"
  proof -
    have "code c div 16 mod 16 = code c div 16" using assms by simp
    then have "hex4 [CHR ''0'', CHR ''0'', hex_char (code c div 16), hex_char (code c)] = Some (code c)"
      by (simp add: hex4_def)
    moreover have "\<not> is_surrogate (code c)" using assms by (simp add: is_surrogate_def)
    ultimately show ?thesis using unquote_u EncodeRune_ascii [OF assms] by fastforce
  qed
  moreover have "unquote (CHR 0x5C # e # r) = prepend [x] (unquote r)" if "escaped e = Some x" for e x
    using unquote_escape [OF that] .
  ultimately show ?thesis unfolding quote_ascii_def by (simp add: escaped_def)
qed

lemma unquote_quote_body: "unquote (quote_body s @ CHR 0x22 # r) = Some (coerce_utf8 s, r)"
proof (induction s rule: quote_body.induct)
  case 1
  show ?case by simp
next
  case (2 c s)
  show ?case
  proof (cases "code c < 0x80")
    case True
    then show ?thesis using 2(1) [OF True]
      by (simp add: unquote_quote_ascii coerce_ascii prepend_def del: coerce_utf8.simps)
  next
    case False
    obtain ru n where d: "DecodeRune (c # s) = (ru, n)" by fastforce
    define t where "t = quote_body (drop (n - 1) s) @ CHR 0x22 # r"
    have IH: "unquote t = Some (coerce_utf8 (drop (n - 1) s), r)"
      using 2(2) [OF False refl] by (simp add: d t_def)
    have "unquote (quote_body (c # s) @ CHR 0x22 # r) = prepend (EncodeRune ru) (unquote t)"
    proof (cases "ru = RuneError \<and> n = 1")
      case True
      have "hex4 ''fffd'' = Some RuneError" by (simp add: hex4_def RuneError_def)
      from unquote_u [OF this] show ?thesis
        using True False by (simp add: d t_def is_surrogate_def RuneError_def)
    next
      case nerr: False
      then have n: "1 < n" using DecodeRune_cases [OF d] False by auto
      show ?thesis
      proof (cases "ru = 0x2028 \<or> ru = 0x2029")
        case True
        have "hex4 [CHR ''2'', CHR ''0'', CHR ''2'', hex_char ru] = Some ru"
          using True by (auto simp: hex4_def)
        from unquote_u [OF this] show ?thesis
          using True False nerr by (auto simp: d t_def is_surrogate_def)
      next
        case plain: False
        have q: "quote_body (c # s) @ CHR 0x22 # r = take n (c # s) @ t"
          using plain nerr False by (auto simp: d t_def Let_def)
        obtain w where w: "take n (c # s) = c # w" "length w = n - 1"
          using n DecodeRune_cases [OF d] False by (cases n) auto
        have "DecodeRune (c # w @ t) = (ru, n)" using DecodeRune_multibyte(2) [OF d n, of t] w(1) by simp
        moreover have "c \<noteq> CHR 0x22" "c \<noteq> CHR 0x5C" "\<not> code c < 0x20" using False by auto
        ultimately show ?thesis unfolding q w(1) using w(2) by simp
      qed
    qed
    then show ?thesis using IH by (simp add: d prepend_def)
  qed
qed

lemma unquote_quote: "unquote (tl (quote s) @ r) = Some (coerce_utf8 s, r)"
  using unquote_quote_body by (simp add: quote_def)

section \<open>Parsers consume their input\<close>

lemma prepend_Some: "prepend x m = Some (t, r) \<longleftrightarrow> (\<exists>t'. m = Some (t', r) \<and> t = x @ t')"
  by (cases m) (auto simp: prepend_def)

lemma unquote_shorter: "unquote s = Some (t, r) \<Longrightarrow> length r < length s"
proof (induction s arbitrary: t rule: length_induct)
  case (1 s)
  have tail: "length r < n" if "unquote s' = Some (t', r)" "length s' < length s" "length s' \<le> n" for s' t' n
    using 1(1) that by (meson less_le_trans)
  show ?case
  proof (cases s)
    case (Cons c s')
    show ?thesis
      using 1(2) unfolding Cons
      by (auto simp: prepend_Some Cons split: if_splits list.splits option.splits intro: tail)
  qed (use 1(2) in simp)
qed

lemma dropWhile_shorter: "length (dropWhile P xs) \<le> length xs"
  by (rule length_dropWhile_le)

lemma scan_number_shorter:
  assumes "scan_number s = Some (t, r)"
  shows "length r < length s"
proof -
  have int: "length r < length s" if "scan_int s = Some (ds, r)" for s ds r
    using that by (auto simp: scan_int_def split: list.splits if_splits intro: le_less_trans [OF dropWhile_shorter])
  have frac: "length r \<le> length s" if "scan_frac s = Some (fs, r)" for s fs r
    using that by (auto simp: scan_frac_def split: list.splits if_splits intro: le_trans [OF dropWhile_shorter])
  have ex: "length r \<le> length s" if "scan_exp s = Some (en, es, r)" for s en es r
    using that
    by (auto simp: scan_exp_def Let_def neq_Nil_conv split: list.splits if_splits
        intro: le_trans [OF dropWhile_shorter])
  have "length r < length s" if "scan_unsigned neg s = Some (t, r)" for neg s
    using that by (auto simp: scan_unsigned_def split: option.splits dest!: int frac ex)
  then show ?thesis
    using assms by (cases s) (fastforce simp: scan_number_def split: if_splits)+
qed

lemma next_char_shorter: "next_char s = Some (c, r) \<Longrightarrow> length r < length s"
  using length_dropWhile_le [of is_space s] by (auto simp: next_char_def split: list.splits)

lemma parse_scalar_shorter: "parse_scalar c r = Some (v, r') \<Longrightarrow> length r' \<le> length r"
  by (auto simp: parse_scalar_def split: if_splits option.splits dest!: unquote_shorter scan_number_shorter)

lemma parse_shorter:
  "parse_value n d s = Some (v, r) \<Longrightarrow> length r < length s"
  "parse_elements n d s = Some (vs, r) \<Longrightarrow> length r < length s"
  "parse_members n d s = Some (kvs, r) \<Longrightarrow> length r < length s"
proof (induction n arbitrary: d s v vs kvs r)
  case (Suc n)
  {
    case 1
    then show ?case
      by (fastforce split: if_splits option.splits
          dest!: next_char_shorter Suc(2,3) parse_scalar_shorter)
  next
    case 2
    then show ?case
      by (fastforce split: if_splits option.splits dest!: next_char_shorter Suc(1,2))
  next
    case 3
    then show ?case
      by (fastforce split: if_splits option.splits dest!: next_char_shorter unquote_shorter Suc(1,3))
  }
qed simp_all

lemmas parse_unfold [simp del] = parse_value.simps parse_elements.simps parse_members.simps

text \<open>The equations for a fuel that is a numeral.\<close>

lemmas parse_numeral = parse_value.simps(2) [of "pred_numeral k", folded numeral_eq_Suc]
  parse_elements.simps(2) [of "pred_numeral k", folded numeral_eq_Suc]
  parse_members.simps(2) [of "pred_numeral k", folded numeral_eq_Suc] for k

lemma parse_more_fuel:
  "2 * length s + 1 \<le> n \<Longrightarrow> parse_value (Suc n) d s = parse_value n d s"
  "2 * length s + 2 \<le> n \<Longrightarrow> parse_elements (Suc n) d s = parse_elements n d s"
  "2 * length s + 2 \<le> n \<Longrightarrow> parse_members (Suc n) d s = parse_members n d s"
proof (induction n arbitrary: d s)
  case (Suc n)
  {
    case 1
    have "parse_elements (Suc n) d' r = parse_elements n d' r"
      "parse_members (Suc n) d' r = parse_members n d' r" if "next_char s = Some (c, r)" for c r d'
      using next_char_shorter [OF that] Suc(2,3) 1 by simp_all
    then show ?case
      unfolding parse_value.simps(2) [of "Suc n"] parse_value.simps(2) [of n]
      by (auto split: option.split)
  next
    case 2
    have v: "parse_value (Suc n) d s = parse_value n d s" using Suc(1) 2 by simp
    have "parse_elements (Suc n) d r' = parse_elements n d r'"
      if "parse_value n d s = Some (v, r)" "next_char r = Some (c, r')" for v r c r'
      using parse_shorter(1) [OF that(1)] next_char_shorter [OF that(2)] Suc(2) 2 by simp
    then show ?case
      unfolding parse_elements.simps(2) [of "Suc n"] parse_elements.simps(2) [of n] v
      by (auto split: option.split)
  next
    case 3
    have "parse_value (Suc n) d r2 = parse_value n d r2"
      if "next_char s = Some (c, r)" "unquote r = Some (k, r1)" "next_char r1 = Some (c', r2)" for c r k r1 c' r2
      using next_char_shorter [OF that(1)] unquote_shorter [OF that(2)] next_char_shorter [OF that(3)] Suc(1) 3
      by simp
    moreover have "parse_members (Suc n) d r4 = parse_members n d r4"
      if "next_char s = Some (c, r)" "unquote r = Some (k, r1)" "next_char r1 = Some (c', r2)"
        "parse_value n d r2 = Some (v, r3)" "next_char r3 = Some (c'', r4)" for c r k r1 c' r2 v r3 c'' r4
      using next_char_shorter [OF that(1)] unquote_shorter [OF that(2)] next_char_shorter [OF that(3)]
        parse_shorter(1) [OF that(4)] next_char_shorter [OF that(5)] Suc(3) 3 by simp
    ultimately show ?case
      unfolding parse_members.simps(2) [of "Suc n"] parse_members.simps(2) [of n]
      by (auto split: option.split)
  }
qed simp_all

lemma parse_fuel:
  "2 * length s + 1 \<le> n \<Longrightarrow> parse_value n d s = parse_value (2 * length s + 1) d s"
proof (induction n)
  case (Suc n)
  show ?case
  proof (cases "2 * length s + 1 \<le> n")
    case True
    then show ?thesis using Suc.IH parse_more_fuel(1) by simp
  next
    case False
    then have "Suc n = 2 * length s + 1" using Suc.prems by linarith
    then show ?thesis by simp
  qed
qed simp

section \<open>What is written is read back\<close>

text \<open>A value as it comes out of the text: numbers are float64, strings well-formed UTF-8.\<close>

fun json_view :: "gval \<Rightarrow> gval" where
  "json_view (VInt i) = VFloat64 (int_to_f64 (sint i))"
| "json_view (VInt32 i) = VFloat64 (int_to_f64 (sint i))"
| "json_view (VInt64 i) = VFloat64 (int_to_f64 (sint i))"
| "json_view (VUint i) = VFloat64 (int_to_f64 (uint i))"
| "json_view (VUint32 i) = VFloat64 (int_to_f64 (uint i))"
| "json_view (VUint64 i) = VFloat64 (int_to_f64 (uint i))"
| "json_view (VString s) = VString (coerce_utf8 s)"
| "json_view (VBytes b) = VString (coerce_utf8 (EncodeToString b))"
| "json_view (VList vs) = VList (map json_view vs)"
| "json_view v = v"

text \<open>The values the theorem is about: no nested objects, no float32, and arrays nested at most \<open>d\<close> deep.\<close>

fun json_plain :: "nat \<Rightarrow> gval \<Rightarrow> bool" where
  "json_plain d (VMap _) \<longleftrightarrow> False"
| "json_plain d (VFloat32 _) \<longleftrightarrow> False"
| "json_plain d (VList vs) \<longleftrightarrow> 0 < d \<and> list_all (json_plain (d - 1)) vs"
| "json_plain d _ \<longleftrightarrow> True"

text \<open>What follows a value in a document without white space.\<close>

definition ends_value :: "string \<Rightarrow> bool" where
  "ends_value s \<longleftrightarrow> s = [] \<or> hd s \<in> {CHR '','', CHR '']'', CHR ''}''}"

lemma ends_value_number: "ends_value s \<Longrightarrow> ends_number s"
  by (auto simp: ends_value_def ends_number_def is_digit_def)

lemma next_char_Cons [simp]: "\<not> is_space c \<Longrightarrow> next_char (c # r) = Some (c, r)"
  by (simp add: next_char_def)

text \<open>The texts of numbers start with a sign or a digit.\<close>

lemma number_scalar:
  assumes "scan_number s = Some (t, r)" "ParseFloat t = Some x"
  shows "\<exists>c s'. s = c # s' \<and> parse_scalar c s' = Some (VFloat64 x, r) \<and> \<not> is_space c \<and> c \<noteq> CHR ''['' \<and> c \<noteq> CHR ''{'' \<and> c \<noteq> CHR '']''"
proof (cases s)
  case Nil
  then show ?thesis using assms(1) by (simp add: scan_number_def scan_unsigned_def scan_int_def)
next
  case (Cons c s')
  have "c = CHR ''-'' \<or> is_digit c"
    using assms(1) by (auto simp: Cons scan_number_def scan_unsigned_def scan_int_def is_digit_def split: if_splits)
  then have "c \<noteq> CHR 0x22 \<and> c \<noteq> CHR ''t'' \<and> c \<noteq> CHR ''f'' \<and> c \<noteq> CHR ''n'' \<and> \<not> is_space c \<and> c \<noteq> CHR ''['' \<and> c \<noteq> CHR ''{'' \<and> c \<noteq> CHR '']''"
    by (auto simp: is_space_def is_digit_def)
  moreover from this have "parse_scalar c s' = Some (VFloat64 x, r)"
    using assms by (auto simp: parse_scalar_def Cons)
  ultimately show ?thesis using Cons by blast
qed

lemma parse_value_scalar:
  assumes "next_char s = Some (c, r)" "c \<noteq> CHR ''[''" "c \<noteq> CHR ''{''" "0 < n"
  shows "parse_value n d s = parse_scalar c r"
  using assms by (cases n) (simp_all add: parse_unfold)

lemma parse_value_first:
  assumes "parse_value n d s = Some x"
  shows "\<exists>c r. next_char s = Some (c, r) \<and> c \<noteq> CHR '']'' \<and> c \<noteq> CHR ''}''"
proof -
  have "parse_scalar (CHR '']'') r = None" "parse_scalar (CHR ''}'') r = None" for r
    by (simp_all add: parse_scalar_def scan_number_def scan_unsigned_def scan_int_def is_digit_def)
  then show ?thesis using assms
    by (cases n) (auto simp: parse_unfold split: option.splits if_splits)
qed

lemma parse_number:
  assumes "scan_number (str @ s) = Some (t, s) \<and> ParseFloat t = Some x" "0 < n"
  shows "parse_value n d (str @ s) = Some (VFloat64 x, s)"
proof -
  obtain c s' where "str @ s = c # s'" "parse_scalar c s' = Some (VFloat64 x, s)" "\<not> is_space c"
      "c \<noteq> CHR ''[''" "c \<noteq> CHR ''{''"
    using number_scalar assms(1) by blast
  then show ?thesis using parse_value_scalar [of "str @ s" c s' n d] assms(2) by simp
qed

lemma parse_int:
  assumes "\<bar>i\<bar> < 2 ^ 64" "ends_value s" "0 < n"
  shows "parse_value n d (format_int i @ s) = Some (VFloat64 (int_to_f64 i), s)"
  using read_format_int [OF assms(1) ends_value_number [OF assms(2)]] parse_number assms(3) by blast

lemma word_int_bounds: "\<bar>sint (w :: u64)\<bar> < 2 ^ 64" "\<bar>sint (w' :: u32)\<bar> < 2 ^ 64" "\<bar>uint (w :: u64)\<bar> < 2 ^ 64"
  "\<bar>uint (w' :: u32)\<bar> < 2 ^ 64"
  using sint_range_size [of w] sint_range_size [of w'] uint_lt2p [of w] uint_lt2p [of w']
  by (simp_all add: word_size abs_less_iff)

lemmas parse_words = parse_int [OF word_int_bounds(1)] parse_int [OF word_int_bounds(2)]
  parse_int [OF word_int_bounds(3)] parse_int [OF word_int_bounds(4)]

lemma parse_float:
  assumes "format_float64 x = Some str" "ends_value s" "0 < n"
  shows "parse_value n d (str @ s) = Some (VFloat64 x, s)"
  using read_format_float64 [OF assms(1) ends_value_number [OF assms(2)]] parse_number assms(3) by blast

lemma parse_literals:
  assumes "0 < n"
  shows "parse_value n d (''null'' @ s) = Some (VNil, s)"
    and "parse_value n d (''true'' @ s) = Some (VBool True, s)"
    and "parse_value n d (''false'' @ s) = Some (VBool False, s)"
  using parse_value_scalar [OF next_char_Cons _ _ assms]
  by (simp_all add: parse_scalar_def is_space_def)

lemma parse_quoted:
  assumes "0 < n"
  shows "parse_value n d (quote t @ s) = Some (VString (coerce_utf8 t), s)"
proof -
  have "next_char (quote t @ s) = Some (CHR 0x22, tl (quote t) @ s)"
    by (simp add: quote_def is_space_def)
  from parse_value_scalar [OF this _ _ assms] show ?thesis
    by (simp add: parse_scalar_def unquote_quote)
qed

lemma parse_elements_text:
  assumes "\<And>v str s n. v \<in> set vs \<Longrightarrow> json_text v = Some str \<Longrightarrow> ends_value s \<Longrightarrow> 2 * length (str @ s) + 1 \<le> n \<Longrightarrow>
      parse_value n d (str @ s) = Some (json_view v, s)"
    and "those (map json_text vs) = Some ts" "vs \<noteq> []" "2 * length (join '','' ts @ '']'' @ s) + 2 \<le> n"
  shows "parse_elements n d (join '','' ts @ '']'' @ s) = Some (map json_view vs, s)"
  using assms
proof (induction vs arbitrary: ts n)
  case (Cons v vs)
  obtain str ts' where ts: "json_text v = Some str" "those (map json_text vs) = Some ts'" "ts = str # ts'"
    using Cons.prems(2) by (auto split: option.splits)
  obtain n' where n: "n = Suc n'" using Cons.prems(4) by (cases n) auto
  have ends: "ends_value (CHR '']'' # s)" "ends_value (CHR '','' # u)" for u by (simp_all add: ends_value_def)
  show ?case
  proof (cases vs)
    case Nil
    then have "ts' = []" using ts(2) by simp
    then show ?thesis
      using Cons.prems(1) [OF _ ts(1) ends(1), of n'] Cons.prems(4)
      by (simp add: ts(3) n Nil parse_elements.simps(2) is_space_def)
  next
    case (Cons w ws)
    then have "ts' \<noteq> []" using ts(2) by (auto split: option.splits)
    then have j: "join '','' ts @ '']'' @ s = str @ CHR '','' # join '','' ts' @ '']'' @ s"
      by (cases ts') (simp_all add: ts(3))
    note len = Cons.prems(4) [unfolded j]
    have "parse_value n' d (str @ CHR '','' # join '','' ts' @ '']'' @ s) =
        Some (json_view v, CHR '','' # join '','' ts' @ '']'' @ s)"
      using len by (intro Cons.prems(1) ts(1) ends) (simp_all add: n)
    moreover have "parse_elements n' d (join '','' ts' @ '']'' @ s) = Some (map json_view vs, s)"
      using len Cons by (intro Cons.IH Cons.prems(1) ts(2)) (simp_all add: n)
    ultimately show ?thesis
      unfolding j by (simp add: n parse_elements.simps(2) is_space_def)
  qed
qed simp

lemma parse_json_text:
  "json_text v = Some str \<Longrightarrow> json_plain d v \<Longrightarrow> ends_value s \<Longrightarrow> 2 * length (str @ s) + 1 \<le> n \<Longrightarrow>
   parse_value n d (str @ s) = Some (json_view v, s)"
proof (induction d v arbitrary: str s n rule: json_plain.induct)
  case (3 d vs)
  obtain ts where ts: "those (map json_text vs) = Some ts" "str = CHR ''['' # join '','' ts @ '']''"
    using 3(2) by auto
  obtain n' where n: "n = Suc n'" using 3(5) by (cases n) auto
  have d: "0 < d" and plain: "list_all (json_plain (d - 1)) vs" using 3(3) by simp_all
  show ?case
  proof (cases "vs = []")
    case True
    then show ?thesis using ts d by (simp add: n parse_value.simps(2) is_space_def)
  next
    case False
    have "parse_elements n' (d - 1) (join '','' ts @ '']'' @ s) = Some (map json_view vs, s)"
    proof (rule parse_elements_text [OF _ ts(1) False])
      show "2 * length (join '','' ts @ '']'' @ s) + 2 \<le> n'" using 3(5) by (simp add: ts(2) n)
    qed (use 3(1) plain in \<open>auto simp: list_all_iff\<close>)
    moreover from this obtain m x where "parse_value m (d - 1) (join '','' ts @ '']'' @ s) = Some x"
      by (cases n') (auto simp: parse_elements.simps split: option.splits)
    then obtain c r where "next_char (join '','' ts @ '']'' @ s) = Some (c, r)" "c \<noteq> CHR '']''"
      using parse_value_first by blast
    ultimately show ?thesis using d by (simp add: n ts(2) parse_value.simps(2) is_space_def)
  qed
qed (auto simp: parse_words parse_quoted parse_literals [simplified] intro: parse_float)

section \<open>Whole documents\<close>

abbreviation member_text :: "string \<times> string \<Rightarrow> string" where
  "member_text kt \<equiv> (case kt of (k, t) \<Rightarrow> quote k @ CHR '':'' # t)"

lemma parse_members_text:
  assumes "those (map (\<lambda>kv. json_text (snd kv)) kvs) = Some ts" "kvs \<noteq> []"
    and "\<forall>kv\<in>set kvs. json_plain d (snd kv)"
    and "2 * length (join '','' (map member_text (zip (map fst kvs) ts)) @ ''}'' @ s) + 2 \<le> n"
  shows "parse_members n d (join '','' (map member_text (zip (map fst kvs) ts)) @ ''}'' @ s) =
    Some (map (\<lambda>kv. (coerce_utf8 (fst kv), json_view (snd kv))) kvs, s)"
  using assms
proof (induction kvs arbitrary: ts n)
  case (Cons kv kvs)
  obtain k v where kv: "kv = (k, v)" by fastforce
  obtain str ts' where ts: "json_text v = Some str" "those (map (\<lambda>kv. json_text (snd kv)) kvs) = Some ts'" "ts = str # ts'"
    using Cons.prems(1) by (auto simp: kv split: option.splits)
  obtain n' where n: "n = Suc n'" using Cons.prems(4) by (cases n) auto
  have plain: "json_plain d v" using Cons.prems(3) by (simp add: kv)
  have ends: "ends_value (CHR ''}'' # s)" "ends_value (CHR '','' # u)" for u by (simp_all add: ends_value_def)
  have key: "next_char (quote k @ u) = Some (CHR 0x22, tl (quote k) @ u)" for u
    by (simp add: quote_def is_space_def)
  show ?case
  proof (cases kvs)
    case Nil
    then have "ts' = []" using ts(2) by simp
    moreover have "parse_value n' d (str @ CHR ''}'' # s) = Some (json_view v, CHR ''}'' # s)"
      using Cons.prems(4) Nil \<open>ts' = []\<close>
      by (intro parse_json_text [OF ts(1) plain ends(1)]) (simp add: n ts(3) kv quote_def)
    ultimately show ?thesis
      by (simp add: ts(3) kv n Nil parse_members.simps(2) is_space_def key unquote_quote)
  next
    case (Cons kv' kvs')
    then obtain t' ts'' where t': "ts' = t' # ts''" using ts(2) by (auto split: option.splits)
    let ?rest = "join '','' (map member_text (zip (map fst kvs) ts')) @ ''}'' @ s"
    have j: "join '','' (map member_text (zip (map fst (kv # kvs)) ts)) @ ''}'' @ s =
        quote k @ CHR '':'' # str @ CHR '','' # ?rest"
      by (simp add: ts(3) kv Cons t')
    note len = Cons.prems(4) [unfolded j]
    have "parse_value n' d (str @ CHR '','' # ?rest) = Some (json_view v, CHR '','' # ?rest)"
      using len by (intro parse_json_text [OF ts(1) plain ends(2)]) (simp add: n)
    moreover have "parse_members n' d ?rest = Some (map (\<lambda>kv. (coerce_utf8 (fst kv), json_view (snd kv))) kvs, s)"
      using len Cons.prems(3) Cons by (intro Cons.IH ts(2)) (simp_all add: n)
    ultimately show ?thesis
      unfolding j by (simp add: n parse_members.simps(2) is_space_def key unquote_quote kv)
  qed
qed simp

text \<open>\<open>entries\<close> is a Go map.\<close>

lemma entries_map: "map_of (entries kvs) = map_of (rev kvs)" "distinct (map fst (entries kvs))"
proof -
  have "map_of (fold (\<lambda>(k, v). AList.update k v) kvs acc) = map_of (rev kvs @ acc)" for acc
    by (induction kvs arbitrary: acc) (auto simp: AList.update_conv')
  from this [of "[]"] show "map_of (entries kvs) = map_of (rev kvs)" by (simp add: entries_def)
  have "distinct (map fst acc) \<Longrightarrow> distinct (map fst (fold (\<lambda>(k, v). AList.update k v) kvs acc))" for acc
    by (induction kvs arbitrary: acc) (auto simp: distinct_update)
  then show "distinct (map fst (entries kvs))" by (simp add: entries_def)
qed

lemma Unmarshal_distinct:
  assumes "Unmarshal data = Some raw"
  shows "distinct (map fst raw)"
proof -
  have "parse_scalar c r \<noteq> Some (VMap kvs, r')" for c r kvs r'
    by (auto simp: parse_scalar_def split: option.splits)
  then have "distinct (map fst kvs)" if "parse_value n d s = Some (VMap kvs, r)" for n d s kvs r
    using that entries_map(2)
    by (cases n) (auto simp: parse_unfold split: option.splits if_splits)
  then show ?thesis
    using assms by (auto simp: Unmarshal_def json_document_def Let_def split: option.splits if_splits gval.splits)
qed

lemma those_length: "those xs = Some ys \<Longrightarrow> length ys = length xs"
  by (induction xs arbitrary: ys) (auto split: option.splits)

lemma Unmarshal_Marshal:
  assumes "Marshal names m = Some out" "\<forall>k. m k \<noteq> None \<longrightarrow> k \<in> set names \<and> coerce_utf8 k = k"
    and "\<forall>k v. m k = Some v \<longrightarrow> json_plain 9999 v"
  shows "\<exists>raw. Unmarshal out = Some raw \<and> distinct (map fst raw) \<and> map_of raw = (\<lambda>k. map_option json_view (m k))"
proof -
  define ks where "ks = sort (remdups (filter (\<lambda>k. m k \<noteq> None) names))"
  define kvs where "kvs = map (\<lambda>k. (k, the (m k))) ks"
  have ks: "distinct ks" "set ks = {k. m k \<noteq> None}" using assms(2) by (auto simp: ks_def)
  obtain ts where ts: "those (map (\<lambda>kv. json_text (snd kv)) kvs) = Some ts"
      "out = string_bytes (object_text (zip ks ts))"
    using assms(1) unfolding Marshal_def Let_def ks_def [symmetric] kvs_def by (auto simp: comp_def)
  have fst: "map fst kvs = ks" by (simp add: kvs_def comp_def)
  let ?body = "join '','' (map member_text (zip ks ts)) @ ''}''"
  define raw where "raw = map (\<lambda>kv. (coerce_utf8 (fst kv), json_view (snd kv))) kvs"
  have raw: "raw = map (\<lambda>k. (k, json_view (the (m k)))) ks"
    using assms(2) ks(2) by (auto simp: raw_def kvs_def)
  have s: "bytes_string out = CHR ''{'' # ?body" by (simp add: ts(2) object_text_def)
  have parsed: "\<exists>kvs'. parse_value (2 * length (CHR ''{'' # ?body) + 2) maxNestingDepth (CHR ''{'' # ?body) = Some (VMap kvs', []) \<and>
      distinct (map fst kvs') \<and> map_of kvs' = map_of raw"
  proof (cases "kvs = []")
    case True
    then have "ks = []" by (simp add: kvs_def)
    then show ?thesis using True
      by (simp add: parse_value.simps(2) [of 5, simplified] is_space_def maxNestingDepth_def raw_def)
  next
    case False
    define n where "n = 2 * length ?body + 3"
    have "parse_members n 9999 (?body @ []) = Some (raw, [])"
    proof -
      have "\<forall>kv\<in>set kvs. json_plain 9999 (snd kv)" using assms(3) ks(2) by (auto simp: kvs_def)
      from parse_members_text [OF ts(1) False this, of "[]" n] show ?thesis
        by (simp add: fst n_def raw_def [symmetric])
    qed
    then have members: "parse_members n 9999 ?body = Some (raw, [])" by simp
    have "next_char ?body = Some (CHR 0x22, tl ?body)"
      using False fst those_length [OF ts(1)]
      by (cases kvs; cases ts; cases "tl kvs"; cases "tl ts")
        (auto simp: quote_def is_space_def split: list.split)
    then have "parse_value (Suc n) maxNestingDepth (CHR ''{'' # ?body) = Some (VMap (entries raw), [])"
      using members by (simp add: parse_value.simps(2) is_space_def maxNestingDepth_def)
    moreover have "Suc n = 2 * length (CHR ''{'' # ?body) + 2" by (simp add: n_def)
    moreover have "distinct (map fst raw)" using ks(1) by (simp add: raw comp_def)
    then have "map_of (entries raw) = map_of raw"
      using entries_map(1) [of raw] map_of_inject_set [of "rev raw" raw] by (simp add: rev_map [symmetric])
    ultimately show ?thesis using entries_map(2) by auto
  qed
  then have "\<exists>raw'. Unmarshal out = Some raw' \<and> distinct (map fst raw') \<and> map_of raw' = map_of raw"
    unfolding Unmarshal_def json_document_def s Let_def by auto
  moreover have "map_of raw = (\<lambda>k. map_option json_view (m k))"
    using ks(2) by (auto simp: raw map_of_map_restrict restrict_map_def fun_eq_iff)
  ultimately show ?thesis by simp
qed

end
