(* ===== verification/Json_Text_Props.thy ===== *)
theory Json_Text_Props
  imports Json_Text
begin

text \<open>
  What comes out of the JSON reader and what goes into the printer: every string of a parsed
  document is well-formed UTF-8, and \<open>Marshal\<close> fails only on a float that is infinite or not a number.
\<close>

section \<open>Strings of a parsed document\<close>

fun utf8_value :: "gval \<Rightarrow> bool" where
  "utf8_value (VString s) \<longleftrightarrow> coerce_utf8 s = s"
| "utf8_value (VList vs) \<longleftrightarrow> list_all utf8_value vs"
| "utf8_value (VMap kvs) \<longleftrightarrow> list_all (\<lambda>kv. coerce_utf8 (fst kv) = fst kv \<and> utf8_value (snd kv)) kvs"
| "utf8_value v \<longleftrightarrow> True"

abbreviation utf8_member :: "string \<times> gval \<Rightarrow> bool" where
  "utf8_member kv \<equiv> coerce_utf8 (fst kv) = fst kv \<and> utf8_value (snd kv)"

lemma escaped_ascii: "escaped e = Some x \<Longrightarrow> code x < 0x80"
  by (auto simp: escaped_def split: if_splits)

lemma unquote_utf8: "unquote s = Some (t, r) \<Longrightarrow> coerce_utf8 t = t"
proof (induction s arbitrary: t rule: length_induct)
  case (1 s)
  have tail: "coerce_utf8 t' = t'" if "unquote s' = Some (t', r)" "length s' < length s" for s' t'
    using 1(1) that by blast
  show ?case
  proof (cases s)
    case (Cons c s')
    show ?thesis
      using 1(2) unfolding Cons
      by (auto simp: prepend_Some coerce_utf8_EncodeRune coerce_ascii dest!: escaped_ascii
          simp del: coerce_utf8.simps(2) split: if_splits list.splits option.splits)
        (erule tail, simp add: Cons)+
  qed (use 1(2) in simp)
qed

lemma parse_scalar_utf8: "parse_scalar c r = Some (v, r') \<Longrightarrow> utf8_value v"
  by (auto simp: parse_scalar_def split: if_splits option.splits dest: unquote_utf8)

lemma entries_utf8: "list_all utf8_member kvs \<Longrightarrow> list_all utf8_member (entries kvs)"
proof -
  have "list_all utf8_member (AList.update k v acc)" if "utf8_member (k, v)" "list_all utf8_member acc" for k v acc
    using that by (induction acc) auto
  then have "list_all utf8_member kvs \<Longrightarrow> list_all utf8_member acc \<Longrightarrow>
      list_all utf8_member (fold (\<lambda>(k, v). AList.update k v) kvs acc)" for acc
    by (induction kvs arbitrary: acc) auto
  then show "list_all utf8_member kvs \<Longrightarrow> list_all utf8_member (entries kvs)" by (simp add: entries_def)
qed

lemma parse_utf8:
  "parse_value n d s = Some (v, r) \<Longrightarrow> utf8_value v"
  "parse_elements n d s = Some (vs, r) \<Longrightarrow> list_all utf8_value vs"
  "parse_members n d s = Some (kvs, r) \<Longrightarrow> list_all utf8_member kvs"
proof (induction n arbitrary: d s v vs kvs r)
  case (Suc n)
  {
    case 1
    then show ?case
      by (auto simp: parse_value.simps(2) split: if_splits option.splits
          dest!: Suc(2,3) parse_scalar_utf8 intro!: entries_utf8)
  next
    case 2
    then show ?case
      by (auto simp: parse_elements.simps(2) split: if_splits option.splits dest!: Suc(1,2))
  next
    case 3
    then show ?case
      by (auto simp: parse_members.simps(2) split: if_splits option.splits dest!: unquote_utf8 Suc(1,3))
  }
qed (simp_all add: parse_unfold)

lemma Unmarshal_utf8:
  assumes "Unmarshal data = Some raw"
  shows "list_all utf8_member raw"
  using assms parse_utf8(1) by (fastforce simp: Unmarshal_def json_document_def Let_def split: option.splits if_splits gval.splits)

section \<open>Values that can be printed\<close>

fun printable :: "gval \<Rightarrow> bool" where
  "printable (VFloat64 x) \<longleftrightarrow> f64_mag x < inf64"
| "printable (VFloat32 x) \<longleftrightarrow> f32_mag x < inf32"
| "printable (VList vs) \<longleftrightarrow> list_all printable vs"
| "printable (VMap kvs) \<longleftrightarrow> list_all (\<lambda>kv. printable (snd kv)) kvs"
| "printable v \<longleftrightarrow> True"

lemma those_None: "those xs = None \<longleftrightarrow> None \<in> set xs"
  by (induction xs) (auto split: option.splits)

lemma json_text_printable: "json_text v = None \<longleftrightarrow> \<not> printable v"
proof (induction v rule: json_text.induct)
  case (13 vs)
  then show ?case by (force simp: those_None list_all_iff)
next
  case (14 kvs)
  then show ?case by (force simp: those_None list_all_iff)
qed (auto simp: format_float64_def format_float32_def)

lemma Marshal_printable:
  assumes "\<forall>k. m k \<noteq> None \<longrightarrow> k \<in> set names"
  shows "Marshal names m = None \<longleftrightarrow> (\<exists>k v. m k = Some v \<and> \<not> printable v)"
proof -
  have "Marshal names m = None \<longleftrightarrow> (\<exists>k\<in>set names. m k \<noteq> None \<and> json_text (the (m k)) = None)"
    by (auto simp: Marshal_def Let_def those_None image_iff)
  also have "\<dots> \<longleftrightarrow> (\<exists>k v. m k = Some v \<and> \<not> printable v)"
    using assms by (fastforce simp: json_text_printable)
  finally show ?thesis .
qed

section \<open>Base64 text is UTF-8\<close>

lemma b64_char_ascii: "code (b64_char d) < 0x80"
proof -
  have "list_all (\<lambda>c. code c < 0x80) b64_alphabet" by (simp add: b64_alphabet_def)
  moreover have "b64_char d \<in> set b64_alphabet" by (simp add: b64_char_def)
  ultimately show ?thesis by (simp add: list_all_iff)
qed

lemma EncodeToString_utf8 [simp]: "coerce_utf8 (EncodeToString b) = EncodeToString b"
  by (rule coerce_utf8_ascii, induction b rule: EncodeToString.induct)
    (simp_all add: b64_char_ascii Let_def)

end
