(* ===== verification/Json_Proto.thy ===== *)
theory Json_Proto
  imports Proto_Types Json_Text_Props "HOL-Library.Multiset"
begin

text \<open>
  \<open>bridges/mqtt-go/json_proto.go\<close>: translation between JSON objects and protobuf bodies.  The text
  layer of \<open>encoding/json\<close> is the reader and the printer of \<open>Json_Text\<close>.  A \<open>range\<close> visits a map in an
  order that Go does not specify and that differs each time: the record \<open>map_order\<close> stands for the orders
  in which the two loops of \<open>JSONToProto\<close> visit the entries of the parsed map.
\<close>

section \<open>Code\<close>

record map_order =
  first_range :: "(string \<times> gval) list \<Rightarrow> (string \<times> gval) list"
  second_range :: "(string \<times> gval) list \<Rightarrow> (string \<times> gval) list"

text \<open>Each loop visits every entry once.\<close>

definition visits_all :: "map_order \<Rightarrow> bool" where
  "visits_all mo \<longleftrightarrow> (\<forall>kvs. mset (first_range mo kvs) = mset kvs \<and> mset (second_range mo kvs) = mset kvs)"

datatype json_error =
    ParseJSON
  | UnknownField string string
  | FieldJSON string json_error
  | RepeatedNotArray gval
  | ElementJSON nat json_error
  | BytesNotString gval
  | Base64Decode string
  | ProtoFailed proto_error
  | MarshalFailed

definition jsonScalarToGo :: "string \<Rightarrow> gval \<Rightarrow> (json_error, gval) outcome" where
  "jsonScalarToGo typ v =
     (if typ = ''bytes'' then
        (case v of
           VString s \<Rightarrow> (case DecodeString s of None \<Rightarrow> Fail (Base64Decode s) | Some b \<Rightarrow> Ret (VBytes b))
         | _ \<Rightarrow> Fail (BytesNotString v))
      else Ret v)"

definition jsonValueToGo :: "SchemaField \<Rightarrow> gval \<Rightarrow> (json_error, gval) outcome" where
  "jsonValueToGo f v =
     (if Repeated f then
        (case v of
           VList arr \<Rightarrow>
             go_bind (go_for (\<lambda>(i, elem) out.
                 go_bind (go_wrap (ElementJSON i) (jsonScalarToGo (Type f) elem)) (\<lambda>c.
                 Ret (out[i := c])))
               (enumerate 0 arr) (replicate (length arr) VNil))
             (\<lambda>out. Ret (VList out))
         | _ \<Rightarrow> Fail (RepeatedNotArray v))
      else jsonScalarToGo (Type f) v)"

text \<open>\<open>s.Fields[s.byName[k]]\<close>: a missing key reads as index 0.\<close>

definition fieldNamed :: "Schema \<Rightarrow> string \<Rightarrow> ('e, SchemaField) outcome" where
  "fieldNamed s k = go_at (Fields s) (case byName s k of Some i \<Rightarrow> i | None \<Rightarrow> 0)"

definition checkKey :: "Schema \<Rightarrow> string \<times> gval \<Rightarrow> unit \<Rightarrow> (json_error, unit) outcome" where
  "checkKey s kv u = (if byName s (fst kv) = None then Fail (UnknownField (ID s) (fst kv)) else Ret u)"

definition prepareKey ::
  "Schema \<Rightarrow> string \<times> gval \<Rightarrow> (string \<rightharpoonup> gval) \<Rightarrow> (json_error, string \<rightharpoonup> gval) outcome" where
  "prepareKey s kv prepared =
     go_bind (fieldNamed s (fst kv)) (\<lambda>f.
     go_bind (go_wrap (FieldJSON (fst kv)) (jsonValueToGo f (snd kv))) (\<lambda>coerced.
     Ret (prepared(fst kv \<mapsto> coerced))))"

definition JSONToProto :: "go_arch \<Rightarrow> map_order \<Rightarrow> Schema \<Rightarrow> bytes \<Rightarrow> (json_error, bytes) outcome" where
  "JSONToProto arch mo s jsonBody =
     (case Unmarshal jsonBody of
        None \<Rightarrow> Fail ParseJSON
      | Some raw \<Rightarrow>
          go_bind (go_for (checkKey s) (first_range mo raw) ()) (\<lambda>_.
          go_bind (go_for (prepareKey s) (second_range mo raw) Map.empty) (\<lambda>prepared.
          go_wrap ProtoFailed (EncodeProto arch s prepared))))"

definition goScalarToJSON :: "string \<Rightarrow> gval \<Rightarrow> gval" where
  "goScalarToJSON typ v =
     (if typ = ''bytes'' then (case v of VBytes b \<Rightarrow> VString (EncodeToString b) | _ \<Rightarrow> v) else v)"

definition goValueToJSON :: "SchemaField \<Rightarrow> gval \<Rightarrow> gval" where
  "goValueToJSON f v =
     (if Repeated f then
        (case v of VList arr \<Rightarrow> VList (map (goScalarToJSON (Type f)) arr) | _ \<Rightarrow> v)
      else goScalarToJSON (Type f) v)"

text \<open>
  The loop \<open>for k, v := range values\<close> replaces each value once; the order does not matter, so the
  model visits the keys in the order of the schema's fields, among which they all are.
\<close>

definition convertKey ::
  "Schema \<Rightarrow> string \<Rightarrow> (string \<rightharpoonup> gval) \<Rightarrow> (json_error, string \<rightharpoonup> gval) outcome" where
  "convertKey s k vals =
     (case vals k of
        None \<Rightarrow> Ret vals
      | Some v \<Rightarrow> go_bind (fieldNamed s k) (\<lambda>f. Ret (vals(k \<mapsto> goValueToJSON f v))))"

definition ProtoToJSON :: "Schema \<Rightarrow> bytes \<Rightarrow> (json_error, bytes) outcome option" where
  "ProtoToJSON s body =
     (case DecodeProto s body of
        None \<Rightarrow> None
      | Some r \<Rightarrow> Some (
          go_bind (go_wrap ProtoFailed r) (\<lambda>vals.
          go_bind (go_for (convertKey s) (map Name (Fields s)) vals) (\<lambda>vals.
          case Marshal (map Name (Fields s)) vals of None \<Rightarrow> Fail MarshalFailed | Some out \<Rightarrow> Ret out))))"


section \<open>From JSON\<close>

text \<open>The pure part: what a JSON value becomes, if it is acceptable for the field.\<close>

definition json_scalar :: "string \<Rightarrow> gval \<Rightarrow> gval option" where
  "json_scalar t v =
     (if t = ''bytes'' then (case v of VString s \<Rightarrow> map_option VBytes (DecodeString s) | _ \<Rightarrow> None)
      else Some v)"

definition json_value :: "SchemaField \<Rightarrow> gval \<Rightarrow> gval option" where
  "json_value f v =
     (if Repeated f then
        (case v of VList arr \<Rightarrow> map_option VList (those (map (json_scalar (Type f)) arr)) | _ \<Rightarrow> None)
      else json_scalar (Type f) v)"

text \<open>A pure optional result seen through an outcome that does not panic.\<close>

definition computes :: "('e, 'a) outcome \<Rightarrow> 'a option \<Rightarrow> bool" where
  "computes m r \<longleftrightarrow> (case r of Some x \<Rightarrow> m = Ret x | None \<Rightarrow> \<exists>e. m = Fail e)"

lemma jsonScalarToGo_computes: "computes (jsonScalarToGo t v) (json_scalar t v)"
  by (auto simp: computes_def jsonScalarToGo_def json_scalar_def split: gval.split option.split)

lemma jsonElements_computes:
  "length out = length done + length arr \<Longrightarrow> take (length done) out = done \<Longrightarrow>
   computes (go_for (\<lambda>(i, elem) out.
       go_bind (go_wrap (ElementJSON i) (jsonScalarToGo t elem)) (\<lambda>c. Ret (out[i := c])))
     (enumerate (length done) arr) out)
     (map_option ((@) done) (those (map (json_scalar t) arr)))"
proof (induction arr arbitrary: "done" out)
  case Nil
  then show ?case by (simp add: computes_def)
next
  case (Cons v arr)
  note sc = jsonScalarToGo_computes [of t v]
  show ?case
  proof (cases "json_scalar t v")
    case None
    with sc show ?thesis by (auto simp: computes_def)
  next
    case (Some c)
    let ?out = "out[length done := c]"
    have "take (length (done @ [c])) ?out = done @ [c]"
      using Cons.prems by (simp add: take_Suc_conv_app_nth take_update_cancel nth_list_update)
    moreover have "length ?out = length (done @ [c]) + length arr" using Cons.prems by simp
    ultimately have
      "computes (go_for (\<lambda>(i, elem) out.
          go_bind (go_wrap (ElementJSON i) (jsonScalarToGo t elem)) (\<lambda>c. Ret (out[i := c])))
        (enumerate (Suc (length done)) arr) ?out) (map_option ((@) (done @ [c])) (those (map (json_scalar t) arr)))"
      unfolding length_append_singleton [symmetric, of _ c] by (intro Cons.IH)
    moreover have "jsonScalarToGo t v = Ret c" using sc Some by (simp add: computes_def)
    moreover have "map_option ((@) done) (those (map (json_scalar t) (v # arr))) =
        map_option ((@) (done @ [c])) (those (map (json_scalar t) arr))"
      using Some by (cases "those (map (json_scalar t) arr)") simp_all
    ultimately show ?thesis by (simp only: go_for.simps enumerate_simps go_wrap.simps go_bind.simps prod.case)
  qed
qed

lemma jsonValueToGo_computes: "computes (jsonValueToGo f v) (json_value f v)"
proof (cases "Repeated f")
  case False
  then show ?thesis using jsonScalarToGo_computes by (simp add: jsonValueToGo_def json_value_def)
next
  case True
  show ?thesis
  proof (cases "\<exists>arr. v = VList arr")
    case True
    then obtain arr where v: "v = VList arr" ..
    have "computes (go_for (\<lambda>(i, elem) out.
         go_bind (go_wrap (ElementJSON i) (jsonScalarToGo (Type f) elem)) (\<lambda>c. Ret (out[i := c])))
       (enumerate 0 arr) (replicate (length arr) VNil)) (those (map (json_scalar (Type f)) arr))"
      using jsonElements_computes [of "replicate (length arr) VNil" "[]" arr "Type f"]
      by (simp add: option.map_ident_strong)
    then show ?thesis
      using \<open>Repeated f\<close> unfolding v computes_def jsonValueToGo_def json_value_def
      by (auto split: option.splits)
  next
    case False
    then show ?thesis using True
      by (auto simp: computes_def jsonValueToGo_def json_value_def split: gval.split)
  qed
qed

section \<open>What a JSON object becomes\<close>

text \<open>An object is accepted when each key names a field and each value fits it.\<close>

definition json_entry :: "Schema \<Rightarrow> string \<Rightarrow> gval \<Rightarrow> gval option" where
  "json_entry s k v = (case byName s k of None \<Rightarrow> None | Some i \<Rightarrow> json_value (Fields s ! i) v)"

definition json_ok :: "Schema \<Rightarrow> (string \<times> gval) list \<Rightarrow> bool" where
  "json_ok s = list_all (\<lambda>(k, v). json_entry s k v \<noteq> None)"

definition json_map :: "Schema \<Rightarrow> (string \<times> gval) list \<Rightarrow> string \<rightharpoonup> gval" where
  "json_map s raw k = (case map_of raw k of None \<Rightarrow> None | Some v \<Rightarrow> json_entry s k v)"


lemma json_ok_Cons: "json_ok s (kv # kvs) \<longleftrightarrow> json_entry s (fst kv) (snd kv) \<noteq> None \<and> json_ok s kvs"
  by (auto simp: json_ok_def split: prod.split)

lemma json_map_Nil [simp]: "json_map s [] = Map.empty"
  by (rule ext) (simp add: json_map_def)

lemma json_map_Cons:
  "json_map s (kv # kvs) =
     (\<lambda>k. if k = fst kv then json_entry s (fst kv) (snd kv) else json_map s kvs k)"
  by (rule ext) (simp add: json_map_def)

lemma byName_in_range: "schema_wf s \<Longrightarrow> byName s k = Some i \<Longrightarrow> i < length (Fields s)"
  by (simp add: byName_iff)

lemma fieldNamed_known: "schema_wf s \<Longrightarrow> byName s k = Some i \<Longrightarrow> fieldNamed s k = Ret (Fields s ! i)"
  by (simp add: fieldNamed_def go_at_in byName_in_range)

lemma checkKeys:
  "if \<forall>kv\<in>set kvs. byName s (fst kv) \<noteq> None then go_for (checkKey s) kvs () = Ret ()
   else \<exists>e. go_for (checkKey s) kvs () = Fail e"
  by (induction kvs) (auto simp: checkKey_def split: if_splits)

lemma prepareKey_computes:
  assumes "schema_wf s" "byName s (fst kv) \<noteq> None"
  shows "computes (prepareKey s kv m) (map_option (\<lambda>c. m(fst kv \<mapsto> c)) (json_entry s (fst kv) (snd kv)))"
proof -
  from assms(2) obtain i where i: "byName s (fst kv) = Some i" by blast
  show ?thesis
    using jsonValueToGo_computes [of "Fields s ! i" "snd kv"]
    by (cases "json_value (Fields s ! i) (snd kv)")
      (auto simp: computes_def prepareKey_def json_entry_def i fieldNamed_known [OF assms(1) i])
qed

lemma prepareKeys:
  assumes "schema_wf s" "\<forall>kv\<in>set kvs. byName s (fst kv) \<noteq> None" "distinct (map fst kvs)"
  shows "if json_ok s kvs then go_for (prepareKey s) kvs m = Ret (m ++ json_map s kvs)
    else \<exists>e. go_for (prepareKey s) kvs m = Fail e"
  using assms(2,3)
proof (induction kvs arbitrary: m)
  case Nil
  show ?case by (simp add: json_ok_def)
next
  case (Cons kv kvs)
  have c: "computes (prepareKey s kv m) (map_option (\<lambda>c. m(fst kv \<mapsto> c)) (json_entry s (fst kv) (snd kv)))"
    using prepareKey_computes assms(1) Cons.prems(1) by simp
  show ?case
  proof (cases "json_entry s (fst kv) (snd kv)")
    case None
    with c show ?thesis by (auto simp: computes_def json_ok_Cons)
  next
    case (Some v)
    have none: "json_map s kvs (fst kv) = None"
      using Cons.prems(2) map_of_eq_None_iff [of kvs "fst kv"] by (simp add: json_map_def)
    have "m(fst kv \<mapsto> v) ++ json_map s kvs = m ++ json_map s (kv # kvs)"
      using Some none by (auto simp: map_add_def json_map_Cons fun_eq_iff split: option.split)
    moreover have "prepareKey s kv m = Ret (m(fst kv \<mapsto> v))" using c Some by (simp add: computes_def)
    ultimately show ?thesis
      using Cons.IH [of "m(fst kv \<mapsto> v)"] Cons.prems Some by (auto simp: json_ok_Cons)
  qed
qed

lemma json_ok_known: "json_ok s kvs \<Longrightarrow> \<forall>kv\<in>set kvs. byName s (fst kv) \<noteq> None"
  by (auto simp: json_ok_def list_all_iff json_entry_def split: option.splits)

lemma json_ok_perm: "set kvs = set kvs' \<Longrightarrow> json_ok s kvs = json_ok s kvs'"
  by (simp add: json_ok_def list_all_iff)

lemma json_map_perm:
  assumes "distinct (map fst kvs)" "mset kvs = mset kvs'"
  shows "json_map s kvs = json_map s kvs'"
proof -
  have "mset (map fst kvs) = mset (map fst kvs')" using assms(2) by simp
  then have "distinct (map fst kvs')" using assms(1) by (metis distinct_count_atmost_1 set_mset_mset)
  then have "map_of kvs = map_of kvs'"
    using assms map_of_inject_set [of kvs kvs'] mset_eq_setD [OF assms(2)] by blast
  then show ?thesis by (simp add: json_map_def fun_eq_iff)
qed

lemma JSONToProto_eq:
  assumes wf: "schema_wf s" and raw: "Unmarshal jsonBody = Some raw" "visits_all mo"
  shows "if json_ok s raw then JSONToProto arch mo s jsonBody = go_wrap ProtoFailed (EncodeProto arch s (json_map s raw))
    else \<exists>e. JSONToProto arch mo s jsonBody = Fail e"
proof -
  let ?kvs = "second_range mo raw"
  have m: "mset ?kvs = mset raw" "mset (first_range mo raw) = mset raw"
    using raw(2) by (simp_all add: visits_all_def)
  note d = Unmarshal_distinct [OF raw(1)]
  have set_eq: "set ?kvs = set raw" "set (first_range mo raw) = set raw" using m by (metis mset_eq_setD)+
  have "mset (map fst ?kvs) = mset (map fst raw)" using m(1) by simp
  then have d': "distinct (map fst ?kvs)" using d by (metis distinct_count_atmost_1 set_mset_mset)
  show ?thesis
  proof (cases "\<forall>kv\<in>set raw. byName s (fst kv) \<noteq> None")
    case False
    then have "\<not> json_ok s raw" using json_ok_known by blast
    moreover obtain e where "go_for (checkKey s) (first_range mo raw) () = Fail e"
      using checkKeys [of "first_range mo raw" s] False by (auto simp: if_not_P set_eq)
    ultimately show ?thesis by (simp add: JSONToProto_def raw(1))
  next
    case True
    then have k: "\<forall>kv\<in>set ?kvs. byName s (fst kv) \<noteq> None" by (simp add: set_eq)
    show ?thesis
      using prepareKeys [OF wf k d', of Map.empty] checkKeys [of "first_range mo raw" s] True
        json_ok_perm [OF set_eq(1)] json_map_perm [OF d' m(1)]
      by (auto simp: JSONToProto_def raw(1) set_eq)
  qed
qed


section \<open>To JSON\<close>

definition to_json_map :: "Schema \<Rightarrow> (string \<rightharpoonup> gval) \<Rightarrow> string \<rightharpoonup> gval" where
  "to_json_map s vals k =
     (case vals k of
        None \<Rightarrow> None
      | Some v \<Rightarrow> Some (goValueToJSON (Fields s ! (case byName s k of Some i \<Rightarrow> i | None \<Rightarrow> 0)) v))"

lemma convertKeys:
  assumes "\<forall>k\<in>set ks. byName s k \<noteq> None" "schema_wf s" "distinct ks"
  shows "go_for (convertKey s) ks vals =
    Ret (\<lambda>k. if k \<in> set ks then to_json_map s vals k else vals k)"
  using assms(1,3)
proof (induction ks arbitrary: vals)
  case (Cons k ks)
  from Cons.prems obtain i where i: "byName s k = Some i" by auto
  define vals' where "vals' = (case vals k of None \<Rightarrow> vals | Some v \<Rightarrow> vals(k \<mapsto> goValueToJSON (Fields s ! i) v))"
  have step: "convertKey s k vals = Ret vals'"
    by (simp add: convertKey_def vals'_def fieldNamed_known [OF assms(2) i] split: option.split)
  have "to_json_map s vals' k' = to_json_map s vals k'" if "k' \<in> set ks" for k'
  proof -
    have "k' \<noteq> k" using that Cons.prems(2) by auto
    then show ?thesis by (simp add: to_json_map_def vals'_def split: option.split)
  qed
  moreover have "vals' k = to_json_map s vals k"
    by (simp add: vals'_def to_json_map_def i split: option.split)
  moreover have "vals' k' = vals k'" if "k' \<noteq> k" for k'
    using that by (simp add: vals'_def split: option.split)
  ultimately have "(\<lambda>k'. if k' \<in> set ks then to_json_map s vals' k' else vals' k') =
      (\<lambda>k'. if k' \<in> set (k # ks) then to_json_map s vals k' else vals k')"
    using Cons.prems(2) by (auto simp: fun_eq_iff)
  then show ?case using Cons.IH [of vals'] Cons.prems by (simp add: step)
qed simp

lemma typed_name_known: "schema_wf s \<Longrightarrow> message_typed s vals \<Longrightarrow> vals k \<noteq> None \<Longrightarrow> k \<in> Name ` set (Fields s)"
  by (auto simp: message_typed_def)

text \<open>What ProtoToJSON is: decode, convert every value, marshal.\<close>

definition marshalled :: "Schema \<Rightarrow> (string \<rightharpoonup> gval) \<Rightarrow> (json_error, bytes) outcome" where
  "marshalled s vals =
     (case Marshal (map Name (Fields s)) vals of None \<Rightarrow> Fail MarshalFailed | Some out \<Rightarrow> Ret out)"

lemma ProtoToJSON_eq:
  assumes "schema_wf s" "in_memory body"
  shows "ProtoToJSON s body =
    map_option (\<lambda>r. go_bind (go_wrap ProtoFailed r) (\<lambda>vals. marshalled s (to_json_map s vals)))
      (DecodeProto s body)"
proof (cases "\<exists>vals. DecodeProto s body = Some (Ret vals)")
  case False
  then show ?thesis
    by (cases "DecodeProto s body" rule: option.exhaust) (auto simp: ProtoToJSON_def elim: outcome.exhaust
        split: option.split intro: outcome.exhaust)
next
  case True
  then obtain vals where d: "DecodeProto s body = Some (Ret vals)" ..
  have t: "message_typed s vals" by (rule decoded_typed [OF assms d])
  have known: "\<forall>k\<in>set (map Name (Fields s)). byName s k \<noteq> None"
    using assms(1) by (auto simp: schema_wf_def index_map_None)
  have dist: "distinct (map Name (Fields s))" using assms(1) by (simp add: schema_wf_def fields_ok_def)
  have "(\<lambda>k. if k \<in> set (map Name (Fields s)) then to_json_map s vals k else vals k) = to_json_map s vals"
    using typed_name_known [OF assms(1) t] by (force simp: fun_eq_iff to_json_map_def)
  with convertKeys [OF known assms(1) dist, of vals]
  show ?thesis by (simp add: ProtoToJSON_def d marshalled_def)
qed

lemma ProtoToJSON_no_panic:
  assumes "schema_wf s" "in_memory body"
  shows "\<exists>m. ProtoToJSON s body = Some m \<and> m \<noteq> Panic"
proof -
  have "\<exists>r. DecodeProto s body = Some r \<and> r \<noteq> Panic"
    using DecodeProto_get_all [OF assms] by (cases "field.get_all s body") auto
  then obtain r where "DecodeProto s body = Some r" "r \<noteq> Panic" by blast
  then show ?thesis
    unfolding ProtoToJSON_eq [OF assms]
    by (cases r) (simp_all add: marshalled_def split: option.split)
qed

end
