(* ===== verification/Json_Proto_Props.thy ===== *)
theory Json_Proto_Props
  imports Json_Proto Proto_Props
begin

text \<open>
  The properties of the JSON translation (\<open>bridges/mqtt-go/json_proto.go\<close>): when a JSON object is
  accepted, that the order in which Go visits a map does not show, that translating back never
  panics, and what a JSON object looks like after the trip through protobuf.
\<close>

section \<open>A document for the witnesses\<close>

abbreviation demo_doc :: bytes where
  "demo_doc \<equiv> string_bytes ''{\"k\":\"aGk=\",\"s\":[\"hi\",\"yo\"]}''"

definition demo_raw :: "(string \<times> gval) list" where
  "demo_raw = [(''k'', VString ''aGk=''), (''s'', VList [VString ''hi'', VString ''yo''])]"

definition demo_order :: map_order where
  "demo_order = \<lparr>first_range = (\<lambda>kvs. kvs), second_range = rev\<rparr>"

definition json_fields :: "SchemaField list" where
  "json_fields =
     [\<lparr>Name = ''k'', Type = ''bytes'', Tag = 7, Repeated = False\<rparr>,
      \<lparr>Name = ''s'', Type = ''string'', Tag = 2, Repeated = True\<rparr>]"

abbreviation json_schema :: Schema where
  "json_schema \<equiv> built_schema ''demo'' json_fields"

lemma json_schema: "NewSchema ''demo'' json_fields = Ret json_schema"
  by (rule NewSchema_built) (simp_all add: json_fields_def fields_ok_def field_ok_iff validTypes_def)

lemma json_schema_names: "byName json_schema ''k'' = Some 0" "byName json_schema ''s'' = Some 1"
  unfolding byName_iff [OF NewSchema_wf [OF json_schema]] by (simp_all add: json_fields_def)

lemma json_schema_fields:
  "Fields json_schema ! 0 = \<lparr>Name = ''k'', Type = ''bytes'', Tag = 7, Repeated = False\<rparr>"
  "Fields json_schema ! Suc 0 = \<lparr>Name = ''s'', Type = ''string'', Tag = 2, Repeated = True\<rparr>"
  by (simp_all add: json_fields_def)

lemma demo_unmarshal: "Unmarshal demo_doc = Some demo_raw"
  by (simp add: Unmarshal_def json_document_def maxNestingDepth_def demo_raw_def parse_numeral is_space_def parse_scalar_def
      DecodeRune_ascii EncodeRune_def is_surrogate_def char_of_def bit_0 prepend_def entries_def)

lemma demo_visits: "visits_all demo_order"
  by (simp add: visits_all_def demo_order_def)

section \<open>Into protobuf\<close>

lemma EncodeProto_empty: "schema_wf s \<Longrightarrow> EncodeProto arch s Map.empty = Ret []"
  using EncodeProto_eq [of s arch Map.empty]
  by (simp add: field_encodable_def message_elements_def field_elements_def)


lemma null_document: "json_document (string_bytes ''null'') = Some VNil"
  by (simp add: json_document_def maxNestingDepth_def parse_numeral is_space_def parse_scalar_def)


text \<open>
  C32. The order in which Go visits the parsed map does not show in the result: two runs on the same
  document that visit the map in different orders, in both loops, encode to the same bytes or both fail.
\<close>

theorem JSONToProto_map_order:
  assumes "NewSchema sname flds = Ret s" "visits_all mo" "visits_all mo'"
  shows "JSONToProto arch mo s doc = Ret body \<longleftrightarrow> JSONToProto arch mo' s doc = Ret body"
proof (cases "Unmarshal doc")
  case None
  then show ?thesis by (simp add: JSONToProto_def)
next
  case (Some raw)
  have wf: "schema_wf s" by (rule NewSchema_wf [OF assms(1)])
  show ?thesis
    using JSONToProto_eq [OF wf Some assms(2), of arch] JSONToProto_eq [OF wf Some assms(3), of arch]
    by (auto split: if_splits)
qed


section \<open>Back to JSON\<close>

text \<open>
  ProtoToJSON is total on every byte sequence: it returns a document or an error, without a panic
  from the table lookup of a decoded name.
\<close>

theorem ProtoToJSON_total:
  assumes "NewSchema sname flds = Ret s" "in_memory body"
  shows "(\<exists>doc. ProtoToJSON s body = Some (Ret doc)) \<or> (\<exists>e. ProtoToJSON s body = Some (Fail e))"
proof -
  obtain m where "ProtoToJSON s body = Some m" "m \<noteq> Panic"
    using ProtoToJSON_no_panic [OF NewSchema_wf [OF assms(1)] assms(2)] by blast
  then show ?thesis by (cases m) simp_all
qed

theorem ProtoToJSON_total_witness:
  "\<exists>r. ProtoToJSON json_schema [0x3A, 0xFF, 0xFF] = Some r \<and> r \<noteq> Panic"
proof -
  have "in_memory [0x3A, 0xFF, 0xFF :: u8]" by simp
  from ProtoToJSON_total [OF json_schema this] show ?thesis by auto
qed

text \<open>The values \<open>ProtoToJSON\<close> prints are scalars or lists of scalars.\<close>

lemma converted_plain:
  assumes "field_typed_value f v"
  shows "json_plain 9999 (goValueToJSON f v)"
proof -
  have "json_plain d (goScalarToJSON (Type f) x)" if "value_typed (Type f) x" for x d
    using that by (cases x) (auto simp: value_typed_def goScalarToJSON_def)
  then show ?thesis
    using assms by (auto simp: field_typed_value_def goValueToJSON_def list_all_iff split: gval.splits if_splits)
qed

lemma to_json_map_printable_keys:
  assumes "schema_wf s" "message_typed s vals" "to_json_map s vals k = Some v"
  shows "k \<in> Name ` set (Fields s) \<and> json_plain 9999 v"
proof -
  obtain u where u: "vals k = Some u" "v = goValueToJSON (Fields s ! (case byName s k of Some i \<Rightarrow> i | None \<Rightarrow> 0)) u"
    using assms(3) by (auto simp: to_json_map_def split: option.splits)
  then obtain f where f: "f \<in> set (Fields s)" "Name f = k" "field_typed_value f u"
    using assms(2) by (auto simp: message_typed_def)
  then obtain i where "i < length (Fields s)" "Fields s ! i = f" by (auto simp: in_set_conv_nth)
  then have "byName s k = Some i" using f(2) by (simp add: byName_iff [OF assms(1)])
  with u f \<open>Fields s ! i = f\<close> converted_plain show ?thesis by auto
qed

text \<open>What reading the printed document gives.\<close>

lemma printed_reads_back:
  assumes "schema_wf s" "message_typed s vals"
    and "\<forall>k. to_json_map s vals k \<noteq> None \<longrightarrow> coerce_utf8 k = k"
  shows "if \<forall>k v. to_json_map s vals k = Some v \<longrightarrow> printable v
    then \<exists>doc raw. marshalled s (to_json_map s vals) = Ret doc \<and> Unmarshal doc = Some raw \<and>
      map_of raw = (\<lambda>k. map_option json_view (to_json_map s vals k))
    else marshalled s (to_json_map s vals) = Fail MarshalFailed"
proof -
  let ?m = "to_json_map s vals" and ?names = "map Name (Fields s)"
  have keys: "\<forall>k. ?m k \<noteq> None \<longrightarrow> k \<in> set ?names" and plain: "\<forall>k v. ?m k = Some v \<longrightarrow> json_plain 9999 v"
    using to_json_map_printable_keys [OF assms(1,2)] by auto
  show ?thesis
  proof (cases "Marshal ?names ?m")
    case None
    then show ?thesis using Marshal_printable [OF keys] by (auto simp: marshalled_def)
  next
    case (Some doc)
    have "\<exists>raw. Unmarshal doc = Some raw \<and> distinct (map fst raw) \<and> map_of raw = (\<lambda>k. map_option json_view (?m k))"
      using keys assms(3) plain by (intro Unmarshal_Marshal [OF Some]) auto
    then show ?thesis using Some Marshal_printable [OF keys] by (auto simp: marshalled_def)
  qed
qed


text \<open>What becomes of a JSON value on the trip: bytes are re-encoded, the rest is transported.\<close>

definition json_arrives :: "go_arch \<Rightarrow> string \<Rightarrow> gval \<Rightarrow> gval" where
  "json_arrives arch typ v =
     (if typ = ''bytes'' then
        (case v of VString b64 \<Rightarrow> VString (EncodeToString (the (DecodeString b64))) | _ \<Rightarrow> v)
      else received arch typ v)"

definition json_field_arrives :: "go_arch \<Rightarrow> SchemaField \<Rightarrow> gval \<Rightarrow> gval option" where
  "json_field_arrives arch f v =
     (if Repeated f then
        (case v of
           VList [] \<Rightarrow> None
         | VList xs \<Rightarrow> Some (VList (map (json_arrives arch (Type f)) xs))
         | _ \<Rightarrow> None)
      else Some (json_arrives arch (Type f) v))"

lemma scalar_arrives:
  "json_scalar typ v = Some c \<Longrightarrow> goScalarToJSON typ (received arch typ c) = json_arrives arch typ v"
  by (auto simp: json_scalar_def json_arrives_def goScalarToJSON_def at_type split: if_splits gval.splits)

lemma those_Some: "those xs = Some ys \<longleftrightarrow> xs = map Some ys"
  by (induction xs arbitrary: ys) (auto split: option.splits simp: Cons_eq_map_conv)

lemma elements_arrive:
  assumes "those (map (json_scalar typ) xs) = Some cs"
  shows "map (goScalarToJSON typ) (map (received arch typ) cs) = map (json_arrives arch typ) xs"
proof -
  have "map (json_scalar typ) xs = map Some cs" using assms by (simp add: those_Some)
  then show ?thesis
    by (induction xs arbitrary: cs) (auto simp: Cons_eq_map_conv scalar_arrives map_eq_Cons_conv)
qed

lemma field_arrives:
  assumes "json_value f v = Some c" "vals (Name f) = Some c"
  shows "map_option (goValueToJSON f) (received_field arch vals f) = json_field_arrives arch f v"
proof (cases "Repeated f")
  case False
  then show ?thesis
    using assms by (simp add: received_field_def field_elements_def goValueToJSON_def json_value_def
        json_field_arrives_def scalar_arrives)
next
  case True
  then obtain xs cs where v: "v = VList xs" "c = VList cs" "those (map (json_scalar (Type f)) xs) = Some cs"
    using assms(1) by (auto simp: json_value_def split: gval.splits)
  have len: "length xs = length cs" using v(3) by (metis length_map those_Some)
  show ?thesis
    using True assms(2) elements_arrive [OF v(3), of arch] len
    by (cases cs; cases xs) (simp_all add: v received_field_def field_elements_def goValueToJSON_def
        json_field_arrives_def)
qed

text \<open>What becomes of a document.\<close>

definition document_arrives :: "go_arch \<Rightarrow> Schema \<Rightarrow> (string \<times> gval) list \<Rightarrow> string \<rightharpoonup> gval" where
  "document_arrives arch s raw k =
     (case map_of raw k of
        None \<Rightarrow> None
      | Some v \<Rightarrow> json_field_arrives arch (Fields s ! the (byName s k)) v)"

lemma JSON_arrives:
  assumes "schema_wf s" "Unmarshal doc = Some raw" "visits_all mo"
    and "JSONToProto arch mo s doc = Ret body" "in_memory body"
  shows "\<exists>vals. DecodeProto s body = Some (Ret vals) \<and> to_json_map s vals = document_arrives arch s raw"
proof -
  note wf = assms(1)
  let ?vals = "json_map s raw" and ?got = "received_map arch (json_map s raw) (Fields s)"
  have ok: "json_ok s raw" and enc: "EncodeProto arch s ?vals = Ret body"
    using JSONToProto_eq [OF wf assms(2,3), of arch] assms(4) by (auto split: if_splits)
  have "filter (\<lambda>f. f \<in> set (Fields s)) (Fields s) = Fields s" by (simp add: filter_id_conv)
  then have dec: "DecodeProto s body = Some (Ret ?got)"
    using decode_encoded_message [OF wf wf compatible_self [OF wf] enc assms(5)] by simp
  have fok: "fields_ok (Fields s)" using wf by (simp add: schema_wf_def)
  have "to_json_map s ?got k = (case map_of raw k of None \<Rightarrow> None
      | Some v \<Rightarrow> json_field_arrives arch (Fields s ! the (byName s k)) v)" for k
  proof (cases "byName s k")
    case None
    then have "map_of raw k = None"
      using json_ok_known [OF ok] by (force simp: map_of_eq_None_iff)
    moreover have "\<forall>f\<in>set (Fields s). Name f \<noteq> k"
      using None wf by (auto simp: schema_wf_def index_map_None)
    ultimately show ?thesis by (simp add: to_json_map_def received_map_unknown)
  next
    case (Some i)
    let ?f = "Fields s ! i"
    have f: "?f \<in> set (Fields s)" "Name ?f = k" using Some by (simp_all add: byName_iff [OF wf])
    then have got: "?got k = received_field arch ?vals ?f" using received_map_known [OF fok f(1)] by simp
    show ?thesis
    proof (cases "map_of raw k")
      case None
      then have "?vals (Name ?f) = None" by (simp add: json_map_def f(2))
      then show ?thesis by (simp add: to_json_map_def got received_field_def field_elements_def None)
    next
      case (Some v)
      then have "json_entry s k v \<noteq> None"
        using ok map_of_SomeD [OF Some] by (auto simp: json_ok_def list_all_iff)
      then obtain c where c: "json_value ?f v = Some c" using \<open>byName s k = Some i\<close>
        by (auto simp: json_entry_def)
      then have "?vals (Name ?f) = Some c"
        using Some \<open>byName s k = Some i\<close> by (simp add: json_map_def f(2) json_entry_def)
      from field_arrives [OF c, of ?vals arch, OF this] show ?thesis
        using Some \<open>byName s k = Some i\<close> by (simp add: to_json_map_def got map_option_case cong: option.case_cong)
    qed
  qed
  then have "to_json_map s ?got = document_arrives arch s raw" by (simp add: document_arrives_def fun_eq_iff)
  with dec show ?thesis by blast
qed

lemma document_crosses:
  assumes "schema_wf s" "visits_all mo" "JSONToProto arch mo s doc = Ret body" "in_memory body"
  shows "\<exists>raw. Unmarshal doc = Some raw \<and>
    (if \<forall>k v. document_arrives arch s raw k = Some v \<longrightarrow> printable v
     then \<exists>doc' raw'. ProtoToJSON s body = Some (Ret doc') \<and> Unmarshal doc' = Some raw' \<and>
       map_of raw' = (\<lambda>k. map_option json_view (document_arrives arch s raw k))
     else ProtoToJSON s body = Some (Fail MarshalFailed))"
proof -
  obtain raw where raw: "Unmarshal doc = Some raw"
    using assms(3) by (auto simp: JSONToProto_def split: option.splits)
  obtain vals where vals: "DecodeProto s body = Some (Ret vals)" "to_json_map s vals = document_arrives arch s raw"
    using JSON_arrives [OF assms(1) raw assms(2-4)] by blast
  have "\<forall>k. to_json_map s vals k \<noteq> None \<longrightarrow> coerce_utf8 k = k"
    using Unmarshal_utf8 [OF raw]
    by (auto simp: vals(2) document_arrives_def list_all_iff split: option.splits dest!: map_of_SomeD)
  from printed_reads_back [OF assms(1) decoded_typed [OF assms(1,4) vals(1)] this]
  show ?thesis
    using raw by (auto simp: vals ProtoToJSON_eq [OF assms(1,4)] split: if_splits)
qed

text \<open>
  From JSON text to protobuf and back to JSON text: when a document was encoded, decoding the bytes
  gives a document that reads as the values that were sent, key by key, as their types transport them
  (bytes as canonical base64, integers as the number of their width, an empty array as an absent key);
  only a number too large for a float32 field, which the sender encodes as an infinity, has no text, and
  then the receiver reports an error.
\<close>

theorem JSON_end_to_end:
  assumes "NewSchema sname flds = Ret s" "visits_all mo"
    and "JSONToProto arch mo s doc = Ret body" "in_memory body"
  shows "\<exists>raw. Unmarshal doc = Some raw \<and>
    (if \<forall>k v. document_arrives arch s raw k = Some v \<longrightarrow> printable v
     then \<exists>doc' raw'. ProtoToJSON s body = Some (Ret doc') \<and> Unmarshal doc' = Some raw' \<and>
       map_of raw' = (\<lambda>k. map_option json_view (document_arrives arch s raw k))
     else ProtoToJSON s body = Some (Fail MarshalFailed))"
  by (rule document_crosses [OF NewSchema_wf [OF assms(1)] assms(2-4)])

lemma demo_json_body:
  "JSONToProto demo_arch demo_order json_schema demo_doc =
     Ret [0x3A, 0x02, 0x68, 0x69, 0x12, 0x02, 0x68, 0x69, 0x12, 0x02, 0x79, 0x6F]"
proof -
  have wf: "schema_wf json_schema" by (rule NewSchema_wf [OF json_schema])
  have b64: "DecodeString ''aGk='' = Some [0x68, 0x69]"
    using DecodeString_EncodeToString [of "[0x68, 0x69]"] by (simp add: b64_char_def b64_alphabet_def)
  have ok: "json_ok json_schema demo_raw" and m: "json_map json_schema demo_raw =
      [''k'' \<mapsto> VBytes [0x68, 0x69], ''s'' \<mapsto> VList [VString ''hi'', VString ''yo'']]"
    by (simp_all add: json_ok_def demo_raw_def json_entry_def json_schema_names json_schema_fields
        json_value_def json_scalar_def b64 json_map_def fun_eq_iff del: built_schema_simps)
  have varint_small: "varint v = [ucast v]" if "unat v < 128" for v
    using that by (simp add: varint_def base128.simps)
  have "EncodeProto demo_arch json_schema (json_map json_schema demo_raw) =
      Ret [0x3A, 0x02, 0x68, 0x69, 0x12, 0x02, 0x68, 0x69, 0x12, 0x02, 0x79, 0x6F]"
    unfolding m by (simp add: EncodeProto_def json_fields_def encodeField_def at_type
        appendElement_def appendTag_def varint_small len_prefixed_def string_bytes_def)
  then show ?thesis using JSONToProto_eq [OF wf demo_unmarshal demo_visits, of demo_arch] ok by simp
qed

lemma demo_arrives:
  "document_arrives demo_arch json_schema demo_raw =
     [''k'' \<mapsto> VString ''aGk='', ''s'' \<mapsto> VList [VString ''hi'', VString ''yo'']]"
proof -
  have b64: "EncodeToString [0x68, 0x69] = ''aGk=''"
    by (simp add: b64_char_def b64_alphabet_def)
  then have "DecodeString ''aGk='' = Some [0x68, 0x69]" by (metis DecodeString_EncodeToString)
  then show ?thesis
    by (simp add: fun_eq_iff document_arrives_def demo_raw_def json_schema_names json_schema_fields
        json_field_arrives_def json_arrives_def received_def b64 del: built_schema_simps EncodeToString.simps)
qed

theorem JSONToProto_map_order_witness:
  "JSONToProto demo_arch (demo_order\<lparr>first_range := rev, second_range := (\<lambda>kvs. kvs)\<rparr>) json_schema demo_doc =
     Ret [0x3A, 0x02, 0x68, 0x69, 0x12, 0x02, 0x68, 0x69, 0x12, 0x02, 0x79, 0x6F]"
proof -
  have "visits_all (demo_order\<lparr>first_range := rev, second_range := (\<lambda>kvs. kvs)\<rparr>)"
    by (simp add: visits_all_def)
  from JSONToProto_map_order [OF json_schema demo_visits this] demo_json_body show ?thesis by blast
qed

theorem JSON_end_to_end_witness:
  "\<exists>doc' raw'. ProtoToJSON json_schema [0x3A, 0x02, 0x68, 0x69, 0x12, 0x02, 0x68, 0x69, 0x12, 0x02, 0x79, 0x6F] =
     Some (Ret doc') \<and> Unmarshal doc' = Some raw' \<and> map_of raw' ''s'' = Some (VList [VString ''hi'', VString ''yo''])"
proof -
  have "in_memory [0x3A, 0x02, 0x68, 0x69, 0x12, 0x02, 0x68, 0x69, 0x12, 0x02, 0x79, 0x6F :: u8]"
    by simp
  moreover have "\<forall>k v. document_arrives demo_arch json_schema demo_raw k = Some v \<longrightarrow> printable v"
    by (simp add: demo_arrives)
  ultimately show ?thesis
    using JSON_end_to_end [OF json_schema demo_visits demo_json_body] by (auto simp: demo_unmarshal demo_arrives coerce_utf8_ascii simp del: coerce_utf8.simps)
qed


end
