(* ===== verification/Json_Lossless.thy ===== *)
theory Json_Lossless
  imports Json_Proto_Props
begin

text \<open>
  Documents that cross the bus unchanged (\<open>bridges/mqtt-go/json_proto.go\<close>): those whose values are in
  the range in which the type of their field and float64 agree.
\<close>

section \<open>Exact values\<close>

definition exact_json :: "string \<Rightarrow> gval \<Rightarrow> bool" where
  "exact_json typ v =
     (case v of
        VBool _ \<Rightarrow> typ = ''bool''
      | VString s \<Rightarrow> typ = ''string'' \<or> typ = ''bytes'' \<and> (\<exists>b. s = EncodeToString b)
      | VFloat64 x \<Rightarrow>
          typ \<in> {''int32'', ''sint32''} \<and> (\<exists>i. x = int_to_f64 i \<and> - (2 ^ 31) \<le> i \<and> i < 2 ^ 31) \<or>
          typ = ''uint32'' \<and> (\<exists>i. x = int_to_f64 i \<and> 0 \<le> i \<and> i < 2 ^ 32) \<or>
          typ \<in> {''int64'', ''sint64''} \<and> (\<exists>i. x = int_to_f64 i \<and> \<bar>i\<bar> < 2 ^ 53) \<or>
          typ = ''uint64'' \<and> (\<exists>i. x = int_to_f64 i \<and> 0 \<le> i \<and> i < 2 ^ 53) \<or>
          typ = ''float'' \<and> (\<exists>y. x = f32_to_f64 y \<and> f32_mag y < inf32)
      | _ \<Rightarrow> False)"

definition exact_field :: "SchemaField \<Rightarrow> gval \<Rightarrow> bool" where
  "exact_field f v =
     (if Repeated f then (case v of VList xs \<Rightarrow> xs \<noteq> [] \<and> list_all (exact_json (Type f)) xs | _ \<Rightarrow> False)
      else exact_json (Type f) v)"

definition exact_document :: "SchemaField list \<Rightarrow> (string \<times> gval) list \<Rightarrow> bool" where
  "exact_document flds = list_all (\<lambda>(k, v). list_ex (\<lambda>f. Name f = k \<and> exact_field f v) flds)"

lemma f32_to_f64_finite:
  assumes "f32_mag y < inf32"
  shows "f64_mag (f32_to_f64 y) < inf64"
proof (rule ccontr)
  let ?d = "pack64 (unpack32 (f32_mag y))"
  assume "\<not> f64_mag (f32_to_f64 y) < inf64"
  moreover have y: "f32_to_f64 y = f64_of_mag (bit y 31) ?d" using assms by (simp add: f32_to_f64_def)
  moreover have "?d \<le> inf64" unfolding pack64_def by (intro pack_le_inf; simp add: inf64_def)
  ultimately have "?d = inf64" using inf_less(1) by simp
  then have "f64_to_f32 (f32_to_f64 y) = f32_of_mag (bit y 31) inf32"
    using inf_less(3) by (simp add: y f64_to_f32_def sign_of_mag)
  moreover have "\<not> f32_is_nan y" using assms by (simp add: f32_is_nan_def)
  ultimately have "y = f32_of_mag (bit y 31) inf32" by (simp add: f64_to_f32_to_f64)
  then have "f32_mag y = inf32" using inf_less(4) by (metis mag_of_mag(2))
  with assms show False by simp
qed

text \<open>What a whole number becomes.\<close>

lemma i64_of_whole: "\<bar>i\<bar> < 2 ^ 53 \<Longrightarrow> i64_of arch (VFloat64 (int_to_f64 i)) = of_int i \<and>
    returns (toInt64 arch (VFloat64 (int_to_f64 i)))"
  using whole_floats_exact [of i arch] by (simp add: i64_of_def returns_def)

lemma u64_of_whole: "0 \<le> i \<Longrightarrow> i < 2 ^ 53 \<Longrightarrow> u64_of arch (VFloat64 (int_to_f64 i)) = of_int i \<and>
    returns (toUint64 arch (VFloat64 (int_to_f64 i)))"
  using whole_floats_exact [of i arch] by (simp add: u64_of_def returns_def)

lemma sint_small_int: "\<bar>i\<bar> < 2 ^ 53 \<Longrightarrow> sint (of_int i :: u64) = i"
  by (subst signed_of_int) (simp add: signed_take_bit_int_eq_self)

lemma uint_small_int: "0 \<le> i \<Longrightarrow> i < 2 ^ 53 \<Longrightarrow> uint (of_int i :: u64) = i"
  by (subst unsigned_of_int) (simp add: take_bit_int_eq_self)

lemma exact_scalar:
  assumes "exact_json typ v" "utf8_value v"
  shows "\<exists>c. json_scalar typ v = Some c \<and> encodable arch typ c \<and>
    json_view (json_arrives arch typ v) = v \<and> printable (json_arrives arch typ v)"
proof (cases v)
  case (VString s)
  then show ?thesis
    using assms by (auto simp: exact_json_def json_scalar_def at_type json_arrives_def)
next
  case (VFloat64 x)
  consider (i32) i where "typ \<in> {''int32'', ''sint32''}" "x = int_to_f64 i" "- (2 ^ 31) \<le> i" "i < 2 ^ 31"
    | (u32) i where "typ = ''uint32''" "x = int_to_f64 i" "0 \<le> i" "i < 2 ^ 32"
    | (i64) i where "typ \<in> {''int64'', ''sint64''}" "x = int_to_f64 i" "\<bar>i\<bar> < 2 ^ 53"
    | (u64) i where "typ = ''uint64''" "x = int_to_f64 i" "0 \<le> i" "i < 2 ^ 53"
    | (float) y where "typ = ''float''" "x = f32_to_f64 y" "f32_mag y < inf32"
    using assms(1) VFloat64 by (auto simp: exact_json_def)
  then show ?thesis
  proof cases
    case i32
    then have i: "\<bar>i\<bar> < 2 ^ 53" by simp
    have "scast (ucast (of_int i :: u64) :: u32) = (of_int i :: u64)"
      using i32(3,4) by (intro sext_32) (simp_all add: sint_small_int [OF i])
    then show ?thesis
      using i32(1) i64_of_whole [OF i, of arch] sint_small_int [OF i]
      by (auto simp: VFloat64 i32(2) json_scalar_def at_type json_arrives_def)
  next
    case u32
    then have i: "i < 2 ^ 53" by simp
    have "ucast (ucast (of_int i :: u64) :: u32) = (of_int i :: u64)"
      using u32(4) by (intro zext_32) (simp add: uint_small_int [OF u32(3) i])
    then show ?thesis
      using u64_of_whole [OF u32(3) i, of arch] uint_small_int [OF u32(3) i]
      by (simp add: VFloat64 u32(1,2) json_scalar_def at_type json_arrives_def)
  next
    case i64
    then show ?thesis
      using i64_of_whole [OF i64(3), of arch] sint_small_int [OF i64(3)]
      by (auto simp: VFloat64 i64(2) json_scalar_def at_type json_arrives_def)
  next
    case u64
    then show ?thesis
      using u64_of_whole [OF u64(3,4), of arch] uint_small_int [OF u64(3,4)]
      by (simp add: VFloat64 u64(1,2) json_scalar_def at_type json_arrives_def)
  next
    case float
    then have "\<not> f32_is_nan y" by (simp add: f32_is_nan_def)
    then show ?thesis
      using f32_to_f64_finite [OF float(3)]
      by (simp add: VFloat64 float(1,2) json_scalar_def at_type json_arrives_def returns_def toFloat64_def
          f64_of_def f64_to_f32_to_f64)
  qed
qed (use assms in \<open>auto simp: exact_json_def json_scalar_def at_type json_arrives_def\<close>)

section \<open>Exact documents\<close>

lemma exact_value:
  assumes "exact_field f v" "utf8_value v"
  shows "\<exists>c w. json_value f v = Some c \<and> json_field_arrives arch f v = Some w \<and>
    (vals (Name f) = Some c \<longrightarrow> field_encodable arch vals f) \<and> json_view w = v \<and> printable w"
proof (cases "Repeated f")
  case False
  then show ?thesis
    using exact_scalar [of "Type f" v arch] assms
    by (auto simp: exact_field_def json_value_def json_field_arrives_def field_encodable_def)
next
  case True
  obtain xs where v: "v = VList xs" "xs \<noteq> []" "\<forall>x\<in>set xs. exact_json (Type f) x \<and> utf8_value x"
    using assms True by (auto simp: exact_field_def list_all_iff split: gval.splits)
  obtain c where c: "\<forall>x\<in>set xs. json_scalar (Type f) x = Some (c x) \<and> encodable arch (Type f) (c x) \<and>
      json_view (json_arrives arch (Type f) x) = x \<and> printable (json_arrives arch (Type f) x)"
    using v(3) exact_scalar [of "Type f" _ arch] by metis
  have "those (map (json_scalar (Type f)) xs) = Some (map c xs)" using c by (simp add: those_Some)
  moreover have "json_field_arrives arch f v = Some (VList (map (json_arrives arch (Type f)) xs))"
    using True v(1,2) by (cases xs) (simp_all add: json_field_arrives_def)
  moreover have "map json_view (map (json_arrives arch (Type f)) xs) = xs" using c by (simp add: map_idI)
  ultimately show ?thesis
    using True c by (auto simp: v(1) json_value_def field_encodable_def list_all_iff)
qed

lemma exact_entry:
  assumes "schema_wf s" "Unmarshal doc = Some raw" "exact_document (Fields s) raw" "map_of raw k = Some v"
  obtains f i where "f \<in> set (Fields s)" "Name f = k" "byName s k = Some i" "Fields s ! i = f"
    "exact_field f v" "utf8_value v"
proof -
  have kv: "(k, v) \<in> set raw" by (rule map_of_SomeD [OF assms(4)])
  then obtain f where f: "f \<in> set (Fields s)" "Name f = k" "exact_field f v"
    using assms(3) by (auto simp: exact_document_def list_all_iff list_ex_iff)
  moreover obtain i where "i < length (Fields s)" "Fields s ! i = f"
    using f(1) by (auto simp: in_set_conv_nth)
  moreover have "utf8_value v" using kv Unmarshal_utf8 [OF assms(2)] by (auto simp: list_all_iff)
  ultimately show ?thesis using that f(2) byName_iff [OF assms(1)] by blast
qed

lemma exact_document_encodes:
  assumes "schema_wf s" "visits_all mo" "Unmarshal doc = Some raw" "exact_document (Fields s) raw"
  shows "\<exists>body. JSONToProto arch mo s doc = Ret body"
proof -
  note entry = exact_entry [OF assms(1,3,4)]
  have "json_entry s k v \<noteq> None" if "(k, v) \<in> set raw" for k v
  proof -
    have "map_of raw k = Some v" using that Unmarshal_distinct [OF assms(3)] by simp
    then obtain f i where "byName s k = Some i" "Fields s ! i = f" "exact_field f v" "utf8_value v"
      using entry by metis
    then show ?thesis using exact_value [of f v arch Map.empty] by (auto simp: json_entry_def)
  qed
  then have ok: "json_ok s raw" by (auto simp: json_ok_def list_all_iff)
  have "field_encodable arch (json_map s raw) f" if f: "f \<in> set (Fields s)" for f
  proof (cases "map_of raw (Name f)")
    case None
    then show ?thesis by (simp add: field_encodable_def json_map_def)
  next
    case (Some v)
    then obtain g i where g: "byName s (Name f) = Some i" "Fields s ! i = g" "exact_field g v" "utf8_value v"
        "g \<in> set (Fields s)" "Name g = Name f"
      using entry by metis
    have "g = f" using f g(5,6) assms(1) by (auto simp: schema_wf_def fields_ok_def distinct_map inj_on_def)
    with g exact_value [of f v arch "json_map s raw"] Some show ?thesis
      by (auto simp: json_map_def json_entry_def)
  qed
  then obtain body where "EncodeProto arch s (json_map s raw) = Ret body"
    using EncodeProto_eq [OF assms(1), of arch "json_map s raw"] by auto
  then show ?thesis using JSONToProto_eq [OF assms(1,3,2), of arch] ok by simp
qed

lemma exact_document_arrives:
  assumes "schema_wf s" "Unmarshal doc = Some raw" "exact_document (Fields s) raw"
  shows "(\<lambda>k. map_option json_view (document_arrives arch s raw k)) = map_of raw \<and>
    (\<forall>k v. document_arrives arch s raw k = Some v \<longrightarrow> printable v)"
proof -
  have "map_option json_view (document_arrives arch s raw k) = map_of raw k \<and>
      (\<forall>v. document_arrives arch s raw k = Some v \<longrightarrow> printable v)" for k
  proof (cases "map_of raw k")
    case None
    then show ?thesis by (simp add: document_arrives_def)
  next
    case (Some v)
    then obtain f i where "byName s k = Some i" "Fields s ! i = f" "exact_field f v" "utf8_value v"
      using exact_entry [OF assms] by metis
    then show ?thesis using exact_value [of f v arch Map.empty] Some by (auto simp: document_arrives_def)
  qed
  then show ?thesis by (auto simp: fun_eq_iff)
qed

text \<open>
  C15. Exact documents cross unchanged.  If every value of a JSON object is exact for its field (whole
  numbers in the range of a 32-bit type or below 2^53, numbers that are float32 values, canonical base64,
  non-empty arrays of such values), the document is encoded, and decoding the bytes gives a document
  that reads as the very same JSON object.
\<close>

theorem JSON_lossless:
  assumes "NewSchema sname flds = Ret s" "visits_all mo"
    and "Unmarshal doc = Some raw" "exact_document flds raw"
  shows "\<exists>body. JSONToProto arch mo s doc = Ret body \<and>
    (in_memory body \<longrightarrow> (\<exists>doc' raw'. ProtoToJSON s body = Some (Ret doc') \<and>
       Unmarshal doc' = Some raw' \<and> map_of raw' = map_of raw))"
proof -
  have wf: "schema_wf s" "Fields s = flds" using assms(1) by (simp_all add: NewSchema_Ret)
  note exact = assms(4) [folded wf(2)]
  obtain body where body: "JSONToProto arch mo s doc = Ret body"
    using exact_document_encodes [OF wf(1) assms(2,3) exact] by blast
  have "\<exists>doc' raw'. ProtoToJSON s body = Some (Ret doc') \<and> Unmarshal doc' = Some raw' \<and> map_of raw' = map_of raw"
    if "in_memory body"
    using document_crosses [OF wf(1) assms(2) body that] exact_document_arrives [OF wf(1) assms(3) exact, of arch]
    by (auto simp: assms(3))
  with body show ?thesis by blast
qed

theorem JSON_lossless_witness:
  "\<exists>body doc' raw'. JSONToProto demo_arch demo_order json_schema demo_doc = Ret body \<and>
     ProtoToJSON json_schema body = Some (Ret doc') \<and> Unmarshal doc' = Some raw' \<and>
     map_of raw' ''k'' = Some (VString ''aGk='')"
proof -
  have b64: "EncodeToString [0x68, 0x69] = ''aGk=''" by (simp add: b64_char_def b64_alphabet_def)
  then have "\<exists>b. ''aGk='' = EncodeToString b" by metis
  then have "exact_json ''bytes'' (VString ''aGk='')" by (simp add: exact_json_def del: EncodeToString.simps)
  moreover have "exact_json ''string'' (VString x)" for x by (simp add: exact_json_def)
  ultimately have "exact_document json_fields demo_raw"
    by (simp add: exact_document_def demo_raw_def json_fields_def exact_field_def)
  moreover have "in_memory [0x3A, 0x02, 0x68, 0x69, 0x12, 0x02, 0x68, 0x69, 0x12, 0x02, 0x79, 0x6F :: u8]"
    by simp
  ultimately show ?thesis
    using JSON_lossless [OF json_schema demo_visits demo_unmarshal, of demo_arch] demo_json_body
    by (auto simp: demo_raw_def)
qed

section \<open>Numbers too large for their field\<close>

lemma f32_to_f64_inf: "f32_mag y = inf32 \<Longrightarrow> f64_mag (f32_to_f64 y) = inf64"
  using inf_less(3) by (simp add: f32_to_f64_def)

text \<open>
  C38. A JSON number beyond the range of float32 is accepted and then lost.  For an object with one number
  that rounds to infinity in a float field, JSONToProto returns a body, not an error, and ProtoToJSON
  fails on that body, because JSON has no text for an infinity: the receiver drops the whole message.
\<close>

theorem float_overflow_lost:
  assumes "NewSchema sname flds = Ret s" "visits_all mo"
    and "f \<in> set flds" "Type f = ''float''" "\<not> Repeated f"
    and "Unmarshal doc = Some [(Name f, VFloat64 x)]" "f32_mag (f64_to_f32 x) = inf32"
  shows "\<exists>body. JSONToProto arch mo s doc = Ret body \<and>
    (in_memory body \<longrightarrow> ProtoToJSON s body = Some (Fail MarshalFailed))"
proof -
  have wf: "schema_wf s" "Fields s = flds" using assms(1) by (simp_all add: NewSchema_Ret)
  let ?raw = "[(Name f, VFloat64 x)]"
  obtain i where "i < length (Fields s)" "Fields s ! i = f"
    using assms(3) wf(2) by (auto simp: in_set_conv_nth)
  then have i: "byName s (Name f) = Some i" "Fields s ! i = f" by (simp_all add: byName_iff [OF wf(1)])
  then have entry: "json_entry s (Name f) (VFloat64 x) = Some (VFloat64 x)"
    using assms(4,5) by (simp add: json_entry_def json_value_def json_scalar_def)
  have "field_encodable arch (json_map s ?raw) g" if "g \<in> set (Fields s)" for g
  proof (cases "Name g = Name f")
    case True
    then have "g = f" using that assms(3) wf by (auto simp: schema_wf_def fields_ok_def distinct_map inj_on_def)
    then show ?thesis
      using assms(4,5) by (simp add: field_encodable_def json_map_def entry at_type returns_def toFloat64_def)
  qed (simp add: field_encodable_def json_map_def)
  then obtain body where enc: "EncodeProto arch s (json_map s ?raw) = Ret body"
    using EncodeProto_eq [OF wf(1), of arch "json_map s ?raw"] by auto
  then have body: "JSONToProto arch mo s doc = Ret body"
    using JSONToProto_eq [OF wf(1) assms(6,2), of arch] entry by (simp add: json_ok_def)
  have "document_arrives arch s ?raw (Name f) = Some (VFloat64 (f32_to_f64 (f64_to_f32 x)))"
    using assms(4,5) i by (simp add: document_arrives_def json_field_arrives_def json_arrives_def at_type f64_of_def toFloat64_def)
  moreover have "\<not> printable (VFloat64 (f32_to_f64 (f64_to_f32 x)))"
    by (simp add: f32_to_f64_inf [OF assms(7)])
  ultimately have "\<not> (\<forall>k v. document_arrives arch s ?raw k = Some v \<longrightarrow> printable v)" by blast
  with document_crosses [OF wf(1) assms(2) body] assms(6) have
    "in_memory body \<longrightarrow> ProtoToJSON s body = Some (Fail MarshalFailed)" by auto
  with body show ?thesis by blast
qed

definition float_fields :: "SchemaField list" where
  "float_fields = [\<lparr>Name = ''x'', Type = ''float'', Tag = 1, Repeated = False\<rparr>]"

lemma float_schema: "NewSchema ''f'' float_fields = Ret (built_schema ''f'' float_fields)"
  by (rule NewSchema_built) (simp_all add: float_fields_def fields_ok_def field_ok_iff validTypes_def)

lemmas eval_floats = pack.simps last_place_def bitlen.simps rescale_def round_half_even_def pack_bits_def
  unpack_def inf64_def inf32_def Let_def

lemma large_number: "Unmarshal (string_bytes ''{\"x\":1e39}'') = Some [(''x'', VFloat64 0x48078287F49C4A1D)]"
proof -
  have "decimal64 1 39 = 0x48078287F49C4A1D"
    by (simp add: decimal64_def decimal_pack_def eval_floats)
  then show ?thesis
    by (simp add: Unmarshal_def json_document_def maxNestingDepth_def parse_numeral is_space_def parse_scalar_def
        DecodeRune_ascii EncodeRune_def is_surrogate_def char_of_def bit_0 prepend_def entries_def
        scan_number_def scan_unsigned_def scan_int_def scan_frac_def scan_exp_def is_digit_def Let_def
        ParseFloat_def digits_nat_def digit_value_def exponent_nat_def inf64_def f64_of_mag_def)
qed

theorem float_overflow_lost_witness:
  "\<exists>body. JSONToProto demo_arch demo_order (built_schema ''f'' float_fields) (string_bytes ''{\"x\":1e39}'') = Ret body \<and>
    (in_memory body \<longrightarrow> ProtoToJSON (built_schema ''f'' float_fields) body = Some (Fail MarshalFailed))"
proof -
  have "f32_mag (f64_to_f32 0x48078287F49C4A1D) = inf32"
    by (simp add: f64_to_f32_def f64_mag_def pack32_def unpack64_def f32_mag_def f32_of_mag_def eval_floats)
  with large_number show ?thesis
    by (intro float_overflow_lost [OF float_schema demo_visits, where f = "hd float_fields"])
      (simp_all add: float_fields_def del: string_bytes_def)
qed

end
