(* ===== verification/Config.thy ===== *)
theory Config
  imports Wire Schema Go_Time
begin

text \<open>
  \<open>bridges/mqtt-go/config.go\<close>: the configuration, its defaults and its validation.  Reading the file
  and parsing YAML are outside the repository: \<open>LoadConfig\<close> takes them as arguments.  The theory
  \<open>Config_Props\<close> says what a loaded configuration guarantees to the rest of the bridge.
\<close>

section \<open>Data\<close>

record MQTTConfig =
  Broker :: string
  ClientID :: string
  Username :: string
  Password :: string
  QoS :: u8
  Retain :: bool

record EncryptionConfig =
  Key :: string

record MPubsubConfig =
  Port :: u16
  Scope :: string
  Hops :: int
  Interface :: string
  RetransmitCount :: int
  RetransmitDelayRaw :: string
  RetransmitDelay :: duration
  PromoteQoS :: bool
  Encryption :: EncryptionConfig
  EncryptionKey :: "bytes option"

text \<open>A direction is a string; two values are known.\<close>

definition DirMQTTToMPubsub :: string where "DirMQTTToMPubsub = ''mqtt_to_mpubsub''"
definition DirMPubsubToMQTT :: string where "DirMPubsubToMQTT = ''mpubsub_to_mqtt''"

lemmas dir_consts = DirMQTTToMPubsub_def DirMPubsubToMQTT_def

record BridgeEntry =
  Direction :: string
  MQTTTopic :: string
  MPubsubTopic :: string
  RequireEncryption :: bool
  SchemaRef :: string
  schemaPtr :: "Schema option"

record SchemaFieldConfig =
  cfTag :: u32
  cfType :: string
  cfName :: string
  cfRepeated :: bool

record SchemaConfig =
  cID :: string
  cFields :: "SchemaFieldConfig list"

record Config =
  MQTT :: MQTTConfig
  MPubsub :: MPubsubConfig
  Schemas :: "SchemaConfig list"
  Bridges :: "BridgeEntry list"
  JSONTranslation :: bool
  schemasByID :: "string \<rightharpoonup> Schema"

datatype config_error =
    ReadConfigFailed
  | ParseYamlFailed
  | BadRetransmitDelay string
  | NegativeRetransmitDelay duration
  | SchemasWithoutTranslation
  | BridgeSchemaWithoutTranslation nat string
  | InSchemaEntry nat schema_error
  | DuplicateSchemaID nat string
  | SchemaNotDefined nat string
  | BrokerRequired
  | BadScope wire_error
  | HopsOutOfRange int
  | RetransmitCountOutOfRange int
  | IndefiniteNeedsDelay duration
  | NoBridgeEntries
  | MQTTTopicRequired nat
  | MPubsubTopicRequired nat
  | WildcardTopic nat string
  | UnknownDirection nat string
  | RequireEncryptionDirection nat string
  | RequireEncryptionWithoutKey nat


section \<open>Defaults\<close>

definition to_field :: "SchemaFieldConfig \<Rightarrow> SchemaField" where
  "to_field f = \<lparr>Name = cfName f, Type = cfType f, Tag = cfTag f, Repeated = cfRepeated f\<rparr>"

text \<open>The loop body over \<open>c.Schemas\<close>.\<close>

definition addSchema :: "nat \<times> SchemaConfig \<Rightarrow> (string \<rightharpoonup> Schema)
    \<Rightarrow> (config_error, string \<rightharpoonup> Schema) outcome" where
  "addSchema = (\<lambda>(i, sc) m.
     go_bind (go_wrap (InSchemaEntry i) (NewSchema (cID sc) (map to_field (cFields sc)))) (\<lambda>s.
     if m (cID sc) \<noteq> None then Fail (DuplicateSchemaID i (cID sc))
     else Ret (m(cID sc \<mapsto> s))))"

text \<open>The loop body over \<open>c.Bridges\<close>, on the list of entries processed so far.\<close>

definition resolveEntry :: "(string \<rightharpoonup> Schema) \<Rightarrow> nat \<times> BridgeEntry \<Rightarrow> BridgeEntry list
    \<Rightarrow> (config_error, BridgeEntry list) outcome" where
  "resolveEntry m = (\<lambda>(i, b) done.
     if SchemaRef b = '''' then Ret (done @ [b])
     else (case m (SchemaRef b) of
         None \<Rightarrow> Fail (SchemaNotDefined i (SchemaRef b))
       | Some s \<Rightarrow> Ret (done @ [b\<lparr>schemaPtr := Some s\<rparr>])))"

definition rejectSchemaRef :: "nat \<times> BridgeEntry \<Rightarrow> unit \<Rightarrow> (config_error, unit) outcome" where
  "rejectSchemaRef = (\<lambda>(i, b) u.
     if SchemaRef b \<noteq> '''' then Fail (BridgeSchemaWithoutTranslation i (SchemaRef b)) else Ret u)"

text \<open>The assignments before the translation part, and the derived delay and key.\<close>

definition defaultScalars :: "Config \<Rightarrow> Config" where
  "defaultScalars c =
     (let mq = MQTT c; mp = MPubsub c;
          mq = (if ClientID mq = '''' then mq\<lparr>ClientID := ''mpubsub-bridge''\<rparr> else mq);
          mp = (if Port mp = 0 then mp\<lparr>Port := 18512\<rparr> else mp);
          mp = (if Scope mp = '''' then mp\<lparr>Scope := ''link-local''\<rparr> else mp);
          mp = (if Hops mp = 0 then mp\<lparr>Hops := 1\<rparr> else mp);
          mp = (if RetransmitCount mp = 0 then mp\<lparr>RetransmitCount := 1\<rparr> else mp)
      in c\<lparr>MQTT := mq, MPubsub := mp\<rparr>)"

definition resolveDelay :: "MPubsubConfig \<Rightarrow> (config_error, duration) outcome" where
  "resolveDelay mp =
     (if RetransmitDelayRaw mp = '''' then Ret (100 * Millisecond)
      else (case parse_duration (RetransmitDelayRaw mp) of
          None \<Rightarrow> Fail (BadRetransmitDelay (RetransmitDelayRaw mp))
        | Some d \<Rightarrow> if d < 0 then Fail (NegativeRetransmitDelay d) else Ret d))"

text \<open>The configuration with the scalar defaults, the delay and the derived key.\<close>

definition withDelayAndKey :: "Config \<Rightarrow> duration \<Rightarrow> Config" where
  "withDelayAndKey c d =
     (let c = defaultScalars c; mp = (MPubsub c)\<lparr>RetransmitDelay := d\<rparr>
      in c\<lparr>MPubsub := if Key (Encryption mp) \<noteq> ''''
             then mp\<lparr>EncryptionKey := Some (DeriveKey (Key (Encryption mp)))\<rparr> else mp\<rparr>)"

definition applyDefaults :: "Config \<Rightarrow> (config_error, Config) outcome" where
  "applyDefaults c =
     go_bind (resolveDelay (MPubsub (defaultScalars c))) (\<lambda>d.
     let c = withDelayAndKey c d in
     if \<not> JSONTranslation c then
       (if length (Schemas c) > 0 then Fail SchemasWithoutTranslation
        else go_bind (go_for rejectSchemaRef (enumerate 0 (Bridges c)) ()) (\<lambda>_. Ret c))
     else
       go_bind (go_for addSchema (enumerate 0 (Schemas c)) Map.empty) (\<lambda>m.
       go_bind (go_for (resolveEntry m) (enumerate 0 (Bridges c)) []) (\<lambda>bs.
       Ret (c\<lparr>schemasByID := m, Bridges := bs\<rparr>))))"


section \<open>Validation\<close>

definition validateEntry :: "Config \<Rightarrow> nat \<times> BridgeEntry \<Rightarrow> unit \<Rightarrow> (config_error, unit) outcome" where
  "validateEntry c = (\<lambda>(i, b) u.
     if MQTTTopic b = '''' then Fail (MQTTTopicRequired i)
     else
     go_bind
       (if Direction b = DirMQTTToMPubsub then Ret u
        else if Direction b = DirMPubsubToMQTT then
          (if MPubsubTopic b = '''' then Fail (MPubsubTopicRequired i)
           else if \<exists>c\<in>set (MPubsubTopic b). c \<in> set ''+#'' then Fail (WildcardTopic i (MPubsubTopic b))
           else Ret u)
        else Fail (UnknownDirection i (Direction b)))
       (\<lambda>u.
        if RequireEncryption b then
          (if Direction b \<noteq> DirMPubsubToMQTT then Fail (RequireEncryptionDirection i (Direction b))
           else if (case EncryptionKey (MPubsub c) of None \<Rightarrow> 0 | Some k \<Rightarrow> length k) = 0
           then Fail (RequireEncryptionWithoutKey i)
           else Ret u)
        else Ret u))"

definition validate :: "Config \<Rightarrow> (config_error, unit) outcome" where
  "validate c =
     (if Broker (MQTT c) = '''' then Fail BrokerRequired
      else
      go_bind (go_wrap BadScope (ParseScope (Scope (MPubsub c)))) (\<lambda>_.
      if Hops (MPubsub c) < 1 \<or> Hops (MPubsub c) > 255 then Fail (HopsOutOfRange (Hops (MPubsub c)))
      else if RetransmitCount (MPubsub c) \<noteq> -1 \<and>
          (RetransmitCount (MPubsub c) < 1 \<or> RetransmitCount (MPubsub c) > 255)
      then Fail (RetransmitCountOutOfRange (RetransmitCount (MPubsub c)))
      else if RetransmitCount (MPubsub c) = -1 \<and> RetransmitDelay (MPubsub c) < Second
      then Fail (IndefiniteNeedsDelay (RetransmitDelay (MPubsub c)))
      else if length (Bridges c) = 0 then Fail NoBridgeEntries
      else go_for (validateEntry c) (enumerate 0 (Bridges c)) ()))"

text \<open>\<open>os.ReadFile\<close> and \<open>yaml.Unmarshal\<close> are arguments; \<open>None\<close> is their error.\<close>

definition LoadConfig ::
  "(string \<Rightarrow> bytes option) \<Rightarrow> (bytes \<Rightarrow> Config option) \<Rightarrow> string \<Rightarrow> (config_error, Config) outcome" where
  "LoadConfig readFile unmarshal path =
     (case readFile path of
        None \<Rightarrow> Fail ReadConfigFailed
      | Some data \<Rightarrow>
          (case unmarshal data of
             None \<Rightarrow> Fail ParseYamlFailed
           | Some c \<Rightarrow>
               go_bind (applyDefaults c) (\<lambda>c.
               go_bind (validate c) (\<lambda>_. Ret c))))"


section \<open>The loop bodies on an index and an entry\<close>

lemma addSchema_entry:
  "addSchema (i, sc) m =
     go_bind (go_wrap (InSchemaEntry i) (NewSchema (cID sc) (map to_field (cFields sc)))) (\<lambda>s.
     if m (cID sc) \<noteq> None then Fail (DuplicateSchemaID i (cID sc)) else Ret (m(cID sc \<mapsto> s)))"
  by (simp add: addSchema_def)

lemma resolveEntry_entry:
  "resolveEntry m (i, b) done =
     (if SchemaRef b = '''' then Ret (done @ [b])
      else (case m (SchemaRef b) of
          None \<Rightarrow> Fail (SchemaNotDefined i (SchemaRef b))
        | Some s \<Rightarrow> Ret (done @ [b\<lparr>schemaPtr := Some s\<rparr>])))"
  by (simp add: resolveEntry_def)

lemma rejectSchemaRef_entry:
  "rejectSchemaRef (i, b) u =
     (if SchemaRef b \<noteq> '''' then Fail (BridgeSchemaWithoutTranslation i (SchemaRef b)) else Ret u)"
  by (simp add: rejectSchemaRef_def)

lemmas loop_bodies = addSchema_entry resolveEntry_entry rejectSchemaRef_entry

end
