(* ===== verification/Mcast.thy ===== *)
theory Mcast
  imports Wire Config
begin

text \<open>
  \<open>bridges/mqtt-go/mcast.go\<close>: the multicast socket.  \<open>joined\<close> is keyed by the text of a group address
  (\<open>net.IP.String\<close>, modelled first); the text determines the address, so a group is joined once.  The
  operating system appears as arguments that say whether a call succeeds, and as the record of what
  it was asked to do: the socket's options, its memberships and the datagrams it sent.
\<close>

section \<open>net.IP.String\<close>

definition hex_digit :: "nat \<Rightarrow> char" where
  "hex_digit d = ''0123456789abcdef'' ! (d mod 16)"

fun hexadecimal :: "nat \<Rightarrow> string" where
  "hexadecimal n = (if n < 16 then [hex_digit n] else hexadecimal (n div 16) @ [hex_digit n])"

declare hexadecimal.simps [simp del]

text \<open>The eight 16-bit groups of an address, in network order.\<close>

fun groups16 :: "bytes \<Rightarrow> nat list" where
  "groups16 (hi # lo # bs) = (unat hi * 256 + unat lo) # groups16 bs"
| "groups16 _ = []"

text \<open>The first longest run of at least two zero groups; \<open>(255, 255)\<close> when there is none.\<close>

definition run_end :: "nat list \<Rightarrow> nat \<Rightarrow> nat" where
  "run_end ws i = i + length (takeWhile (\<lambda>w. w = 0) (drop i ws))"

definition longer_run :: "nat list \<Rightarrow> nat \<Rightarrow> nat \<times> nat \<Rightarrow> nat \<times> nat" where
  "longer_run ws i best =
     (let j = run_end ws i
      in if j - i \<ge> 2 \<and> j - i > snd best - fst best then (i, j) else best)"

definition zero_run :: "nat list \<Rightarrow> nat \<times> nat" where
  "zero_run ws = fold (longer_run ws) [0..<8] (255, 255)"

definition string6 :: "nat list \<Rightarrow> string" where
  "string6 ws =
     (case zero_run ws of (zs, ze) \<Rightarrow>
        if zs = 255 then join '':'' (map hexadecimal ws)
        else join '':'' (map hexadecimal (take zs ws)) @ ''::'' @ join '':'' (map hexadecimal (drop ze ws)))"

definition To4 :: "bytes \<Rightarrow> bytes option" where
  "To4 ip =
     (if length ip = 4 then Some ip
      else if length ip = 16 \<and> take 12 ip = replicate 10 0 @ [0xFF, 0xFF] then Some (drop 12 ip)
      else None)"

definition IP_String :: "bytes \<Rightarrow> string" where
  "IP_String ip =
     (if length ip = 0 then ''<nil>''
      else if length ip \<noteq> 4 \<and> length ip \<noteq> 16
      then ''?'' @ concat (map (\<lambda>b. [hex_digit (unat b div 16), hex_digit (unat b)]) ip)
      else (case To4 ip of
          Some p4 \<Rightarrow> join ''.'' (map (\<lambda>b. decimal (unat b)) p4)
        | None \<Rightarrow> string6 (groups16 ip)))"


section \<open>The text determines the group\<close>

lemma hex_digit_inject: "hex_digit m = hex_digit n \<longleftrightarrow> m mod 16 = n mod 16"
proof -
  have "distinct ''0123456789abcdef''" by simp
  from nth_eq_iff_index_eq [OF this, of "m mod 16" "n mod 16"] show ?thesis
    by (simp add: hex_digit_def)
qed

lemma hexadecimal_nonempty [simp]: "hexadecimal n \<noteq> ''''" "'''' \<noteq> hexadecimal n"
  by (subst hexadecimal.simps, simp)+

lemma hexadecimal_inject: "hexadecimal m = hexadecimal n \<Longrightarrow> m = n"
proof (induction m arbitrary: n rule: hexadecimal.induct)
  case (1 m)
  have d: "hex_digit m = hex_digit n" "\<not> m < 16 \<Longrightarrow> \<not> n < 16"  "m < 16 \<Longrightarrow> n < 16"
    using 1(2) by (auto simp: hexadecimal.simps [of m] hexadecimal.simps [of n] split: if_splits)
  show ?case
  proof (cases "m < 16")
    case True
    with d show ?thesis by (simp add: hex_digit_inject)
  next
    case False
    then have "hexadecimal (m div 16) = hexadecimal (n div 16)"
      using 1(2) d(2) by (simp add: hexadecimal.simps [of m] hexadecimal.simps [of n])
    from 1(1) [OF False this] d(1) show ?thesis
      unfolding hex_digit_inject by (metis div_mult_mod_eq)
  qed
qed

lemma hex_digit_plain: "hex_digit n \<noteq> CHR '':''"
proof -
  have "n mod 16 < length ''0123456789abcdef''" by simp
  then have "hex_digit n \<in> set ''0123456789abcdef''" unfolding hex_digit_def by (rule nth_mem)
  then show ?thesis by auto
qed

lemma hexadecimal_plain: "CHR '':'' \<notin> set (hexadecimal n)"
  by (induction n rule: hexadecimal.induct) (subst hexadecimal.simps, auto simp: hex_digit_plain [symmetric])

text \<open>Splitting at colons.\<close>

fun colon_split :: "string \<Rightarrow> string list" where
  "colon_split [] = ['''']"
| "colon_split (c # cs) =
     (if c = CHR '':'' then '''' # colon_split cs
      else (case colon_split cs of [] \<Rightarrow> [[c]] | t # ts \<Rightarrow> (c # t) # ts))"

lemma colon_split_colon: "CHR '':'' \<notin> set s \<Longrightarrow> colon_split (s @ CHR '':'' # r) = s # colon_split r"
  by (induction s) auto

lemma colon_split_plain: "CHR '':'' \<notin> set s \<Longrightarrow> colon_split s = [s]"
  by (induction s) auto

abbreviation or_empty :: "string list \<Rightarrow> string list" where
  "or_empty xs \<equiv> (if xs = [] then [''''] else xs)"

lemma colon_split_join:
  "\<forall>x\<in>set xs. CHR '':'' \<notin> set x \<Longrightarrow> colon_split (join '':'' xs) = or_empty xs"
proof (induction xs)
  case (Cons x xs)
  then show ?case by (cases xs) (simp_all add: colon_split_plain colon_split_colon)
qed simp

lemma colon_split_join_colon:
  "\<forall>x\<in>set xs. CHR '':'' \<notin> set x \<Longrightarrow>
   colon_split (join '':'' xs @ CHR '':'' # r) = or_empty xs @ colon_split r"
proof (induction xs)
  case (Cons x xs)
  then show ?case by (cases xs) (simp_all add: colon_split_colon)
qed simp

lemma colon_split_run:
  assumes "\<forall>x\<in>set xs \<union> set ys. CHR '':'' \<notin> set x"
  shows "colon_split (join '':'' xs @ ''::'' @ join '':'' ys) = or_empty xs @ [''''] @ or_empty ys"
  using assms colon_split_join_colon [of xs "CHR '':'' # join '':'' ys"] colon_split_join [of ys] by simp

text \<open>Reading the groups back: what precedes the first and follows the last empty part.\<close>

lemma around_run:
  assumes "'''' \<notin> set xs" "'''' \<notin> set ys"
    and "or_empty xs @ [''''] @ or_empty ys = or_empty xs' @ [''''] @ or_empty ys'"
    and "'''' \<notin> set xs'" "'''' \<notin> set ys'"
  shows "xs = xs' \<and> ys = ys'"
proof -
  have front: "takeWhile (\<lambda>t. t \<noteq> '''') (or_empty xs @ [''''] @ or_empty ys) = xs"
    if "'''' \<notin> set xs" for xs ys :: "string list"
    using that by (auto simp: takeWhile_append intro: takeWhile_eq_all_conv [THEN iffD2])
  have rear: "takeWhile (\<lambda>t. t \<noteq> '''') (rev (or_empty xs @ [''''] @ or_empty ys)) = rev ys"
    if "'''' \<notin> set ys" for xs ys :: "string list"
    using that by (auto simp: takeWhile_append intro: takeWhile_eq_all_conv [THEN iffD2])
  have "xs = xs'" using front [OF assms(1), of ys] front [OF assms(4), of ys'] unfolding assms(3) by simp
  moreover have "rev ys = rev ys'"
    using rear [OF assms(2), of xs] rear [OF assms(5), of xs'] unfolding assms(3) by simp
  ultimately show ?thesis by simp
qed

text \<open>The recorded run consists of zeros.\<close>

definition run_ok :: "nat list \<Rightarrow> nat \<times> nat \<Rightarrow> bool" where
  "run_ok ws r \<longleftrightarrow> r = (255, 255) \<or>
     fst r \<le> snd r \<and> snd r \<le> length ws \<and>
     ws = take (fst r) ws @ replicate (snd r - fst r) 0 @ drop (snd r) ws"

lemma run_end_zeros:
  assumes "i \<le> length ws"
  shows "run_end ws i \<le> length ws \<and> i \<le> run_end ws i \<and>
    ws = take i ws @ replicate (run_end ws i - i) 0 @ drop (run_end ws i) ws"
proof -
  let ?z = "takeWhile (\<lambda>w. w = 0) (drop i ws)"
  have "drop i ws = ?z @ drop (length ?z) (drop i ws)"
    by (metis append_take_drop_id takeWhile_eq_take)
  moreover have "?z = replicate (length ?z) 0"
    by (rule replicate_eqI) (auto dest: set_takeWhileD)
  ultimately have "drop i ws = replicate (length ?z) 0 @ drop (i + length ?z) ws"
    by (metis add.commute drop_drop)
  then have "ws = take i ws @ replicate (length ?z) 0 @ drop (i + length ?z) ws"
    by (metis append_take_drop_id)
  moreover have "length ?z \<le> length ws - i" using length_takeWhile_le [of _ "drop i ws"] by simp
  ultimately show ?thesis using assms by (simp add: run_end_def)
qed

lemma zero_run_ok:
  assumes "length ws = 8"
  shows "run_ok ws (zero_run ws)"
proof -
  have "\<forall>i\<in>set is. i \<le> length ws \<Longrightarrow> run_ok ws r \<Longrightarrow> run_ok ws (fold (longer_run ws) is r)" for "is" r
  proof (induction "is" arbitrary: r)
    case (Cons i "is")
    have "run_ok ws (longer_run ws i r)"
      using Cons.prems run_end_zeros [of i ws] by (auto simp: longer_run_def Let_def run_ok_def)
    with Cons show ?case by simp
  qed simp
  then show ?thesis using assms by (simp add: zero_run_def run_ok_def)
qed

lemma hexadecimals_plain: "\<forall>x\<in>set (map hexadecimal ws). CHR '':'' \<notin> set x" "'''' \<notin> set (map hexadecimal ws)"
  by (auto simp: hexadecimal_plain)

lemma map_hexadecimal_inject: "map hexadecimal xs = map hexadecimal ys \<Longrightarrow> xs = ys"
  by (rule map_injective) (auto intro: injI hexadecimal_inject)

text \<open>The parts of the text between colons.\<close>

lemma colon_split_string6:
  "colon_split (string6 ws) =
     (if fst (zero_run ws) = 255 then or_empty (map hexadecimal ws)
      else or_empty (map hexadecimal (take (fst (zero_run ws)) ws)) @ [''''] @
           or_empty (map hexadecimal (drop (snd (zero_run ws)) ws)))"
proof (cases "fst (zero_run ws) = 255")
  case True
  then show ?thesis using colon_split_join [OF hexadecimals_plain(1), of ws]
    unfolding string6_def by (simp only: if_True prod.case_eq_if simp_thms)
next
  case False
  have "\<forall>x\<in>set (map hexadecimal xs) \<union> set (map hexadecimal ys). CHR '':'' \<notin> set x" for xs ys
    using hexadecimals_plain(1) by blast
  from colon_split_run [OF this, of "take (fst (zero_run ws)) ws" "drop (snd (zero_run ws)) ws"] False
  show ?thesis unfolding string6_def by (simp only: if_False prod.case_eq_if)
qed

lemma string6_inject:
  assumes len: "length v = 8" "length w = 8" and eq: "string6 v = string6 w"
  shows "v = w"
proof -
  have ok: "run_ok v (zero_run v)" "run_ok w (zero_run w)" using zero_run_ok len by simp_all
  have parts: "colon_split (string6 v) = colon_split (string6 w)" using eq by simp
  have plain: "'''' \<notin> set (or_empty (map hexadecimal u))" if "length u = 8" for u
    using that by (auto simp: hexadecimals_plain(2) [simplified])
  show ?thesis
  proof (cases "fst (zero_run v) = 255 \<or> fst (zero_run w) = 255")
    case True
    have "v \<noteq> []" "w \<noteq> []" using len by auto
    moreover have "'''' \<in> set (or_empty xs @ [''''] @ or_empty ys)" for xs ys :: "string list" by simp
    ultimately show ?thesis
      using True parts plain [OF len(1)] plain [OF len(2)] map_hexadecimal_inject [of v w]
      unfolding colon_split_string6 by (smt (verit) map_is_Nil_conv)
  next
    case False
    then have front: "take (fst (zero_run v)) v = take (fst (zero_run w)) w"
      and rear: "drop (snd (zero_run v)) v = drop (snd (zero_run w)) w"
      using parts around_run [OF hexadecimals_plain(2) hexadecimals_plain(2) _ hexadecimals_plain(2)
          hexadecimals_plain(2)] map_hexadecimal_inject
      unfolding colon_split_string6 by metis+
    have "fst (zero_run u) = length (take (fst (zero_run u)) u)"
      "snd (zero_run u) = 8 - length (drop (snd (zero_run u)) u)"
      "u = take (fst (zero_run u)) u @ replicate (snd (zero_run u) - fst (zero_run u)) 0
            @ drop (snd (zero_run u)) u"
      if "fst (zero_run u) \<noteq> 255" "length u = 8" for u
      using that zero_run_ok [OF that(2)] by (auto simp: run_ok_def)
    with False len front rear show ?thesis by metis
  qed
qed

lemma length_groups16: "length (groups16 bs) = length bs div 2"
  by (induction bs rule: groups16.induct) auto

lemma groups16_inject:
  "length a = length b \<Longrightarrow> even (length a) \<Longrightarrow> groups16 a = groups16 b \<Longrightarrow> a = b"
proof (induction a arbitrary: b rule: groups16.induct)
  case (1 hi lo bs)
  have "length b = Suc (Suc (length bs))" using 1(2) by simp
  then obtain hi' lo' bs' where b: "b = hi' # lo' # bs'" by (auto simp: length_Suc_conv)
  have eq: "unat hi * 256 + unat lo = unat hi' * 256 + unat lo'" using 1(4) b by simp
  have "unat x = (unat x * 256 + unat y) div 256" "unat y = (unat x * 256 + unat y) mod 256" for x y :: u8
    using unsigned_less [of y, where ?'a = nat] by simp_all
  then have "unat hi = unat hi'" "unat lo = unat lo'" using eq by metis+
  then show ?case using 1 b by (simp add: word_unat_eq_iff)
qed (auto elim!: evenE)

text \<open>A multicast group of IPv6 is a 16-byte address that starts with \<open>0xFF\<close>.\<close>

definition multicast_group :: "bytes \<Rightarrow> bool" where
  "multicast_group g \<longleftrightarrow> length g = 16 \<and> g ! 0 = 0xFF"

lemma IP_String_group: "multicast_group g \<Longrightarrow> IP_String g = string6 (groups16 g)"
proof -
  assume g: "multicast_group g"
  then have "take 12 g ! 0 = 0xFF" by (simp add: multicast_group_def)
  moreover have "(replicate 10 0 @ [0xFF, 0xFF]) ! 0 = (0 :: u8)" by (simp add: nth_append)
  moreover have "(0xFF :: u8) \<noteq> 0" by simp
  ultimately have "take 12 g \<noteq> replicate 10 0 @ [0xFF, 0xFF]" by metis
  then show ?thesis using g by (simp add: IP_String_def To4_def multicast_group_def)
qed

lemma IP_String_inject:
  "multicast_group a \<Longrightarrow> multicast_group b \<Longrightarrow> IP_String a = IP_String b \<Longrightarrow> a = b"
  using string6_inject [of "groups16 a" "groups16 b"] groups16_inject [of a b]
  by (simp add: IP_String_group length_groups16 multicast_group_def)

lemma TopicToGroup_multicast: "multicast_group (TopicToGroup topic scope)"
  by (simp add: multicast_group_def TopicToGroup_def nth_append)

section \<open>Code\<close>

text \<open>
  The kernel side of the socket: the options set on it, the groups it is a member of in the order
  they were joined, the datagrams written to it, and whether it is closed.
\<close>

record udp_conn =
  hopLimit :: int
  egress :: "string option"
  loopback :: bool
  members :: "bytes list"
  sent :: "(bytes \<times> int \<times> bytes) list"
  closed :: bool

record MulticastSocket =
  conn :: udp_conn
  iface :: "string option"
  port :: int
  joined :: "string \<rightharpoonup> bytes"

datatype mcast_error =
    NoSuchInterface string
  | ListenFailed u16
  | HopLimitFailed
  | SetInterfaceFailed
  | LoopbackFailed
  | JoinFailed string
  | SendFailed

text \<open>
  What the operating system answers.  \<open>joinGroup\<close> and \<open>writeTo\<close> may depend on the socket's state,
  for instance refuse a second membership in a group or a write to a closed socket.
\<close>

record os_calls =
  interfaceByName :: "string \<Rightarrow> bool"
  rawControl :: bool
  setReusePort :: bool
  listenPacket :: "u16 \<Rightarrow> bool"
  setHopLimit :: "int \<Rightarrow> bool"
  setInterface :: "string \<Rightarrow> bool"
  setLoopback :: bool
  joinGroup :: "udp_conn \<Rightarrow> string option \<Rightarrow> bytes \<Rightarrow> bool"
  writeTo :: "udp_conn \<Rightarrow> bytes \<Rightarrow> int \<Rightarrow> bytes \<Rightarrow> bool"

text \<open>
  The \<open>Control\<close> hook: the socket option is set only if the raw control call runs, and either error
  fails the listen call.
\<close>

definition controlHook :: "os_calls \<Rightarrow> bool" where
  "controlHook os =
     (let cerr = rawControl os \<and> \<not> setReusePort os; ctrlErr = \<not> rawControl os
      in if cerr then False else \<not> ctrlErr)"

text \<open>The number of open sockets is the state the function must not leak on an error.\<close>

definition OpenMulticastSocket ::
  "os_calls \<Rightarrow> MPubsubConfig \<Rightarrow> nat \<Rightarrow> (mcast_error, MulticastSocket) outcome \<times> nat" where
  "OpenMulticastSocket os cfg open_conns =
     (if Interface cfg \<noteq> '''' \<and> \<not> interfaceByName os (Interface cfg)
      then (Fail (NoSuchInterface (Interface cfg)), open_conns)
      else
      let ifc = (if Interface cfg \<noteq> '''' then Some (Interface cfg) else None) in
      if \<not> (controlHook os \<and> listenPacket os (Port cfg)) then (Fail (ListenFailed (Port cfg)), open_conns)
      else
      let c = \<lparr>hopLimit = 1, egress = None, loopback = False, members = [], sent = [], closed = False\<rparr>;
          open_conns = open_conns + 1 in
      if \<not> setHopLimit os (Hops cfg) then (Fail HopLimitFailed, open_conns - 1)
      else
      let c = c\<lparr>hopLimit := Hops cfg\<rparr> in
      if (case ifc of None \<Rightarrow> False | Some i \<Rightarrow> \<not> setInterface os i) then (Fail SetInterfaceFailed, open_conns - 1)
      else
      let c = c\<lparr>egress := ifc\<rparr> in
      if \<not> setLoopback os then (Fail LoopbackFailed, open_conns - 1)
      else
      let c = c\<lparr>loopback := True\<rparr> in
      (Ret \<lparr>conn = c, iface = ifc, port = uint (Port cfg), joined = Map.empty\<rparr>, open_conns))"

definition Join :: "os_calls \<Rightarrow> bytes \<Rightarrow> MulticastSocket \<Rightarrow> (mcast_error, MulticastSocket) outcome" where
  "Join os grp m =
     (let key = IP_String grp in
      if joined m key \<noteq> None then Ret m
      else if \<not> joinGroup os (conn m) (iface m) grp then Fail (JoinFailed key)
      else Ret (m\<lparr>conn := (conn m)\<lparr>members := members (conn m) @ [grp]\<rparr>,
                   joined := (joined m)(key \<mapsto> grp)\<rparr>))"

text \<open>The datagram goes to the group at the socket's port; \<open>None\<close> is a write error.\<close>

definition SendTo :: "os_calls \<Rightarrow> bytes \<Rightarrow> bytes \<Rightarrow> MulticastSocket \<Rightarrow> MulticastSocket option" where
  "SendTo os grp data m =
     (if writeTo os (conn m) grp (port m) data
      then Some (m\<lparr>conn := (conn m)\<lparr>sent := sent (conn m) @ [(grp, port m, data)]\<rparr>\<rparr>)
      else None)"

definition Close :: "MulticastSocket \<Rightarrow> MulticastSocket" where
  "Close m = m\<lparr>conn := (conn m)\<lparr>closed := True\<rparr>\<rparr>"


section \<open>Joining\<close>

text \<open>\<open>joined\<close> lists the memberships by their text.\<close>

definition joined_ok :: "MulticastSocket \<Rightarrow> bool" where
  "joined_ok m \<longleftrightarrow> list_all multicast_group (members (conn m)) \<and> distinct (members (conn m)) \<and>
     joined m = map_of (map (\<lambda>g. (IP_String g, g)) (members (conn m)))"

lemma joined_known:
  assumes "joined_ok m" "multicast_group g"
  shows "joined m (IP_String g) \<noteq> None \<longleftrightarrow> g \<in> set (members (conn m))"
proof -
  have "joined m (IP_String g) \<noteq> None \<longleftrightarrow> IP_String g \<in> IP_String ` set (members (conn m))"
    using assms(1) by (force simp: joined_ok_def map_of_eq_None_iff)
  also have "\<dots> \<longleftrightarrow> g \<in> set (members (conn m))"
    using assms IP_String_inject by (auto simp: joined_ok_def list_all_iff)
  finally show ?thesis .
qed

text \<open>The group is a member afterwards; the kernel is asked only for a group that is not one yet.\<close>

definition add_member :: "bytes \<Rightarrow> bytes list \<Rightarrow> bytes list" where
  "add_member g gs = (if g \<in> set gs then gs else gs @ [g])"

lemma Join_outcome:
  assumes "joined_ok m" "multicast_group g"
  shows "case Join os g m of
      Ret m' \<Rightarrow> joined_ok m' \<and> members (conn m') = add_member g (members (conn m)) \<and>
        sent (conn m') = sent (conn m) \<and> iface m' = iface m \<and> port m' = port m
    | Fail e \<Rightarrow> g \<notin> set (members (conn m)) \<and> \<not> joinGroup os (conn m) (iface m) g
    | Panic \<Rightarrow> False"
proof (cases "g \<in> set (members (conn m))")
  case True
  then have "joined m (IP_String g) \<noteq> None" using joined_known [OF assms] by blast
  then show ?thesis using True assms(1) by (simp add: Join_def add_member_def Let_def)
next
  case False
  then have n: "joined m (IP_String g) = None" using joined_known [OF assms] by blast
  have "(joined m)(IP_String g \<mapsto> g) = map_of (map (\<lambda>g. (IP_String g, g)) (members (conn m) @ [g]))"
  proof (intro ext)
    fix k
    have "joined m = map_of (map (\<lambda>g. (IP_String g, g)) (members (conn m)))"
      using assms(1) by (simp add: joined_ok_def)
    with n show "((joined m)(IP_String g \<mapsto> g)) k =
        map_of (map (\<lambda>g. (IP_String g, g)) (members (conn m) @ [g])) k"
      by (simp add: map_add_def split: option.split)
  qed
  then show ?thesis using False assms n by (simp add: Join_def joined_ok_def add_member_def Let_def)
qed

text \<open>
  What the rest of the bridge relies on: something that joins legal groups one at a time, adding a group
  that is not a member yet and nothing else.
\<close>

locale group_joiner =
  fixes join_group :: "bytes \<Rightarrow> 's \<Rightarrow> ('e, 's) outcome"
    and inv :: "'s \<Rightarrow> bool"
    and groups_of :: "'s \<Rightarrow> bytes list"
    and legal :: "bytes \<Rightarrow> bool"
  assumes join_Ret: "inv s \<Longrightarrow> legal g \<Longrightarrow> join_group g s = Ret s' \<Longrightarrow>
      inv s' \<and> groups_of s' = add_member g (groups_of s)"
    and join_not_Panic: "inv s \<Longrightarrow> legal g \<Longrightarrow> join_group g s \<noteq> Panic"
begin

lemma joins_Ret:
  "go_for join_group gs s = Ret s' \<Longrightarrow> inv s \<Longrightarrow> list_all legal gs \<Longrightarrow>
   inv s' \<and> groups_of s' = fold add_member gs (groups_of s)"
proof (induction gs arbitrary: s)
  case (Cons g gs)
  then obtain s1 where s1: "join_group g s = Ret s1" "go_for join_group gs s1 = Ret s'"
    by (auto simp: go_bind_eq_Ret)
  with Cons.prems join_Ret [of s g s1] have "inv s1" "groups_of s1 = add_member g (groups_of s)" by auto
  with Cons.IH [OF s1(2)] Cons.prems(3) show ?case by simp
qed simp

lemma joins_not_Panic: "inv s \<Longrightarrow> list_all legal gs \<Longrightarrow> go_for join_group gs s \<noteq> Panic"
proof (induction gs arbitrary: s)
  case (Cons g gs)
  then show ?case using join_Ret [of s g] join_not_Panic [of s g]
    by (cases "join_group g s") auto
qed simp

end

lemma set_fold_add_member: "set (fold add_member gs ms) = set gs \<union> set ms"
  by (induction gs arbitrary: ms) (auto simp: add_member_def)

text \<open>The socket is one; so is the socket together with the datagrams it sent so far.\<close>

interpretation socket: group_joiner "Join os" "\<lambda>m. joined_ok m \<and> sent (conn m) = ds" "\<lambda>m. members (conn m)"
    multicast_group
  for os ds
proof
  fix m m' g
  assume a: "joined_ok m \<and> sent (conn m) = ds" "multicast_group g"
  show "Join os g m \<noteq> Panic" using Join_outcome [of m g os] a by auto
  assume "Join os g m = Ret m'"
  then show "(joined_ok m' \<and> sent (conn m') = ds) \<and> members (conn m') = add_member g (members (conn m))"
    using Join_outcome [of m g os] a by auto
qed


section \<open>Properties\<close>

text \<open>
  C29. Joining is idempotent.  Whatever topics are joined in whatever order, if no membership is
  refused, the kernel is asked for each distinct group exactly once, in the order of first occurrence,
  although the table is keyed by the text of the address; and no datagram is sent.
\<close>

theorem Join_once_per_group:
  assumes "go_for (Join os) (map (\<lambda>t. TopicToGroup t sc) topics)
      \<lparr>conn = c\<lparr>members := []\<rparr>, iface = ifc, port = p, joined = Map.empty\<rparr> = Ret m"
  shows "members (conn m) = fold add_member (map (\<lambda>t. TopicToGroup t sc) topics) [] \<and>
    distinct (members (conn m)) \<and> set (members (conn m)) = (\<lambda>t. TopicToGroup t sc) ` set topics \<and>
    sent (conn m) = sent c"
proof -
  let ?m0 = "\<lparr>conn = c\<lparr>members := []\<rparr>, iface = ifc, port = p, joined = Map.empty\<rparr>"
  have "joined_ok ?m0 \<and> sent (conn ?m0) = sent c" by (simp add: joined_ok_def)
  from socket.joins_Ret [OF assms this] show ?thesis
    by (auto simp: list_all_iff TopicToGroup_multicast set_fold_add_member joined_ok_def)
qed

definition demo_os :: os_calls where
  "demo_os = \<lparr>interfaceByName = (\<lambda>n. n = ''eth0''), rawControl = True, setReusePort = True,
     listenPacket = (\<lambda>p. True), setHopLimit = (\<lambda>h. 0 \<le> h \<and> h \<le> 255), setInterface = (\<lambda>i. True),
     setLoopback = True, joinGroup = (\<lambda>c i g. g \<notin> set (members c)),
     writeTo = (\<lambda>c g p d. \<not> closed c)\<rparr>"

definition demo_conn :: udp_conn where
  "demo_conn = \<lparr>hopLimit = 1, egress = None, loopback = True, members = [], sent = [], closed = False\<rparr>"

theorem Join_once_per_group_witness:
  "\<exists>m. go_for (Join demo_os) (map (\<lambda>t. TopicToGroup t 2) [''a'', ''a''])
      \<lparr>conn = demo_conn\<lparr>members := []\<rparr>, iface = None, port = 18512, joined = Map.empty\<rparr> = Ret m
    \<and> members (conn m) = [TopicToGroup ''a'' 2]"
proof -
  let ?m0 = "\<lparr>conn = demo_conn\<lparr>members := []\<rparr>, iface = None, port = 18512, joined = Map.empty\<rparr>"
  have "\<exists>m. go_for (Join demo_os) (map (\<lambda>t. TopicToGroup t 2) [''a'', ''a'']) ?m0 = Ret m"
    by (simp add: Join_def Let_def demo_os_def demo_conn_def)
  then obtain m where m: "go_for (Join demo_os) (map (\<lambda>t. TopicToGroup t 2) [''a'', ''a'']) ?m0 = Ret m" ..
  from Join_once_per_group [OF m] m show ?thesis by (auto simp: add_member_def)
qed

text \<open>
  C37. OpenMulticastSocket leaks nothing: on every error the number of open sockets is what it was
  before; on success exactly one more is open, with the configured hop limit, the configured egress
  interface and loopback switched on, bound to the configured port and joined to no group.
\<close>

theorem OpenMulticastSocket_no_leak:
  "case OpenMulticastSocket os cfg n of
     (Fail e, n') \<Rightarrow> n' = n
   | (Ret m, n') \<Rightarrow> n' = n + 1 \<and> hopLimit (conn m) = Hops cfg \<and> loopback (conn m) \<and>
        egress (conn m) = (if Interface cfg = '''' then None else Some (Interface cfg)) \<and>
        iface m = egress (conn m) \<and> port m = uint (Port cfg) \<and>
        joined_ok m \<and> members (conn m) = [] \<and> \<not> closed (conn m)
   | (Panic, n') \<Rightarrow> False"
  by (simp add: OpenMulticastSocket_def joined_ok_def Let_def split: option.split)

end
