(* ===== verification/Routing.thy ===== *)
theory Routing
  imports Mcast
begin

text \<open>
  \<open>bridges/mqtt-go/bridge.go\<close>: the bridge, \<open>NewBridge\<close>, and the part of \<open>Run\<close> that turns the
  configured entries into MQTT subscriptions, multicast memberships and the routing table.  The MQTT
  client (paho) is not part of the repository: it appears as the options it is created with, the
  subscriptions it was asked for, and arguments that say whether a call succeeds.
\<close>

section \<open>Code\<close>

record mpubsubToMQTTRoute =
  rMQTTTopic :: string
  rRequireEncryption :: bool
  rSchema :: "Schema option"

record mqtt_options =
  optBroker :: string
  optClientID :: string
  optAutoReconnect :: bool
  optCleanSession :: bool
  optCredentials :: "(string \<times> string) option"

text \<open>A subscription: topic filter, QoS, and the entry its handler closes over.\<close>

record subscription =
  subFilter :: string
  subQoS :: u8
  subEntry :: BridgeEntry

record Bridge =
  cfg :: Config
  bscope :: u8
  mqtt :: mqtt_options
  mcast :: MulticastSocket
  crcToMQTT :: "u32 \<rightharpoonup> mpubsubToMQTTRoute list"
  subscriptions :: "subscription list"
  Verbose :: bool

datatype bridge_error =
    ScopeError wire_error
  | SocketError mcast_error
  | ConnectFailed
  | SubscribeFailed string
  | JoinError mcast_error

record mqtt_calls =
  connects :: bool
  subscribes :: "string \<Rightarrow> u8 \<Rightarrow> bool"

definition NewBridge :: "os_calls \<Rightarrow> Config \<Rightarrow> nat \<Rightarrow> (bridge_error, Bridge) outcome \<times> nat" where
  "NewBridge os c open_conns =
     (case ParseScope (Scope (MPubsub c)) of
        Fail e \<Rightarrow> (Fail (ScopeError e), open_conns)
      | Panic \<Rightarrow> (Panic, open_conns)
      | Ret sc \<Rightarrow>
          (case OpenMulticastSocket os (MPubsub c) open_conns of
             (Fail e, n) \<Rightarrow> (Fail (SocketError e), n)
           | (Panic, n) \<Rightarrow> (Panic, n)
           | (Ret sock, n) \<Rightarrow>
               let opts = \<lparr>optBroker = Broker (MQTT c), optClientID = ClientID (MQTT c),
                     optAutoReconnect = True, optCleanSession = True,
                     optCredentials = if Username (MQTT c) \<noteq> ''''
                       then Some (Username (MQTT c), Password (MQTT c)) else None\<rparr>
               in (Ret \<lparr>cfg = c, bscope = sc, mqtt = opts, mcast = sock, crcToMQTT = Map.empty,
                        subscriptions = [], Verbose = False\<rparr>, n)))"

definition routesFor :: "Bridge \<Rightarrow> u32 \<Rightarrow> mpubsubToMQTTRoute list" where
  "routesFor b crc = (case crcToMQTT b crc of None \<Rightarrow> [] | Some rs \<Rightarrow> rs)"

text \<open>The body of the loop over \<open>b.cfg.Bridges\<close>.\<close>

definition configureEntry ::
  "os_calls \<Rightarrow> mqtt_calls \<Rightarrow> BridgeEntry \<Rightarrow> Bridge \<Rightarrow> (bridge_error, Bridge) outcome" where
  "configureEntry os mq entry b =
     (if Direction entry = DirMQTTToMPubsub then
        (let qos = (if PromoteQoS (MPubsub (cfg b)) then 2 else QoS (MQTT (cfg b))) in
         if \<not> subscribes mq (MQTTTopic entry) qos then Fail (SubscribeFailed (MQTTTopic entry))
         else Ret (b\<lparr>subscriptions := subscriptions b @
                [\<lparr>subFilter = MQTTTopic entry, subQoS = qos, subEntry = entry\<rparr>]\<rparr>))
      else if Direction entry = DirMPubsubToMQTT then
        (let grp = TopicToGroup (MPubsubTopic entry) (bscope b) in
         go_bind (go_wrap JoinError (Join os grp (mcast b))) (\<lambda>sock.
         let crc = TopicCRC32 (MPubsubTopic entry);
             route = \<lparr>rMQTTTopic = MQTTTopic entry, rRequireEncryption = RequireEncryption entry,
                      rSchema = schemaPtr entry\<rparr>
         in Ret (b\<lparr>mcast := sock, crcToMQTT := (crcToMQTT b)(crc \<mapsto> routesFor b crc @ [route])\<rparr>)))
      else Ret b)"

text \<open>\<open>Run\<close> up to the start of the receive loop.\<close>

definition configureRoutes :: "os_calls \<Rightarrow> mqtt_calls \<Rightarrow> Bridge \<Rightarrow> (bridge_error, Bridge) outcome" where
  "configureRoutes os mq b =
     (if \<not> connects mq then Fail ConnectFailed
      else go_for (configureEntry os mq) (Bridges (cfg b)) b)"

text \<open>The topic a handler publishes under: the pinned one, or the topic the message came in on.\<close>

definition busTopic :: "BridgeEntry \<Rightarrow> string \<Rightarrow> string" where
  "busTopic e msgTopic = (let mpubsubTopic = MPubsubTopic e in if mpubsubTopic = '''' then msgTopic else mpubsubTopic)"


section \<open>What the tables contain\<close>

definition route_of :: "BridgeEntry \<Rightarrow> mpubsubToMQTTRoute" where
  "route_of e = \<lparr>rMQTTTopic = MQTTTopic e, rRequireEncryption = RequireEncryption e, rSchema = schemaPtr e\<rparr>"

definition into_mqtt :: "BridgeEntry \<Rightarrow> bool" where "into_mqtt e \<longleftrightarrow> Direction e = DirMPubsubToMQTT"
definition from_mqtt :: "BridgeEntry \<Rightarrow> bool" where "from_mqtt e \<longleftrightarrow> Direction e = DirMQTTToMPubsub"

text \<open>The routes the configuration prescribes for a checksum, in the order of the entries.\<close>

definition configured_routes :: "BridgeEntry list \<Rightarrow> u32 \<Rightarrow> mpubsubToMQTTRoute list" where
  "configured_routes es crc =
     map route_of (filter (\<lambda>e. into_mqtt e \<and> TopicCRC32 (MPubsubTopic e) = crc) es)"

definition configured_groups :: "u8 \<Rightarrow> BridgeEntry list \<Rightarrow> bytes list" where
  "configured_groups sc es = map (\<lambda>e. TopicToGroup (MPubsubTopic e) sc) (filter into_mqtt es)"

definition configured_subs :: "Config \<Rightarrow> BridgeEntry list \<Rightarrow> subscription list" where
  "configured_subs c es =
     map (\<lambda>e. \<lparr>subFilter = MQTTTopic e,
               subQoS = if PromoteQoS (MPubsub c) then 2 else QoS (MQTT c), subEntry = e\<rparr>)
       (filter from_mqtt es)"

lemma configured_subs_entry:
  "sub \<in> set (configured_subs c es) \<Longrightarrow> subEntry sub \<in> set es \<and> from_mqtt (subEntry sub)"
  by (auto simp: configured_subs_def)

lemma entry_subscribed:
  assumes "e \<in> set es" "from_mqtt e"
  shows "\<exists>sub\<in>set (configured_subs c es). subEntry sub = e"
  using assms by (force simp: configured_subs_def)

lemma directions_differ: "into_mqtt e \<Longrightarrow> \<not> from_mqtt e"
  by (simp add: into_mqtt_def from_mqtt_def dir_consts)

lemma configureEntry_Ret:
  assumes "joined_ok (mcast b)" "configureEntry os mq e b = Ret b'"
  shows "joined_ok (mcast b') \<and> cfg b' = cfg b \<and> bscope b' = bscope b \<and>
    (\<forall>crc. routesFor b' crc = routesFor b crc @ configured_routes [e] crc) \<and>
    subscriptions b' = subscriptions b @ configured_subs (cfg b) [e] \<and>
    members (conn (mcast b')) = fold add_member (configured_groups (bscope b) [e]) (members (conn (mcast b))) \<and>
    sent (conn (mcast b')) = sent (conn (mcast b))"
proof (cases "into_mqtt e")
  case True
  let ?g = "TopicToGroup (MPubsubTopic e) (bscope b)"
  obtain sock where j: "Join os ?g (mcast b) = Ret sock" and b':
    "b' = b\<lparr>mcast := sock, crcToMQTT := (crcToMQTT b)(TopicCRC32 (MPubsubTopic e) \<mapsto>
              routesFor b (TopicCRC32 (MPubsubTopic e)) @ [route_of e])\<rparr>"
    using assms(2) True
    by (auto simp: configureEntry_def into_mqtt_def dir_consts Let_def go_bind_eq_Ret route_of_def)
  have "routesFor b' crc = routesFor b crc @ configured_routes [e] crc" for crc
    using True by (simp add: b' routesFor_def configured_routes_def)
  then show ?thesis
    using socket.join_Ret [of "mcast b" "sent (conn (mcast b))", OF _ TopicToGroup_multicast j] assms(1)
      True directions_differ [OF True]
    by (simp add: b' configured_subs_def configured_groups_def)
next
  case False
  then show ?thesis using assms
    by (auto simp: configureEntry_def into_mqtt_def from_mqtt_def Let_def routesFor_def
        configured_routes_def configured_subs_def configured_groups_def split: if_splits)
qed

lemma configureEntries_Ret:
  "go_for (configureEntry os mq) es b = Ret b' \<Longrightarrow> joined_ok (mcast b) \<Longrightarrow>
   joined_ok (mcast b') \<and> cfg b' = cfg b \<and> bscope b' = bscope b \<and>
    (\<forall>crc. routesFor b' crc = routesFor b crc @ configured_routes es crc) \<and>
    subscriptions b' = subscriptions b @ configured_subs (cfg b) es \<and>
    members (conn (mcast b')) = fold add_member (configured_groups (bscope b) es) (members (conn (mcast b))) \<and>
    sent (conn (mcast b')) = sent (conn (mcast b))"
proof (induction es arbitrary: b)
  case Nil
  then show ?case by (simp add: configured_routes_def configured_subs_def configured_groups_def)
next
  case (Cons e es)
  then obtain b1 where b1: "configureEntry os mq e b = Ret b1" "go_for (configureEntry os mq) es b1 = Ret b'"
    by (auto simp: go_bind_eq_Ret)
  from configureEntry_Ret [OF Cons.prems(2) b1(1)] Cons.IH [OF b1(2)] show ?case
    by (simp add: configured_routes_def configured_subs_def configured_groups_def)
qed

end
