(* ===== verification/Dispatch.thy ===== *)
theory Dispatch
  imports Routing Json_Proto Wire_Props
begin

text \<open>
  \<open>bridges/mqtt-go/bridge.go\<close>: the receiving half, \<open>mcastReceiveLoop\<close>.  A datagram is decoded, looked
  up in the routing table by its topic checksum, and offered to every route under that checksum, which
  publishes it to MQTT or skips it.  The reasons that the code logs are constructors here.
\<close>

section \<open>Code\<close>

record mqtt_publish =
  pTopic :: string
  pQoS :: u8
  pRetain :: bool
  pPayload :: bytes

datatype skip_reason =
    PlaintextOnEncryptedRoute
  | ProtoOnRawRoute
  | NonProtoOnSchemaRoute u8
  | SchemaIDMismatch u16 u16
  | ProtoToJSONFailed json_error

datatype route_result = Forward mqtt_publish | Skip skip_reason

datatype receive_result =
    Undecodable wire_error
  | NoRoute u32
  | TooShortForSchemaID u32
  | Routed "route_result list"

text \<open>\<open>b.mqtt.Publish(r.MQTTTopic, b.cfg.MQTT.QoS, b.cfg.MQTT.Retain, payload)\<close>\<close>

definition publishOn :: "Bridge \<Rightarrow> mpubsubToMQTTRoute \<Rightarrow> bytes \<Rightarrow> route_result" where
  "publishOn b r payload =
     Forward \<lparr>pTopic = rMQTTTopic r, pQoS = QoS (MQTT (cfg b)), pRetain = Retain (MQTT (cfg b)),
              pPayload = payload\<rparr>"

text \<open>
  The body of the loop over the routes.  The \<open>switch\<close> has no default case: a packet of a third
  encoding would be published on a raw route with an empty payload.  \<open>None\<close> is non-termination of the
  protobuf decoder.  The body returns no error: every failure is logged and skips the route.
\<close>

definition offerRoute :: "Bridge \<Rightarrow> DecodedPacket \<Rightarrow> u16 \<Rightarrow> bytes \<Rightarrow> mpubsubToMQTTRoute
    \<Rightarrow> (unit, route_result) outcome option" where
  "offerRoute b pkt protoSchemaID protoBody r =
     (if rRequireEncryption r \<and> \<not> WasEncrypted pkt then Some (Ret (Skip PlaintextOnEncryptedRoute))
      else
      (case rSchema r of
         None \<Rightarrow>
           if Encoding pkt = encodingRaw then Some (Ret (publishOn b r (Payload pkt)))
           else if Encoding pkt = encodingProto then Some (Ret (Skip ProtoOnRawRoute))
           else Some (Ret (publishOn b r []))
       | Some s \<Rightarrow>
           if Encoding pkt \<noteq> encodingProto then Some (Ret (Skip (NonProtoOnSchemaRoute (Encoding pkt))))
           else if protoSchemaID \<noteq> SchemaID s
           then Some (Ret (Skip (SchemaIDMismatch (SchemaID s) protoSchemaID)))
           else
             (case ProtoToJSON s protoBody of
                None \<Rightarrow> None
              | Some Panic \<Rightarrow> Some Panic
              | Some (Fail e) \<Rightarrow> Some (Ret (Skip (ProtoToJSONFailed e)))
              | Some (Ret jsonBytes) \<Rightarrow> Some (Ret (publishOn b r jsonBytes)))))"

fun offerRoutes :: "Bridge \<Rightarrow> DecodedPacket \<Rightarrow> u16 \<Rightarrow> bytes \<Rightarrow> mpubsubToMQTTRoute list
    \<Rightarrow> (unit, route_result list) outcome option" where
  "offerRoutes b pkt protoSchemaID protoBody [] = Some (Ret [])"
| "offerRoutes b pkt protoSchemaID protoBody (r # rs) =
     (case offerRoute b pkt protoSchemaID protoBody r of
        None \<Rightarrow> None
      | Some Panic \<Rightarrow> Some Panic
      | Some (Fail e) \<Rightarrow> Some (Fail e)
      | Some (Ret x) \<Rightarrow>
          map_option (\<lambda>m. go_bind m (\<lambda>xs. Ret (x # xs))) (offerRoutes b pkt protoSchemaID protoBody rs))"

text \<open>The body of the receive loop on the bytes that were read.\<close>

definition receiveDatagram :: "Bridge \<Rightarrow> bytes \<Rightarrow> (unit, receive_result) outcome option" where
  "receiveDatagram b data =
     (case DecodePacket data (EncryptionKey (MPubsub (cfg b))) of
        Panic \<Rightarrow> Some Panic
      | Fail e \<Rightarrow> Some (Ret (Undecodable e))
      | Ret pkt \<Rightarrow>
          let routes = routesFor b (TopicCRC pkt) in
          if length routes = 0 then Some (Ret (NoRoute (TopicCRC pkt)))
          else if Encoding pkt = encodingProto \<and> length (Payload pkt) < 2
          then Some (Ret (TooShortForSchemaID (TopicCRC pkt)))
          else
            (case (if Encoding pkt = encodingProto
                   then go_bind (go_at (Payload pkt) 0) (\<lambda>b0. go_bind (go_at (Payload pkt) 1) (\<lambda>b1.
                        go_bind (go_from (Payload pkt) 2) (\<lambda>body.
                        Ret (ucast b0 OR push_bit 8 (ucast b1), body))))
                   else Ret (0, []) :: (unit, u16 \<times> bytes) outcome) of
               Panic \<Rightarrow> Some Panic
             | Fail e \<Rightarrow> Some (Fail e)
             | Ret (protoSchemaID, protoBody) \<Rightarrow>
                 map_option (\<lambda>m. go_bind m (\<lambda>xs. Ret (Routed xs)))
                   (offerRoutes b pkt protoSchemaID protoBody routes)))"

text \<open>
  What the socket yields.  \<open>ReadFromUDP\<close> fills a buffer of \<open>maxDatagram\<close> bytes and discards the rest of a
  longer datagram.  A read error ends the loop if the socket is closed or the context is done.
\<close>

datatype read_event = Datagram bytes | ReadError bool | ContextDone

fun mcastReceiveLoop :: "Bridge \<Rightarrow> read_event list
    \<Rightarrow> (unit, receive_result) outcome option list" where
  "mcastReceiveLoop b [] = []"
| "mcastReceiveLoop b (ContextDone # evs) = []"
| "mcastReceiveLoop b (ReadError closed_or_done # evs) =
     (if closed_or_done then [] else mcastReceiveLoop b evs)"
| "mcastReceiveLoop b (Datagram d # evs) =
     (case receiveDatagram b (take maxDatagram d) of
        Some (Ret x) \<Rightarrow> Some (Ret x) # mcastReceiveLoop b evs
      | stuck \<Rightarrow> [stuck])"


section \<open>The abstract receiver\<close>

text \<open>
  The contract of a route, independent of the loop: what it publishes for a decoded packet.  Raw routes
  pass raw payloads through; schema routes translate proto payloads that carry their schema id.
\<close>

definition packet_schema_id :: "DecodedPacket \<Rightarrow> u16" where
  "packet_schema_id pkt = le_word16 (Payload pkt ! 0) (Payload pkt ! 1)"

definition route_payload :: "DecodedPacket \<Rightarrow> mpubsubToMQTTRoute \<Rightarrow> bytes option" where
  "route_payload pkt r =
     (if rRequireEncryption r \<and> \<not> WasEncrypted pkt then None
      else (case rSchema r of
          None \<Rightarrow> if Encoding pkt = encodingRaw then Some (Payload pkt) else None
        | Some s \<Rightarrow>
            if Encoding pkt = encodingProto \<and> packet_schema_id pkt = SchemaID s
            then (case ProtoToJSON s (drop 2 (Payload pkt)) of Some (Ret doc) \<Rightarrow> Some doc | _ \<Rightarrow> None)
            else None))"

text \<open>The messages MQTT receives for a packet, in the order of the routes.\<close>

definition dispatched :: "Bridge \<Rightarrow> DecodedPacket \<Rightarrow> mqtt_publish list" where
  "dispatched b pkt =
     (if Encoding pkt = encodingProto \<and> length (Payload pkt) < 2 then []
      else List.map_filter (\<lambda>r. map_option (\<lambda>p.
             \<lparr>pTopic = rMQTTTopic r, pQoS = QoS (MQTT (cfg b)), pRetain = Retain (MQTT (cfg b)), pPayload = p\<rparr>)
           (route_payload pkt r)) (routesFor b (TopicCRC pkt)))"

definition forwarded :: "route_result list \<Rightarrow> mqtt_publish list" where
  "forwarded = List.map_filter (\<lambda>x. case x of Forward p \<Rightarrow> Some p | Skip _ \<Rightarrow> None)"

text \<open>What one iteration published; a panic would take the process down.\<close>

fun published :: "(unit, receive_result) outcome option \<Rightarrow> mqtt_publish list option" where
  "published (Some (Ret (Routed xs))) = Some (forwarded xs)"
| "published (Some (Ret _)) = Some []"
| "published _ = None"

text \<open>The schemas in the routing table are well formed, as the configuration guarantees.\<close>

definition routes_wf :: "Bridge \<Rightarrow> bool" where
  "routes_wf b \<longleftrightarrow> (\<forall>crc. \<forall>r\<in>set (routesFor b crc). \<forall>s. rSchema r = Some s \<longrightarrow> schema_wf s)"

section \<open>The loop body implements the contract\<close>

lemma decoded_packet:
  assumes "DecodePacket data key = Ret pkt"
  shows "(Encoding pkt = encodingRaw \<or> Encoding pkt = encodingProto) \<and> length (Payload pkt) < 65536"
proof -
  have slice: "length p \<le> unat n" if "go_slice xs lo (lo + uint n) = (Ret p :: ('e, bytes) outcome)" for xs lo p and n :: u16
    using that by (auto simp: go_slice_def split: if_splits)
  have n: "unat n < 65536" for n :: u16 using unsigned_less [of n, where ?'a = nat] by simp
  have plain: "length data - headerLen < 65536" if "uint n + int headerLen = int (length data)" for n :: u16
    using that n [of n] uint_nat [of n] by linarith
  have opened: "length p < 65536" if op: "openBody xxteaDecrypt k body n = (Ret (crc, p) :: (wire_error, _) outcome)"
    for k body n crc p
  proof -
    obtain plain where "go_slice plain 4 (4 + uint n) = (Ret p :: (wire_error, bytes) outcome)"
      using op by (auto simp: openBody_def go_bind_eq_Ret Let_def)
    from slice [OF this] n [of n] show ?thesis by linarith
  qed
  show ?thesis
    using assms opened plain
    by (auto simp: DecodePacket_def go_bind_eq_Ret go_from_def go_slice_def split: if_splits option.splits)
qed

lemma decoded_in_memory: "DecodePacket data key = Ret pkt \<Longrightarrow> in_memory (drop n (Payload pkt))"
  using decoded_packet [of data key pkt] by (auto intro: le_less_trans [OF diff_le_self])

lemma offerRoute_contract:
  assumes wf: "\<forall>s. rSchema r = Some s \<longrightarrow> schema_wf s"
    and enc: "Encoding pkt = encodingRaw \<or> Encoding pkt = encodingProto"
    and proto: "Encoding pkt = encodingProto \<longrightarrow> psid = packet_schema_id pkt \<and> body = drop 2 (Payload pkt)"
    and mem: "in_memory (drop 2 (Payload pkt))"
  shows "\<exists>x. offerRoute b pkt psid body r = Some (Ret x) \<and>
    (case route_payload pkt r of Some p \<Rightarrow> x = publishOn b r p | None \<Rightarrow> \<exists>reason. x = Skip reason)"
proof (cases "rSchema r")
  case None
  then show ?thesis using enc by (auto simp: offerRoute_def route_payload_def publishOn_def)
next
  case (Some s)
  show ?thesis
  proof (cases "Encoding pkt = encodingProto \<and> packet_schema_id pkt = SchemaID s")
    case False
    then show ?thesis using Some proto by (auto simp: offerRoute_def route_payload_def)
  next
    case True
    obtain m where m: "ProtoToJSON s body = Some m" "m \<noteq> Panic"
      using ProtoToJSON_no_panic [of s body] wf Some mem True proto by auto
    then show ?thesis
      using True Some proto by (cases m) (auto simp: offerRoute_def route_payload_def)
  qed
qed

lemma offerRoutes_contract:
  assumes "\<forall>r\<in>set rs. \<forall>s. rSchema r = Some s \<longrightarrow> schema_wf s"
    and "Encoding pkt = encodingRaw \<or> Encoding pkt = encodingProto"
    and "Encoding pkt = encodingProto \<longrightarrow> psid = packet_schema_id pkt \<and> body = drop 2 (Payload pkt)"
    and "in_memory (drop 2 (Payload pkt))"
  shows "\<exists>xs. offerRoutes b pkt psid body rs = Some (Ret xs) \<and>
    forwarded xs = List.map_filter (\<lambda>r. map_option (\<lambda>p.
      \<lparr>pTopic = rMQTTTopic r, pQoS = QoS (MQTT (cfg b)), pRetain = Retain (MQTT (cfg b)), pPayload = p\<rparr>)
      (route_payload pkt r)) rs"
  using assms(1)
proof (induction rs)
  case Nil
  show ?case by (simp add: forwarded_def map_filter_simps)
next
  case (Cons r rs)
  obtain x where x: "offerRoute b pkt psid body r = Some (Ret x)"
    "case route_payload pkt r of Some p \<Rightarrow> x = publishOn b r p | None \<Rightarrow> \<exists>reason. x = Skip reason"
    using offerRoute_contract [OF _ assms(2-4), of r b] Cons.prems by auto
  from Cons show ?case
    using x by (auto simp: forwarded_def map_filter_simps publishOn_def split: option.splits)
qed

text \<open>One iteration on any bytes: no panic, an end, and exactly the prescribed publications.\<close>

lemma receiveDatagram_contract:
  assumes "routes_wf b"
  shows "published (receiveDatagram b data) =
    Some (case DecodePacket data (EncryptionKey (MPubsub (cfg b))) of
            Ret pkt \<Rightarrow> dispatched b pkt | _ \<Rightarrow> [])"
proof (cases "\<exists>pkt. DecodePacket data (EncryptionKey (MPubsub (cfg b))) = Ret pkt")
  case False
  then show ?thesis
    using DecodePacket_never_panics [of data "EncryptionKey (MPubsub (cfg b))"]
    by (cases "DecodePacket data (EncryptionKey (MPubsub (cfg b)))") (simp_all add: receiveDatagram_def)
next
  case True
  then obtain pkt where pkt: "DecodePacket data (EncryptionKey (MPubsub (cfg b))) = Ret pkt" ..
  note enc = decoded_packet [OF pkt, THEN conjunct1] and mem = decoded_in_memory [OF pkt, of 2]
  let ?rs = "routesFor b (TopicCRC pkt)"
  have wf: "\<forall>r\<in>set ?rs. \<forall>s. rSchema r = Some s \<longrightarrow> schema_wf s"
    using assms by (auto simp: routes_wf_def)
  show ?thesis
  proof (cases "?rs = [] \<or> (Encoding pkt = encodingProto \<and> length (Payload pkt) < 2)")
    case True
    then show ?thesis by (auto simp: receiveDatagram_def pkt dispatched_def map_filter_simps Let_def)
  next
    case False
    have "\<exists>psid body. (if Encoding pkt = encodingProto
        then go_bind (go_at (Payload pkt) 0) (\<lambda>b0. go_bind (go_at (Payload pkt) 1) (\<lambda>b1.
             go_bind (go_from (Payload pkt) 2) (\<lambda>body. Ret (ucast b0 OR push_bit 8 (ucast b1), body))))
        else Ret (0, [])) = (Ret (psid, body) :: (unit, u16 \<times> bytes) outcome) \<and>
      (Encoding pkt = encodingProto \<longrightarrow> psid = packet_schema_id pkt \<and> body = drop 2 (Payload pkt))"
      using False by (auto simp: go_at_def go_simps packet_schema_id_def le_word16_def)
    then obtain psid body where sid: "(if Encoding pkt = encodingProto
        then go_bind (go_at (Payload pkt) 0) (\<lambda>b0. go_bind (go_at (Payload pkt) 1) (\<lambda>b1.
             go_bind (go_from (Payload pkt) 2) (\<lambda>body. Ret (ucast b0 OR push_bit 8 (ucast b1), body))))
        else Ret (0, [])) = (Ret (psid, body) :: (unit, u16 \<times> bytes) outcome)"
      and proto: "Encoding pkt = encodingProto \<longrightarrow> psid = packet_schema_id pkt \<and> body = drop 2 (Payload pkt)"
      by blast
    obtain xs where xs: "offerRoutes b pkt psid body ?rs = Some (Ret xs)"
      "forwarded xs = List.map_filter (\<lambda>r. map_option (\<lambda>p.
      \<lparr>pTopic = rMQTTTopic r, pQoS = QoS (MQTT (cfg b)), pRetain = Retain (MQTT (cfg b)), pPayload = p\<rparr>)
      (route_payload pkt r)) ?rs"
      using offerRoutes_contract [OF wf enc proto mem, of b] by blast
    have "receiveDatagram b data = Some (Ret (Routed xs))"
      using False by (simp only: receiveDatagram_def pkt outcome.case Let_def sid) (simp add: xs(1))
    then show ?thesis using False xs(2) by (auto simp: pkt dispatched_def)
  qed
qed

end
