(* ===== verification/Config_Props.thy ===== *)
theory Config_Props
  imports Config
begin

text \<open>
  What a configuration that \<open>LoadConfig\<close> accepts guarantees to the rest of the bridge, and what
  \<open>validate\<close> and \<open>applyDefaults\<close> do on every branch.
\<close>

section \<open>Loops over entries\<close>

definition with_schema :: "(string \<rightharpoonup> Schema) \<Rightarrow> BridgeEntry \<Rightarrow> BridgeEntry" where
  "with_schema m b = (if SchemaRef b = '''' then b else b\<lparr>schemaPtr := m (SchemaRef b)\<rparr>)"

lemma with_schema_simps [simp]:
  "SchemaRef (with_schema m b) = SchemaRef b" "with_schema m (with_schema m b) = with_schema m b"
  by (simp_all add: with_schema_def)

lemma resolveEntries:
  "go_for (resolveEntry m) (enumerate k bs) done = Ret out \<longleftrightarrow>
     (\<forall>b\<in>set bs. SchemaRef b = '''' \<or> m (SchemaRef b) \<noteq> None) \<and> out = done @ map (with_schema m) bs"
proof (induction bs arbitrary: k "done")
  case (Cons b bs)
  show ?case
    by (auto simp: resolveEntry_entry with_schema_def Cons.IH split: option.split)
qed auto

lemma rejectSchemaRefs:
  "go_for rejectSchemaRef (enumerate k bs) u = Ret v \<longleftrightarrow> (\<forall>b\<in>set bs. SchemaRef b = '''')"
  by (induction bs arbitrary: k u) (auto simp: rejectSchemaRef_entry)

lemma addSchemas:
  assumes "go_for addSchema (enumerate k scs) m = Ret m'"
    and "\<forall>n s. m n = Some s \<longrightarrow> schema_wf s \<and> ID s = n"
  shows "\<forall>n s. m' n = Some s \<longrightarrow> schema_wf s \<and> ID s = n"
  using assms
proof (induction scs arbitrary: k m)
  case (Cons sc scs)
  from Cons.prems(1) obtain s where s: "NewSchema (cID sc) (map to_field (cFields sc)) = Ret s"
      and rest: "go_for addSchema (enumerate (Suc k) scs) (m(cID sc \<mapsto> s)) = Ret m'"
    by (auto simp: addSchema_entry go_bind_eq_Ret split: if_splits)
  from s have "schema_wf s" "ID s = cID sc" by (simp_all add: NewSchema_Ret)
  then have "\<forall>n t. (m(cID sc \<mapsto> s)) n = Some t \<longrightarrow> schema_wf t \<and> ID t = n" using Cons.prems(2) by simp
  with Cons.IH [OF rest] show ?case by blast
qed simp

text \<open>The first error of a loop, when the body never changes the state.\<close>

lemma validateEntries:
  "go_for (validateEntry c) (enumerate k bs) u = Ret v \<longleftrightarrow> (\<forall>b\<in>set bs. \<forall>i u. returns (validateEntry c (i, b) u))"
proof (induction bs arbitrary: k u)
  case (Cons b bs)
  have same: "returns (validateEntry c (i, b) u) \<longleftrightarrow> validateEntry c (j, b) u' = Ret ()" for i j u u'
    by (auto simp: validateEntry_def returns_def)
  show ?case
    by (cases "validateEntry c (k, b) u") (use same Cons.IH in \<open>auto simp: returns_def\<close>)
qed simp


section \<open>Valid configurations\<close>

definition entry_valid :: "Config \<Rightarrow> BridgeEntry \<Rightarrow> bool" where
  "entry_valid c b \<longleftrightarrow>
     MQTTTopic b \<noteq> '''' \<and>
     (Direction b = DirMQTTToMPubsub \<or>
      Direction b = DirMPubsubToMQTT \<and> MPubsubTopic b \<noteq> '''' \<and>
        CHR ''+'' \<notin> set (MPubsubTopic b) \<and> CHR ''#'' \<notin> set (MPubsubTopic b)) \<and>
     (RequireEncryption b \<longrightarrow> Direction b = DirMPubsubToMQTT \<and>
        (\<exists>k. EncryptionKey (MPubsub c) = Some k \<and> k \<noteq> []))"

definition validated :: "Config \<Rightarrow> bool" where
  "validated c \<longleftrightarrow>
     Broker (MQTT c) \<noteq> '''' \<and>
     Scope (MPubsub c) \<in> {'''', ''link-local'', ''site-local'', ''organization-local'', ''org-local''} \<and>
     1 \<le> Hops (MPubsub c) \<and> Hops (MPubsub c) \<le> 255 \<and>
     (RetransmitCount (MPubsub c) = -1 \<and> Second \<le> RetransmitDelay (MPubsub c) \<or>
      1 \<le> RetransmitCount (MPubsub c) \<and> RetransmitCount (MPubsub c) \<le> 255) \<and>
     Bridges c \<noteq> [] \<and> (\<forall>b\<in>set (Bridges c). entry_valid c b)"

lemma validateEntry_returns: "returns (validateEntry c (i, b) u) \<longleftrightarrow> entry_valid c b"
  by (auto simp: validateEntry_def entry_valid_def dir_consts split: option.splits)

lemma validate_Ret: "validate c = Ret u \<longleftrightarrow> validated c"
proof -
  have scope: "(\<exists>x. ParseScope (Scope (MPubsub c)) = Ret x) \<longleftrightarrow>
      Scope (MPubsub c) \<in> {'''', ''link-local'', ''site-local'', ''organization-local'', ''org-local''}"
    by (auto simp: ParseScope_def)
  have loop: "go_for (validateEntry c) (enumerate 0 (Bridges c)) () = Ret () \<longleftrightarrow>
      (\<forall>b\<in>set (Bridges c). entry_valid c b)"
    by (simp add: validateEntries validateEntry_returns)
  have arith: "\<not> (h < 1 \<or> h > 255) \<longleftrightarrow> 1 \<le> h \<and> h \<le> 255"
      "\<not> (n \<noteq> -1 \<and> (n < 1 \<or> n > 255)) \<and> \<not> (n = -1 \<and> d < Second) \<longleftrightarrow>
       n = -1 \<and> Second \<le> d \<or> 1 \<le> n \<and> n \<le> 255" for h n d :: int
    by auto
  show ?thesis
    unfolding validated_def validate_def scope [symmetric] loop [symmetric]
    using arith by (auto simp: go_bind_eq_Ret)
qed

lemma validate_not_Panic: "validate c \<noteq> Panic"
proof -
  have "validateEntry c x u \<noteq> Panic" for x u
    by (cases x) (auto simp: validateEntry_def go_bind_eq_Panic)
  then have "go_for (validateEntry c) xs u \<noteq> Panic" for xs u by (rule go_for_not_Panic)
  moreover have "ParseScope x \<noteq> Panic" for x by (simp add: ParseScope_def)
  ultimately show ?thesis by (simp add: validate_def go_bind_eq_Panic)
qed

lemma applyDefaults_not_Panic: "applyDefaults c \<noteq> Panic"
proof -
  have "resolveDelay mp \<noteq> Panic" for mp
    by (auto simp: resolveDelay_def split: option.split)
  moreover have "rejectSchemaRef x u \<noteq> Panic" for x u by (cases x) (simp add: rejectSchemaRef_entry)
  then have "go_for rejectSchemaRef xs u \<noteq> Panic" for xs u by (rule go_for_not_Panic)
  moreover have "addSchema x m \<noteq> Panic" for x m
    by (cases x) (auto simp: addSchema_entry go_bind_eq_Panic NewSchema_not_Panic)
  then have "go_for addSchema xs m \<noteq> Panic" for xs m by (rule go_for_not_Panic)
  moreover have "resolveEntry m x done \<noteq> Panic" for m x "done"
    by (cases x) (auto simp: resolveEntry_entry split: option.split)
  then have "go_for (resolveEntry m) xs done \<noteq> Panic" for m xs "done" by (rule go_for_not_Panic)
  ultimately show ?thesis by (simp add: applyDefaults_def go_bind_eq_Panic Let_def)
qed


section \<open>Defaults\<close>

text \<open>What \<open>yaml.Unmarshal\<close> leaves zero: fields tagged "-" and unexported fields.\<close>

definition unresolved :: "Config \<Rightarrow> bool" where
  "unresolved c \<longleftrightarrow> EncryptionKey (MPubsub c) = None \<and> (\<forall>b\<in>set (Bridges c). schemaPtr b = None)"

definition defaulted :: "Config \<Rightarrow> bool" where
  "defaulted c \<longleftrightarrow>
     ClientID (MQTT c) \<noteq> '''' \<and> Port (MPubsub c) \<noteq> 0 \<and> Scope (MPubsub c) \<noteq> '''' \<and>
     Hops (MPubsub c) \<noteq> 0 \<and> RetransmitCount (MPubsub c) \<noteq> 0 \<and> 0 \<le> RetransmitDelay (MPubsub c) \<and>
     EncryptionKey (MPubsub c) =
       (if Key (Encryption (MPubsub c)) = '''' then None
        else Some (DeriveKey (Key (Encryption (MPubsub c))))) \<and>
     (\<forall>b\<in>set (Bridges c). case schemaPtr b of
        None \<Rightarrow> SchemaRef b = ''''
      | Some s \<Rightarrow> JSONTranslation c \<and> schema_wf s \<and> ID s = SchemaRef b)"

lemma defaultScalars_simps [simp]:
  "Schemas (defaultScalars c) = Schemas c" "Bridges (defaultScalars c) = Bridges c"
  "JSONTranslation (defaultScalars c) = JSONTranslation c"
  "EncryptionKey (MPubsub (defaultScalars c)) = EncryptionKey (MPubsub c)"
  "RetransmitDelayRaw (MPubsub (defaultScalars c)) = RetransmitDelayRaw (MPubsub c)"
  "Encryption (MPubsub (defaultScalars c)) = Encryption (MPubsub c)"
  by (simp_all add: defaultScalars_def Let_def)

lemma defaultScalars_nonzero:
  "ClientID (MQTT (defaultScalars c)) \<noteq> ''''" "Port (MPubsub (defaultScalars c)) \<noteq> 0"
  "Scope (MPubsub (defaultScalars c)) \<noteq> ''''" "Hops (MPubsub (defaultScalars c)) \<noteq> 0"
  "RetransmitCount (MPubsub (defaultScalars c)) \<noteq> 0"
  by (simp_all add: defaultScalars_def Let_def)

lemma resolveDelay_nonneg: "resolveDelay mp = Ret d \<Longrightarrow> 0 \<le> d"
  by (auto simp: resolveDelay_def duration_consts split: if_splits option.splits)

lemma withDelayAndKey_simps [simp]:
  "Schemas (withDelayAndKey c d) = Schemas c" "Bridges (withDelayAndKey c d) = Bridges c"
  "JSONTranslation (withDelayAndKey c d) = JSONTranslation c"
  "RetransmitDelay (MPubsub (withDelayAndKey c d)) = d"
  "MQTT (withDelayAndKey c d) = MQTT (defaultScalars c)"
  "Encryption (MPubsub (withDelayAndKey c d)) = Encryption (MPubsub c)"
  by (simp_all add: withDelayAndKey_def Let_def)

lemma withDelayAndKey_mpubsub:
  "Port (MPubsub (withDelayAndKey c d)) = Port (MPubsub (defaultScalars c))"
  "Scope (MPubsub (withDelayAndKey c d)) = Scope (MPubsub (defaultScalars c))"
  "Hops (MPubsub (withDelayAndKey c d)) = Hops (MPubsub (defaultScalars c))"
  "RetransmitCount (MPubsub (withDelayAndKey c d)) = RetransmitCount (MPubsub (defaultScalars c))"
  "EncryptionKey (MPubsub (withDelayAndKey c d)) =
     (if Key (Encryption (MPubsub c)) \<noteq> '''' then Some (DeriveKey (Key (Encryption (MPubsub c))))
      else EncryptionKey (MPubsub c))"
  by (simp_all add: withDelayAndKey_def Let_def)

lemma applyDefaults_Ret:
  "applyDefaults c = Ret c' \<longleftrightarrow>
    (\<exists>d. resolveDelay (MPubsub (defaultScalars c)) = Ret d \<and>
      (if JSONTranslation c
       then \<exists>m. go_for addSchema (enumerate 0 (Schemas c)) Map.empty = Ret m \<and>
          (\<forall>b\<in>set (Bridges c). SchemaRef b = '''' \<or> m (SchemaRef b) \<noteq> None) \<and>
          c' = (withDelayAndKey c d)\<lparr>schemasByID := m, Bridges := map (with_schema m) (Bridges c)\<rparr>
       else Schemas c = [] \<and> (\<forall>b\<in>set (Bridges c). SchemaRef b = '''') \<and> c' = withDelayAndKey c d))"
  unfolding applyDefaults_def Let_def
  by (cases "JSONTranslation c") (auto simp: go_bind_eq_Ret resolveEntries rejectSchemaRefs)

lemma applyDefaults_defaulted:
  assumes "unresolved c" "applyDefaults c = Ret c'"
  shows "defaulted c'"
proof -
  obtain d where d: "resolveDelay (MPubsub (defaultScalars c)) = Ret d"
    using assms(2) by (auto simp: applyDefaults_Ret)
  have base: "ClientID (MQTT c0) \<noteq> '''' \<and> Port (MPubsub c0) \<noteq> 0 \<and> Scope (MPubsub c0) \<noteq> '''' \<and>
     Hops (MPubsub c0) \<noteq> 0 \<and> RetransmitCount (MPubsub c0) \<noteq> 0 \<and> 0 \<le> RetransmitDelay (MPubsub c0) \<and>
     EncryptionKey (MPubsub c0) = (if Key (Encryption (MPubsub c0)) = '''' then None
        else Some (DeriveKey (Key (Encryption (MPubsub c0)))))"
    if "c0 = withDelayAndKey c d" for c0
    using that defaultScalars_nonzero [of c] resolveDelay_nonneg [OF d] assms(1)
    by (simp add: withDelayAndKey_mpubsub unresolved_def)
  show ?thesis
  proof (cases "JSONTranslation c")
    case True
    then obtain m where m: "go_for addSchema (enumerate 0 (Schemas c)) Map.empty = Ret m"
        "\<forall>b\<in>set (Bridges c). SchemaRef b = '''' \<or> m (SchemaRef b) \<noteq> None"
        "c' = (withDelayAndKey c d)\<lparr>schemasByID := m, Bridges := map (with_schema m) (Bridges c)\<rparr>"
      using assms(2) d by (auto simp: applyDefaults_Ret)
    have "schema_wf s \<and> ID s = n" if "m n = Some s" for n s
      using addSchemas [OF m(1)] that by simp
    then show ?thesis
      using base [OF refl] m(2,3) True assms(1)
      by (auto simp: defaulted_def with_schema_def unresolved_def)
  next
    case False
    then have "c' = withDelayAndKey c d" "\<forall>b\<in>set (Bridges c). SchemaRef b = ''''"
      using assms(2) d by (auto simp: applyDefaults_Ret)
    then show ?thesis using base [OF refl] assms(1) by (auto simp: defaulted_def unresolved_def)
  qed
qed

section \<open>Loading\<close>

lemma defaultScalars_idem:
  assumes "ClientID (MQTT c) \<noteq> ''''" "Port (MPubsub c) \<noteq> 0" "Scope (MPubsub c) \<noteq> ''''"
    "Hops (MPubsub c) \<noteq> 0" "RetransmitCount (MPubsub c) \<noteq> 0"
  shows "defaultScalars c = c"
  using assms by (simp add: defaultScalars_def)

lemma withDelayAndKey_idem:
  assumes "defaultScalars c = c" "RetransmitDelay (MPubsub c) = d"
    "Key (Encryption (MPubsub c)) \<noteq> '''' \<Longrightarrow>
       EncryptionKey (MPubsub c) = Some (DeriveKey (Key (Encryption (MPubsub c))))"
  shows "withDelayAndKey c d = c"
  using assms by (simp add: withDelayAndKey_def Let_def)

lemma LoadConfig_no_panic: "LoadConfig readFile unmarshal path \<noteq> Panic"
  by (auto simp: LoadConfig_def go_bind_eq_Panic applyDefaults_not_Panic validate_not_Panic split: option.split)

lemma LoadConfig_loaded:
  assumes "\<forall>data c. unmarshal data = Some c \<longrightarrow> unresolved c" "LoadConfig readFile unmarshal path = Ret c"
  shows "validated c \<and> defaulted c"
proof -
  obtain data c0 where c: "unmarshal data = Some c0" "applyDefaults c0 = Ret c" "validate c = Ret ()"
    using assms(2) by (auto simp: LoadConfig_def go_bind_eq_Ret split: option.splits)
  then show ?thesis using applyDefaults_defaulted [OF _ c(2)] assms(1) by (auto simp: validate_Ret)
qed

text \<open>The file's settings, with the documented defaults where it is silent; entries gain only their schema.\<close>

definition filled_in :: "Config \<Rightarrow> Config \<Rightarrow> bool" where
  "filled_in c0 c \<longleftrightarrow>
     (let mq = MQTT c0; mp = MPubsub c0; mp' = MPubsub c in
      MQTT c = mq\<lparr>ClientID := if ClientID mq = '''' then ''mpubsub-bridge'' else ClientID mq\<rparr> \<and>
      Port mp' = (if Port mp = 0 then 18512 else Port mp) \<and>
      Scope mp' = (if Scope mp = '''' then ''link-local'' else Scope mp) \<and>
      Hops mp' = (if Hops mp = 0 then 1 else Hops mp) \<and>
      RetransmitCount mp' = (if RetransmitCount mp = 0 then 1 else RetransmitCount mp) \<and>
      (if RetransmitDelayRaw mp = '''' then RetransmitDelay mp' = 100000000
       else parse_duration (RetransmitDelayRaw mp) = Some (RetransmitDelay mp')) \<and>
      Interface mp' = Interface mp \<and> PromoteQoS mp' = PromoteQoS mp \<and>
      JSONTranslation c = JSONTranslation c0 \<and>
      map (\<lambda>e. e\<lparr>schemaPtr := None\<rparr>) (Bridges c) = Bridges c0)"

lemma withDelayAndKey_filled_in:
  assumes "resolveDelay (MPubsub (defaultScalars c)) = Ret d" "unresolved c"
  shows "filled_in c (withDelayAndKey c d)"
proof -
  have "map (\<lambda>e. e\<lparr>schemaPtr := None\<rparr>) (Bridges c) = Bridges c"
    using assms(2) by (intro map_idI) (simp add: unresolved_def)
  moreover have "if RetransmitDelayRaw (MPubsub c) = '''' then d = 100000000
      else parse_duration (RetransmitDelayRaw (MPubsub c)) = Some d"
    using assms(1) by (auto simp: resolveDelay_def duration_consts split: if_splits option.splits)
  ultimately show ?thesis
    by (simp add: filled_in_def Let_def withDelayAndKey_def defaultScalars_def)
qed

lemma applyDefaults_filled_in:
  assumes "unresolved c" "applyDefaults c = Ret c'"
  shows "filled_in c c'"
proof -
  obtain d where d: "resolveDelay (MPubsub (defaultScalars c)) = Ret d"
      "c' = withDelayAndKey c d \<or>
       (\<exists>m. c' = (withDelayAndKey c d)\<lparr>schemasByID := m, Bridges := map (with_schema m) (Bridges c)\<rparr>)"
    using assms(2) unfolding applyDefaults_Ret by (cases "JSONTranslation c") auto
  have "(with_schema m e)\<lparr>schemaPtr := None\<rparr> = e\<lparr>schemaPtr := None\<rparr>" for m e
    by (simp add: with_schema_def)
  then have "filled_in c ((withDelayAndKey c d)\<lparr>schemasByID := m, Bridges := map (with_schema m) (Bridges c)\<rparr>) =
      filled_in c (withDelayAndKey c d)" for m
    by (simp add: filled_in_def Let_def comp_def)
  then show ?thesis using withDelayAndKey_filled_in [OF d(1) assms(1)] d(2) by auto
qed


definition demo_config :: Config where
  "demo_config =
     \<lparr>MQTT = \<lparr>Broker = ''tcp://b:1883'', ClientID = '''', Username = '''', Password = '''', QoS = 0,
              Retain = False\<rparr>,
      MPubsub = \<lparr>Port = 0, Scope = '''', Hops = 0, Interface = '''', RetransmitCount = 0,
              RetransmitDelayRaw = ''0s'', RetransmitDelay = 0, PromoteQoS = True,
              Encryption = \<lparr>Key = ''''\<rparr>, EncryptionKey = None\<rparr>,
      Schemas = [],
      Bridges = [\<lparr>Direction = ''mqtt_to_mpubsub'', MQTTTopic = ''a'', MPubsubTopic = '''',
                  RequireEncryption = False, SchemaRef = '''', schemaPtr = None\<rparr>],
      JSONTranslation = False, schemasByID = Map.empty\<rparr>"

definition demo_loaded :: Config where
  "demo_loaded = withDelayAndKey demo_config 0"

lemma demo_loaded: "applyDefaults demo_config = Ret demo_loaded" "validate demo_loaded = Ret ()"
proof -
  show "applyDefaults demo_config = Ret demo_loaded"
    by (simp add: applyDefaults_Ret demo_loaded_def resolveDelay_def)
      (simp add: demo_config_def parse_duration_examples)
  show "validate demo_loaded = Ret ()"
    unfolding validate_Ret
    by (simp add: validated_def demo_loaded_def demo_config_def withDelayAndKey_def defaultScalars_def
        entry_valid_def dir_consts)
qed


text \<open>
  C27. What validate accepts, in full: it never panics, and accepts exactly the configurations with a
  broker, one of the four scope names or none, 1 to 255 hops, a retransmit count of 1 to 255 or of -1
  with a delay of at least a second, and at least one entry, where each entry has an MQTT topic and one
  of the two directions; an mpubsub_to_mqtt entry has an mpubsub topic without wildcards; and
  require_encryption is set only on such an entry and only with a key.  On mqtt_to_mpubsub entries the
  mpubsub topic is not looked at, so wildcards there are accepted.
\<close>

theorem validate_accepts_iff:
  "validate c \<noteq> Panic \<and>
   (validate c = Ret () \<longleftrightarrow>
     Broker (MQTT c) \<noteq> '''' \<and>
     Scope (MPubsub c) \<in> {'''', ''link-local'', ''site-local'', ''organization-local'', ''org-local''} \<and>
     1 \<le> Hops (MPubsub c) \<and> Hops (MPubsub c) \<le> 255 \<and>
     (RetransmitCount (MPubsub c) = -1 \<and> 1000000000 \<le> RetransmitDelay (MPubsub c) \<or>
      1 \<le> RetransmitCount (MPubsub c) \<and> RetransmitCount (MPubsub c) \<le> 255) \<and>
     Bridges c \<noteq> [] \<and>
     (\<forall>e\<in>set (Bridges c).
        MQTTTopic e \<noteq> '''' \<and>
        (Direction e = ''mqtt_to_mpubsub'' \<or>
         Direction e = ''mpubsub_to_mqtt'' \<and> MPubsubTopic e \<noteq> '''' \<and>
           CHR ''+'' \<notin> set (MPubsubTopic e) \<and> CHR ''#'' \<notin> set (MPubsubTopic e)) \<and>
        (RequireEncryption e \<longrightarrow> Direction e = ''mpubsub_to_mqtt'' \<and>
           (\<exists>k. EncryptionKey (MPubsub c) = Some k \<and> k \<noteq> []))))"
  using validate_not_Panic [of c] validate_Ret [of c "()"]
  by (simp add: validated_def entry_valid_def duration_consts dir_consts)

theorem validate_accepts_iff_witness:
  "validate (demo_loaded\<lparr>Bridges := map (\<lambda>e. e\<lparr>MPubsubTopic := ''home/+''\<rparr>) (Bridges demo_loaded)\<rparr>) = Ret () \<and>
   validate (demo_loaded\<lparr>Bridges := map (\<lambda>e. e\<lparr>Direction := ''mpubsub_to_mqtt'', MPubsubTopic := ''home/+''\<rparr>)
     (Bridges demo_loaded)\<rparr>) \<noteq> Ret ()"
  using validate_accepts_iff [of "demo_loaded\<lparr>Bridges := map (\<lambda>e. e\<lparr>MPubsubTopic := ''home/+''\<rparr>) (Bridges demo_loaded)\<rparr>"]
    validate_accepts_iff [of "demo_loaded\<lparr>Bridges := map (\<lambda>e. e\<lparr>Direction := ''mpubsub_to_mqtt'',
      MPubsubTopic := ''home/+''\<rparr>) (Bridges demo_loaded)\<rparr>"]
  by (simp add: demo_loaded_def demo_config_def withDelayAndKey_def defaultScalars_def Let_def)

text \<open>
  Applying the defaults a second time changes nothing.
\<close>

theorem applyDefaults_idempotent:
  assumes "applyDefaults c = Ret c'"
  shows "applyDefaults c' = Ret c'"
proof -
  obtain d where d: "resolveDelay (MPubsub (defaultScalars c)) = Ret d"
      and c': "c' = withDelayAndKey c d \<or>
        (\<exists>m. c' = (withDelayAndKey c d)\<lparr>schemasByID := m, Bridges := map (with_schema m) (Bridges c)\<rparr>)"
    using assms by (auto simp: applyDefaults_Ret split: if_splits)
  have mp: "MPubsub c' = MPubsub (withDelayAndKey c d)" "MQTT c' = MQTT (withDelayAndKey c d)"
    using c' by auto
  have idem: "defaultScalars c' = c'"
    using defaultScalars_nonzero [of c]
    by (intro defaultScalars_idem) (simp_all add: mp withDelayAndKey_mpubsub)
  have key: "withDelayAndKey c' d = c'"
    by (rule withDelayAndKey_idem [OF idem]) (simp_all add: mp withDelayAndKey_mpubsub)
  have "resolveDelay (MPubsub c') = Ret d"
    using d by (simp add: mp resolveDelay_def withDelayAndKey_def Let_def split: if_splits option.splits)
  then have d': "resolveDelay (MPubsub (defaultScalars c')) = Ret e \<longleftrightarrow> e = d" for e
    by (auto simp: idem)
  show ?thesis
  proof (cases "JSONTranslation c")
    case True
    then obtain m where m: "go_for addSchema (enumerate 0 (Schemas c)) Map.empty = Ret m"
        "\<forall>b\<in>set (Bridges c). SchemaRef b = '''' \<or> m (SchemaRef b) \<noteq> None"
        "c' = (withDelayAndKey c d)\<lparr>schemasByID := m, Bridges := map (with_schema m) (Bridges c)\<rparr>"
      using assms d by (auto simp: applyDefaults_Ret)
    then have f: "JSONTranslation c'" "Schemas c' = Schemas c"
        "Bridges c' = map (with_schema m) (Bridges c)"
      using True by simp_all
    have "c'\<lparr>schemasByID := m, Bridges := map (with_schema m) (Bridges c')\<rparr> = c'"
      by (simp add: m(3) comp_def)
    moreover have "\<forall>b\<in>set (Bridges c'). SchemaRef b = '''' \<or> m (SchemaRef b) \<noteq> None"
      using m(2) by (simp add: f(3))
    moreover have "go_for addSchema (enumerate 0 (Schemas c')) Map.empty = Ret m"
      using m(1) by (simp only: f(2))
    ultimately have "\<exists>m. go_for addSchema (enumerate 0 (Schemas c')) Map.empty = Ret m \<and>
        (\<forall>b\<in>set (Bridges c'). SchemaRef b = '''' \<or> m (SchemaRef b) \<noteq> None) \<and>
        c' = (withDelayAndKey c' d)\<lparr>schemasByID := m, Bridges := map (with_schema m) (Bridges c')\<rparr>"
      unfolding key by (intro exI [of _ m] conjI) simp_all
    then show ?thesis
      unfolding applyDefaults_Ret d' if_P [OF f(1)] by (intro exI [of _ d] conjI refl)
  next
    case False
    then have c: "Schemas c = []" "\<forall>b\<in>set (Bridges c). SchemaRef b = ''''" "c' = withDelayAndKey c d"
      using assms d by (auto simp: applyDefaults_Ret)
    then have f: "\<not> JSONTranslation c'" "Schemas c' = []" "\<forall>b\<in>set (Bridges c'). SchemaRef b = ''''"
      using False by simp_all
    show ?thesis
      unfolding applyDefaults_Ret d' if_not_P [OF f(1)]
      by (intro exI [of _ d] conjI refl f(2,3) key [symmetric])
  qed
qed

theorem applyDefaults_idempotent_witness:
  "\<exists>c. applyDefaults demo_config = Ret c \<and> applyDefaults c = Ret c"
  using applyDefaults_idempotent [OF demo_loaded(1)] demo_loaded(1) by blast

end
