(* ===== verification/Retransmit.thy ===== *)
theory Retransmit
  imports Routing Json_Proto Wire_Props Config_Props
begin

text \<open>
  \<open>bridges/mqtt-go/bridge.go\<close>: the sending half.  \<open>handleMQTTMessage\<close> encodes an MQTT message, sends the
  datagram once and starts its retransmissions, which run on goroutines of their own: a bounded chain
  (\<open>scheduleFiniteRetransmits\<close>) or an unbounded one that a later publish on the same topic cancels
  through a channel (\<open>startIndefinite\<close>, \<open>cancelIndefinite\<close>, table \<open>indefiniteJobs\<close>).  Shutdown
  (\<open>Run\<close>) cancels the unbounded chains and closes the socket.

  The goroutines are modelled by a step relation.  A step is what one goroutine does between two points
  where another can run: a critical section under \<open>indefiniteMu\<close>, one send, one choice of a \<open>select\<close>.
  The MQTT client calls the handlers one after the other (its default, \<open>OrderMatters\<close>), so there is one
  handler at a time; everything else interleaves freely.
\<close>

section \<open>Encoding a message for the bus\<close>

datatype handle_error = JSONToProtoFailed json_error | EncodePacketFailed wire_error

definition encodeForBus :: "go_arch \<Rightarrow> map_order \<Rightarrow> Config \<Rightarrow> string \<Rightarrow> bytes \<Rightarrow> Schema option
    \<Rightarrow> (handle_error, bytes) outcome" where
  "encodeForBus arch mo c mpubsubTopic payload sch =
     go_bind
       (case sch of
          None \<Rightarrow> Ret (payload, encodingRaw)
        | Some s \<Rightarrow>
            go_bind (go_wrap JSONToProtoFailed (JSONToProto arch mo s payload)) (\<lambda>protoBody.
            let sid = SchemaID s in
            go_bind (go_make (2 + int (length protoBody))) (\<lambda>body.
            go_bind (go_set body 0 (ucast sid)) (\<lambda>body.
            go_bind (go_set body 1 (ucast (drop_bit 8 sid))) (\<lambda>body.
            go_bind (go_copy body 2 protoBody) (\<lambda>body.
            Ret (body, encodingProto)))))))
       (\<lambda>(body, encoding).
          go_wrap EncodePacketFailed
            (EncodePacket mpubsubTopic body encoding (EncryptionKey (MPubsub c))))"

definition effectiveRetransmitCount :: "MPubsubConfig \<Rightarrow> u8 \<Rightarrow> int" where
  "effectiveRetransmitCount mp qos =
     (let base = RetransmitCount mp in
      if \<not> PromoteQoS mp then base
      else if qos = 0 then base
      else if qos = 1 then (if base = -1 then -1 else if base < 3 then 3 else base)
      else -1)"


section \<open>State\<close>

text \<open>
  A message being published: its number in the order of arrival, the effective retransmit count, where
  it goes, its datagram.
\<close>

record job =
  msgid :: nat
  planned :: int
  jtopic :: string
  jgroup :: bytes
  jpkt :: bytes

text \<open>Where the handler of \<open>handleMQTTMessage\<close> is: before line 216, 217 and 226.\<close>

datatype handler = Idle | Cancelling job | Sending job | Starting job

text \<open>
  An indefinite goroutine owns the channel it was started with; it creates its ticker and then loops.
  A finite one remembers its loop counter and bound.
\<close>

datatype loop = NewGoroutine job | Ticking job
record chain = cjob :: job  next_send :: int  bound :: int

datatype run_phase = Serving | Drained | SocketClosed

text \<open>The two calls of this half that can panic: closing a closed channel, and a ticker without a delay.\<close>

datatype panic_reason = ClosedTwice | NonPositiveTicker

record engine =
  handler_at :: handler
  indefiniteJobs :: "string \<rightharpoonup> nat"
  closed_channels :: "nat set"
  next_channel :: nat
  loops :: "nat \<rightharpoonup> loop"
  chains :: "chain list"
  phase :: run_phase
  messages :: nat
  wire :: "job list"
  sock :: MulticastSocket
  panic :: "panic_reason option"

abbreviation panicked :: "engine \<Rightarrow> bool" where "panicked g \<equiv> panic g \<noteq> None"

text \<open>\<open>wire\<close> names the jobs whose datagrams the socket carried, in the order of the sends.\<close>

definition engine_init :: "MulticastSocket \<Rightarrow> engine" where
  "engine_init m = \<lparr>handler_at = Idle, indefiniteJobs = Map.empty, closed_channels = {}, next_channel = 0,
     loops = Map.empty, chains = [], phase = Serving, messages = 0, wire = [], sock = m, panic = None\<rparr>"

text \<open>\<open>close(ch)\<close> panics on a closed channel.\<close>

definition close_channel :: "nat \<Rightarrow> engine \<Rightarrow> engine" where
  "close_channel ch g =
     (if ch \<in> closed_channels g then g\<lparr>panic := Some ClosedTwice\<rparr>
      else g\<lparr>closed_channels := insert ch (closed_channels g)\<rparr>)"

definition cancelIndefinite :: "string \<Rightarrow> engine \<Rightarrow> engine" where
  "cancelIndefinite topic g =
     (case indefiniteJobs g topic of
        None \<Rightarrow> g
      | Some ch \<Rightarrow> (close_channel ch g)\<lparr>indefiniteJobs := (indefiniteJobs g)(topic := None)\<rparr>)"

definition startIndefinite :: "job \<Rightarrow> engine \<Rightarrow> engine" where
  "startIndefinite j g =
     (let cancel = next_channel g
      in g\<lparr>next_channel := cancel + 1,
           indefiniteJobs := (indefiniteJobs g)(jtopic j \<mapsto> cancel),
           loops := (loops g)(cancel \<mapsto> NewGoroutine j)\<rparr>)"

definition scheduleFiniteRetransmits :: "job \<Rightarrow> int \<Rightarrow> engine \<Rightarrow> engine" where
  "scheduleFiniteRetransmits j cnt g =
     g\<lparr>chains := chains g @ [\<lparr>cjob = j, next_send = 1, bound = cnt\<rparr>]\<rparr>"

text \<open>
  The loop at shutdown, \<open>for topic, ch := range b.indefiniteJobs\<close>: the entries in some order, each closed
  and deleted.
\<close>

definition drain_entry :: "string \<times> nat \<Rightarrow> engine \<Rightarrow> engine" where
  "drain_entry tc g =
     (close_channel (snd tc) g)\<lparr>indefiniteJobs := (indefiniteJobs g)(fst tc := None)\<rparr>"

definition drain :: "(string \<times> nat) list \<Rightarrow> engine \<Rightarrow> engine" where
  "drain = fold drain_entry"

definition record_send :: "job \<Rightarrow> MulticastSocket \<Rightarrow> engine \<Rightarrow> engine" where
  "record_send j m g = g\<lparr>wire := wire g @ [j], sock := m\<rparr>"

text \<open>\<open>b.mcast.SendTo(group, pkt)\<close>, answered by some operating system that refuses a closed socket.\<close>

definition refuses_closed :: "os_calls \<Rightarrow> bool" where
  "refuses_closed os \<longleftrightarrow> (\<forall>c g p d. closed c \<longrightarrow> \<not> writeTo os c g p d)"

definition sent_by :: "job \<Rightarrow> MulticastSocket \<Rightarrow> MulticastSocket \<Rightarrow> bool" where
  "sent_by j m m' \<longleftrightarrow> (\<exists>os. refuses_closed os \<and> SendTo os (jgroup j) (jpkt j) m = Some m')"

definition send_fails :: "job \<Rightarrow> MulticastSocket \<Rightarrow> bool" where
  "send_fails j m \<longleftrightarrow> (\<exists>os. refuses_closed os \<and> SendTo os (jgroup j) (jpkt j) m = None)"

text \<open>The last part of the handler, after the first send.\<close>

definition startRetransmits :: "job \<Rightarrow> int \<Rightarrow> engine \<Rightarrow> engine" where
  "startRetransmits j cnt g =
     (if cnt = -1 then startIndefinite j g
      else if cnt > 1 then scheduleFiniteRetransmits j cnt g
      else g)"


section \<open>Steps\<close>

text \<open>
  \<open>Deliver\<close> is the handler of a subscription with the start of \<open>handleMQTTMessage\<close>: the client calls it for
  one of the subscriptions that \<open>Run\<close> made (\<open>configured_subs\<close>, lemma \<open>started_tables\<close>), and it works on the entry
  that it closes over.  A message that does not encode is dropped.  A send
  may fail at any time, and fails on a closed socket.
\<close>

inductive step :: "go_arch \<Rightarrow> map_order \<Rightarrow> Config \<Rightarrow> u8 \<Rightarrow> engine \<Rightarrow> engine \<Rightarrow> bool"
  for arch :: go_arch and mo :: map_order and c :: Config and sc :: u8
where
  Deliver: "\<not> panicked g \<Longrightarrow> handler_at g = Idle \<Longrightarrow>
    sub \<in> set (configured_subs c (Bridges c)) \<Longrightarrow> e = subEntry sub \<Longrightarrow> topic = busTopic e msgTopic \<Longrightarrow>
    encodeForBus arch mo c topic payload (schemaPtr e) = Ret pkt \<Longrightarrow>
    step arch mo c sc g (g\<lparr>messages := messages g + 1, handler_at := Cancelling
      \<lparr>msgid = messages g, planned = effectiveRetransmitCount (MPubsub c) qos,
       jtopic = topic, jgroup = TopicToGroup topic sc, jpkt = pkt\<rparr>\<rparr>)"
| Cancel: "\<not> panicked g \<Longrightarrow> handler_at g = Cancelling j \<Longrightarrow>
    step arch mo c sc g ((cancelIndefinite (jtopic j) g)\<lparr>handler_at := Sending j\<rparr>)"
| FirstSend: "\<not> panicked g \<Longrightarrow> handler_at g = Sending j \<Longrightarrow> sent_by j (sock g) m \<Longrightarrow>
    step arch mo c sc g ((record_send j m g)\<lparr>handler_at := Starting j\<rparr>)"
| FirstSendFailed: "\<not> panicked g \<Longrightarrow> handler_at g = Sending j \<Longrightarrow> send_fails j (sock g) \<Longrightarrow>
    step arch mo c sc g (g\<lparr>handler_at := Idle\<rparr>)"
| StartRetransmits: "\<not> panicked g \<Longrightarrow> handler_at g = Starting j \<Longrightarrow>
    step arch mo c sc g ((startRetransmits j (planned j) g)\<lparr>handler_at := Idle\<rparr>)"
| NewTicker: "\<not> panicked g \<Longrightarrow> loops g ch = Some (NewGoroutine j) \<Longrightarrow> RetransmitDelay (MPubsub c) > 0 \<Longrightarrow>
    step arch mo c sc g (g\<lparr>loops := (loops g)(ch \<mapsto> Ticking j)\<rparr>)"
| NewTickerPanic: "\<not> panicked g \<Longrightarrow> loops g ch = Some (NewGoroutine j) \<Longrightarrow> RetransmitDelay (MPubsub c) \<le> 0 \<Longrightarrow>
    step arch mo c sc g (g\<lparr>panic := Some NonPositiveTicker\<rparr>)"
| Tick: "\<not> panicked g \<Longrightarrow> loops g ch = Some (Ticking j) \<Longrightarrow> sent_by j (sock g) m \<Longrightarrow>
    step arch mo c sc g (record_send j m g)"
| TickFailed: "\<not> panicked g \<Longrightarrow> loops g ch = Some (Ticking j) \<Longrightarrow> send_fails j (sock g) \<Longrightarrow>
    step arch mo c sc g g"
| LoopExit: "\<not> panicked g \<Longrightarrow> loops g ch = Some (Ticking j) \<Longrightarrow> ch \<in> closed_channels g \<Longrightarrow>
    step arch mo c sc g (g\<lparr>loops := (loops g)(ch := None)\<rparr>)"
| ChainSend: "\<not> panicked g \<Longrightarrow> chains g = xs @ x # ys \<Longrightarrow> next_send x < bound x \<Longrightarrow> sent_by (cjob x) (sock g) m \<Longrightarrow>
    step arch mo c sc g ((record_send (cjob x) m g)\<lparr>chains := xs @ x\<lparr>next_send := next_send x + 1\<rparr> # ys\<rparr>)"
| ChainSendFailed: "\<not> panicked g \<Longrightarrow> chains g = xs @ x # ys \<Longrightarrow> next_send x < bound x \<Longrightarrow>
    send_fails (cjob x) (sock g) \<Longrightarrow>
    step arch mo c sc g (g\<lparr>chains := xs @ ys\<rparr>)"
| ChainDone: "\<not> panicked g \<Longrightarrow> chains g = xs @ x # ys \<Longrightarrow> \<not> next_send x < bound x \<Longrightarrow>
    step arch mo c sc g (g\<lparr>chains := xs @ ys\<rparr>)"
| Drain: "\<not> panicked g \<Longrightarrow> phase g = Serving \<Longrightarrow> distinct (map fst es) \<Longrightarrow> map_of es = indefiniteJobs g \<Longrightarrow>
    step arch mo c sc g ((drain es g)\<lparr>phase := Drained\<rparr>)"
| CloseSocket: "\<not> panicked g \<Longrightarrow> phase g = Drained \<Longrightarrow> step arch mo c sc g (g\<lparr>phase := SocketClosed, sock := Close (sock g)\<rparr>)"

inductive reachable :: "go_arch \<Rightarrow> map_order \<Rightarrow> Config \<Rightarrow> u8 \<Rightarrow> engine \<Rightarrow> bool"
  for arch :: go_arch and mo :: map_order and c :: Config and sc :: u8
where
  start: "\<not> closed (conn m) \<Longrightarrow> sent (conn m) = [] \<Longrightarrow> reachable arch mo c sc (engine_init m)"
| more: "reachable arch mo c sc g \<Longrightarrow> step arch mo c sc g g' \<Longrightarrow> reachable arch mo c sc g'"

inductive_cases stepE: "step arch mo c sc g g'"

lemmas engine_ops = cancelIndefinite_def startIndefinite_def scheduleFiniteRetransmits_def
  close_channel_def record_send_def startRetransmits_def drain_entry_def


section \<open>Who owns a channel\<close>

fun job_of :: "loop \<Rightarrow> job" where
  "job_of (NewGoroutine j) = j"
| "job_of (Ticking j) = j"

text \<open>
  The table \<open>J\<close> lists exactly the loops \<open>L\<close> whose channel is not among the closed ones \<open>C\<close>, each under
  its topic; channels from \<open>n\<close> on are fresh.
\<close>

definition table_ok :: "(string \<rightharpoonup> nat) \<Rightarrow> nat set \<Rightarrow> nat \<Rightarrow> (nat \<rightharpoonup> loop) \<Rightarrow> bool" where
  "table_ok J C n L \<longleftrightarrow>
     (\<forall>t ch. J t = Some ch \<longleftrightarrow> ch \<notin> C \<and> (\<exists>l. L ch = Some l \<and> jtopic (job_of l) = t)) \<and>
     (\<forall>ch. L ch \<noteq> None \<or> ch \<in> C \<longrightarrow> ch < n)"

lemma table_iff: "table_ok J C n L \<Longrightarrow> J t = Some ch \<longleftrightarrow> ch \<notin> C \<and> (\<exists>l. L ch = Some l \<and> jtopic (job_of l) = t)"
  by (simp add: table_ok_def)

lemma table_fresh: "table_ok J C n L \<Longrightarrow> n \<le> ch \<Longrightarrow> L ch = None \<and> ch \<notin> C"
  by (auto simp: table_ok_def)

lemma table_close:
  assumes ok: "table_ok J C n L" and ch: "J t = Some ch"
  shows "table_ok (J(t := None)) (insert ch C) n L"
proof -
  have "(J(t := None)) t' = Some ch' \<longleftrightarrow>
      ch' \<notin> insert ch C \<and> (\<exists>l. L ch' = Some l \<and> jtopic (job_of l) = t')" for t' ch'
    using table_iff [OF ok, of t ch] table_iff [OF ok, of t ch'] table_iff [OF ok, of t' ch'] ch by auto
  moreover have "ch < n" using table_iff [OF ok, of t ch] ch ok by (auto simp: table_ok_def)
  ultimately show ?thesis using ok by (simp add: table_ok_def)
qed

lemma table_start:
  assumes ok: "table_ok J C n L" and free: "J (jtopic j) = None"
  shows "table_ok (J(jtopic j \<mapsto> n)) C (Suc n) (L(n \<mapsto> NewGoroutine j))"
proof -
  note new = table_fresh [OF ok order_refl]
  have "(J(jtopic j \<mapsto> n)) t = Some ch \<longleftrightarrow>
      ch \<notin> C \<and> (\<exists>l. (L(n \<mapsto> NewGoroutine j)) ch = Some l \<and> jtopic (job_of l) = t)" for t ch
    using table_iff [OF ok, of t ch] new free by (cases "ch = n"; cases "t = jtopic j") auto
  then show ?thesis using ok by (auto simp: table_ok_def less_Suc_eq)
qed

lemma table_ticking:
  assumes "table_ok J C n L" "L ch = Some (NewGoroutine j)"
  shows "table_ok J C n (L(ch \<mapsto> Ticking j))"
  using assms by (auto simp: table_ok_def)

lemma table_exit:
  assumes "table_ok J C n L" "ch \<in> C"
  shows "table_ok J C n (L(ch := None))"
  using assms by (auto simp: table_ok_def)

text \<open>The invariant: an exact table, and no entry for a topic the handler is about to start.\<close>

definition channels_ok :: "engine \<Rightarrow> bool" where
  "channels_ok g \<longleftrightarrow>
     table_ok (indefiniteJobs g) (closed_channels g) (next_channel g) (loops g) \<and>
     (\<forall>j. handler_at g \<in> {Sending j, Starting j} \<longrightarrow> indefiniteJobs g (jtopic j) = None)"

lemma cancelIndefinite_ok:
  assumes "table_ok (indefiniteJobs g) (closed_channels g) (next_channel g) (loops g)"
  shows "let g' = cancelIndefinite t g in
    table_ok (indefiniteJobs g') (closed_channels g') (next_channel g') (loops g') \<and>
    panic g' = panic g \<and> indefiniteJobs g' = (indefiniteJobs g)(t := None) \<and>
    loops g' = loops g \<and> closed_channels g \<subseteq> closed_channels g'"
proof (cases "indefiniteJobs g t")
  case None
  then show ?thesis using assms by (simp add: cancelIndefinite_def fun_upd_idem)
next
  case (Some ch)
  then have "ch \<notin> closed_channels g" using table_iff [OF assms] by blast
  then show ?thesis
    using table_close [OF assms Some] by (auto simp: cancelIndefinite_def close_channel_def Some Let_def)
qed

lemma drain_ok:
  assumes "table_ok (indefiniteJobs g) (closed_channels g) (next_channel g) (loops g)"
    and "distinct (map fst es)" "\<forall>(t, ch)\<in>set es. indefiniteJobs g t = Some ch"
  shows "let g' = drain es g in
    table_ok (indefiniteJobs g') (closed_channels g') (next_channel g') (loops g') \<and>
    panic g' = panic g \<and> handler_at g' = handler_at g \<and> loops g' = loops g \<and>
    indefiniteJobs g' = (\<lambda>t. if t \<in> fst ` set es then None else indefiniteJobs g t)"
  using assms
proof (induction es arbitrary: g)
  case Nil
  then show ?case by (simp add: drain_def)
next
  case (Cons tc es)
  obtain t ch where tc: "tc = (t, ch)" by (cases tc)
  then have j: "indefiniteJobs g t = Some ch" using Cons.prems(3) by simp
  then have "ch \<notin> closed_channels g" using table_iff [OF Cons.prems(1)] by blast
  then have d: "drain_entry (t, ch) g =
      g\<lparr>closed_channels := insert ch (closed_channels g), indefiniteJobs := (indefiniteJobs g)(t := None)\<rparr>"
    by (simp add: drain_entry_def close_channel_def)
  have "fst e \<noteq> t" if "e \<in> set es" for e
    using that Cons.prems(2) by (auto simp: tc)
  then have reg: "\<forall>(t', ch')\<in>set es. indefiniteJobs (drain_entry (t, ch) g) t' = Some ch'"
    using Cons.prems(3) by (auto simp: d)
  have dist: "distinct (map fst es)" using Cons.prems(2) by simp
  have ok: "table_ok (indefiniteJobs (drain_entry (t, ch) g)) (closed_channels (drain_entry (t, ch) g))
      (next_channel (drain_entry (t, ch) g)) (loops (drain_entry (t, ch) g))"
    using table_close [OF Cons.prems(1) j] by (simp add: d)
  note ih = Cons.IH [OF ok dist reg]
  have "(\<lambda>t'. if t' \<in> fst ` set es then None else indefiniteJobs (drain_entry (t, ch) g) t') =
      (\<lambda>t'. if t' \<in> fst ` set (tc # es) then None else indefiniteJobs g t')"
    by (auto simp: d tc fun_eq_iff)
  moreover have "panic (drain_entry (t, ch) g) = panic g"
    "handler_at (drain_entry (t, ch) g) = handler_at g" "loops (drain_entry (t, ch) g) = loops g"
    by (simp_all add: d)
  moreover have "drain (tc # es) g = drain es (drain_entry (t, ch) g)" by (simp add: drain_def tc)
  ultimately show ?case using ih unfolding Let_def by metis
qed

lemma step_channels_ok:
  assumes "step arch mo c sc g g'" "channels_ok g"
  shows "channels_ok g'"
  using assms
proof cases
  case (Cancel j)
  then show ?thesis using assms(2) cancelIndefinite_ok [of g "jtopic j"] by (auto simp: channels_ok_def Let_def)
next
  case (StartRetransmits j)
  then show ?thesis using assms(2) table_start [of "indefiniteJobs g" _ _ _ j]
    by (auto simp: channels_ok_def startRetransmits_def startIndefinite_def scheduleFiniteRetransmits_def Let_def)
next
  case (Drain es)
  have "\<forall>(t, ch)\<in>set es. indefiniteJobs g t = Some ch"
    using Drain by (auto simp flip: Drain(5))
  from drain_ok [OF _ _ this] Drain assms(2) show ?thesis by (auto simp: channels_ok_def Let_def)
qed (auto simp: channels_ok_def record_send_def table_ticking table_exit)

lemma reachable_channels_ok: "reachable arch mo c sc g \<Longrightarrow> channels_ok g"
proof (induction rule: reachable.induct)
  case (start m)
  show ?case by (simp add: channels_ok_def table_ok_def engine_init_def)
qed (rule step_channels_ok)

end
