(* ===== verification/Retransmit_Jobs.thy ===== *)
theory Retransmit_Jobs
  imports Retransmit
begin

text \<open>
  Invariants of the retransmission engine (\<open>bridges/mqtt-go/bridge.go\<close>) about the messages in it: where
  they come from, that a message is in the hands of one goroutine at a time, and how often its datagram
  has been sent.
\<close>

section \<open>Where jobs are\<close>

fun handler_jobs :: "handler \<Rightarrow> job set" where
  "handler_jobs Idle = {}"
| "handler_jobs (Cancelling j) = {j}"
| "handler_jobs (Sending j) = {j}"
| "handler_jobs (Starting j) = {j}"

definition chain_jobs :: "engine \<Rightarrow> job set" where
  "chain_jobs g = cjob ` set (chains g)"

definition loop_jobs :: "engine \<Rightarrow> job set" where
  "loop_jobs g = job_of ` ran (loops g)"

definition all_jobs :: "engine \<Rightarrow> job set" where
  "all_jobs g = set (wire g) \<union> handler_jobs (handler_at g) \<union> chain_jobs g \<union> loop_jobs g"

lemmas jobs_defs = all_jobs_def chain_jobs_def loop_jobs_def

text \<open>What a job of a run was made from: a bridge entry, a payload and a QoS.\<close>

definition sourced :: "go_arch \<Rightarrow> map_order \<Rightarrow> Config \<Rightarrow> u8 \<Rightarrow> job \<Rightarrow> bool" where
  "sourced arch mo c sc j \<longleftrightarrow>
     (\<exists>e msgTopic payload qos. e \<in> set (Bridges c) \<and> from_mqtt e \<and> jtopic j = busTopic e msgTopic \<and>
        encodeForBus arch mo c (jtopic j) payload (schemaPtr e) = Ret (jpkt j) \<and>
        jgroup j = TopicToGroup (jtopic j) sc \<and>
        planned j = effectiveRetransmitCount (MPubsub c) qos)"

lemma loops_upd:
  "L ch = Some l \<Longrightarrow> job_of l' = job_of l \<Longrightarrow> job_of ` ran (L(ch \<mapsto> l')) = job_of ` ran L"
  by (auto simp: ran_def image_def split: if_splits) (metis option.inject)+

lemma loops_exit: "job_of ` ran (L(ch := None)) \<subseteq> job_of ` ran L"
  by (auto simp: ran_def split: if_splits)

lemma loops_new: "L n = None \<Longrightarrow> job_of ` ran (L(n \<mapsto> NewGoroutine j)) = insert j (job_of ` ran L)"
  by simp

lemma in_loop_jobs: "loops g ch = Some l \<Longrightarrow> job_of l \<in> loop_jobs g"
  by (auto simp: loop_jobs_def ranI)

lemma record_send_same [simp]:
  "handler_at (record_send j m g) = handler_at g" "chains (record_send j m g) = chains g"
  "loops (record_send j m g) = loops g" "messages (record_send j m g) = messages g"
  "wire (record_send j m g) = wire g @ [j]"
  by (simp_all add: record_send_def)

lemma cancelIndefinite_same [simp]:
  "handler_at (cancelIndefinite t g) = handler_at g" "chains (cancelIndefinite t g) = chains g"
  "wire (cancelIndefinite t g) = wire g" "loops (cancelIndefinite t g) = loops g"
  "messages (cancelIndefinite t g) = messages g" "phase (cancelIndefinite t g) = phase g"
  by (simp_all add: cancelIndefinite_def close_channel_def split: option.split)

lemma drain_same [simp]:
  "handler_at (drain es g) = handler_at g" "chains (drain es g) = chains g" "wire (drain es g) = wire g"
  "loops (drain es g) = loops g" "messages (drain es g) = messages g"
proof -
  have one: "handler_at (drain_entry tc g) = handler_at g \<and> chains (drain_entry tc g) = chains g \<and>
      wire (drain_entry tc g) = wire g \<and> loops (drain_entry tc g) = loops g \<and>
      messages (drain_entry tc g) = messages g" for tc g
    by (simp add: drain_entry_def close_channel_def)
  have "handler_at (drain es g) = handler_at g \<and> chains (drain es g) = chains g \<and>
      wire (drain es g) = wire g \<and> loops (drain es g) = loops g \<and> messages (drain es g) = messages g"
    unfolding drain_def by (induction es arbitrary: g) (simp_all add: one)
  then show "handler_at (drain es g) = handler_at g" "chains (drain es g) = chains g" "wire (drain es g) = wire g"
    "loops (drain es g) = loops g" "messages (drain es g) = messages g" by simp_all
qed

text \<open>A step moves jobs around; only a delivery makes a new one.\<close>

lemma step_jobs:
  assumes "step arch mo c sc g g'" "channels_ok g"
  shows "all_jobs g' \<subseteq> all_jobs g \<union> Collect (sourced arch mo c sc)"
  using assms
proof cases
  case (Deliver sub e topic msgTopic payload pkt qos)
  then show ?thesis by (auto simp: jobs_defs sourced_def dest: configured_subs_entry)
next
  case (StartRetransmits j)
  have "loops g (next_channel g) = None"
    using assms(2) table_fresh by (auto simp: channels_ok_def)
  with StartRetransmits show ?thesis
    by (auto simp: jobs_defs startRetransmits_def startIndefinite_def scheduleFiniteRetransmits_def Let_def)
next
  case (NewTicker ch j)
  then show ?thesis by (auto simp: jobs_defs loops_upd)
next
  case (LoopExit ch j)
  then show ?thesis using loops_exit [of "loops g" ch] by (auto simp: jobs_defs)
qed (auto simp: jobs_defs record_send_def dest: in_loop_jobs [unfolded loop_jobs_def])

lemma reachable_sourced: "reachable arch mo c sc g \<Longrightarrow> \<forall>j\<in>all_jobs g. sourced arch mo c sc j"
proof (induction rule: reachable.induct)
  case (start m)
  show ?case by (simp add: jobs_defs engine_init_def)
next
  case (more g g')
  then show ?case using step_jobs [OF more(2) reachable_channels_ok [OF more(1)]] by blast
qed

section \<open>Counting the datagrams of a message\<close>

definition sends :: "engine \<Rightarrow> nat \<Rightarrow> int" where
  "sends g i = int (length (filter (\<lambda>j. msgid j = i) (wire g)))"

lemma sends_record: "sends (record_send j m g) i = sends g i + (if msgid j = i then 1 else 0)"
  by (simp add: sends_def record_send_def)

lemma sends_wire: "wire g' = wire g \<Longrightarrow> sends g' = sends g"
  by (simp add: sends_def fun_eq_iff)

text \<open>The number of a message determines it, and numbers still to come are unused.\<close>

definition numbered :: "engine \<Rightarrow> bool" where
  "numbered g \<longleftrightarrow> (\<forall>j\<in>all_jobs g. msgid j < messages g) \<and> inj_on msgid (all_jobs g)"

text \<open>
  A message is with the handler, in one chain, or in a loop; a chain has a bound above 1, which is the
  planned number of sends; a loop belongs to an indefinite message.
\<close>

definition apart :: "engine \<Rightarrow> bool" where
  "apart g \<longleftrightarrow>
     handler_jobs (handler_at g) \<inter> (chain_jobs g \<union> loop_jobs g) = {} \<and>
     distinct (map cjob (chains g)) \<and>
     (\<forall>x\<in>set (chains g). planned (cjob x) > 1 \<and> bound x = planned (cjob x)) \<and>
     (\<forall>j\<in>loop_jobs g. planned j = -1)"

definition counted :: "engine \<Rightarrow> bool" where
  "counted g \<longleftrightarrow>
     (\<forall>j. handler_at g \<in> {Cancelling j, Sending j} \<longrightarrow> sends g (msgid j) = 0) \<and>
     (\<forall>j. handler_at g = Starting j \<longrightarrow> sends g (msgid j) = 1) \<and>
     (\<forall>x\<in>set (chains g). sends g (msgid (cjob x)) = next_send x \<and> next_send x \<le> bound x) \<and>
     (\<forall>j\<in>set (wire g). planned j \<noteq> -1 \<longrightarrow> sends g (msgid j) \<le> max 1 (planned j))"

lemma numbered_subset:
  "numbered g \<Longrightarrow> all_jobs g' \<subseteq> all_jobs g \<Longrightarrow> messages g \<le> messages g' \<Longrightarrow> numbered g'"
  unfolding numbered_def by (meson inj_on_subset le_trans less_le_trans subsetD)

lemma same_number:
  "numbered g \<Longrightarrow> j \<in> all_jobs g \<Longrightarrow> j' \<in> all_jobs g \<Longrightarrow> msgid j = msgid j' \<longleftrightarrow> j = j'"
  by (auto simp: numbered_def inj_on_def)

lemma fresh_number: "numbered g \<Longrightarrow> j \<in> all_jobs g \<Longrightarrow> msgid j \<noteq> messages g"
  by (metis less_irrefl numbered_def)

lemma step_numbered:
  assumes "step arch mo c sc g g'" "channels_ok g" "numbered g"
  shows "numbered g'"
  using assms(1)
proof cases
  case (Deliver sub e topic msgTopic payload pkt qos)
  let ?j = "\<lparr>msgid = messages g, planned = effectiveRetransmitCount (MPubsub c) qos,
       jtopic = topic, jgroup = TopicToGroup topic sc, jpkt = pkt\<rparr>"
  have "all_jobs g' = insert ?j (all_jobs g)" using Deliver by (auto simp: jobs_defs)
  moreover have "msgid ?j \<notin> msgid ` all_jobs g" using assms(3) by (auto simp: numbered_def)
  ultimately show ?thesis using assms(3) Deliver(1) unfolding numbered_def
    by (auto simp: inj_on_insert less_Suc_eq)
next
  case (StartRetransmits j)
  have "loops g (next_channel g) = None"
    using assms(2) table_fresh by (auto simp: channels_ok_def)
  with StartRetransmits show ?thesis
    by (intro numbered_subset [OF assms(3)])
      (auto simp: jobs_defs startRetransmits_def startIndefinite_def scheduleFiniteRetransmits_def Let_def)
next
  case (NewTicker ch j)
  then show ?thesis by (intro numbered_subset [OF assms(3)]) (auto simp: jobs_defs loops_upd)
next
  case (LoopExit ch j)
  then show ?thesis using loops_exit [of "loops g" ch]
    by (intro numbered_subset [OF assms(3)]) (auto simp: jobs_defs)
qed (intro numbered_subset [OF assms(3)],
    auto simp: jobs_defs record_send_def dest: in_loop_jobs [unfolded loop_jobs_def])+

lemma step_apart:
  assumes "step arch mo c sc g g'" "channels_ok g" "numbered g" "apart g"
  shows "apart g'"
  using assms(1)
proof cases
  case (Deliver sub e topic msgTopic payload pkt qos)
  have "j \<notin> chain_jobs g \<union> loop_jobs g" if "msgid j = messages g" for j
    using that fresh_number [OF assms(3), of j] by (auto simp: all_jobs_def)
  with Deliver assms(4) show ?thesis by (auto simp: apart_def chain_jobs_def loop_jobs_def)
next
  case (StartRetransmits j)
  have "loops g (next_channel g) = None"
    using assms(2) table_fresh by (auto simp: channels_ok_def)
  with StartRetransmits assms(4) show ?thesis
    by (auto simp: apart_def chain_jobs_def loop_jobs_def startRetransmits_def startIndefinite_def
        scheduleFiniteRetransmits_def Let_def)
next
  case (NewTicker ch j)
  with assms(4) show ?thesis by (auto simp: apart_def chain_jobs_def loop_jobs_def loops_upd)
next
  case (LoopExit ch j)
  with assms(4) show ?thesis using loops_exit [of "loops g" ch]
    by (auto simp: apart_def chain_jobs_def loop_jobs_def)
qed (use assms(4) in \<open>auto simp: apart_def chain_jobs_def loop_jobs_def record_send_def\<close>)

text \<open>Sending a job that is in the engine counts for that job alone.\<close>

lemma sends_other:
  "numbered g \<Longrightarrow> j \<in> all_jobs g \<Longrightarrow> j' \<in> all_jobs g \<Longrightarrow>
   sends (record_send j m g) (msgid j') = sends g (msgid j') + (if j = j' then 1 else 0)"
  by (simp add: sends_record same_number)

lemma step_counted:
  assumes "step arch mo c sc g g'" "channels_ok g" "numbered g" "apart g" "counted g"
  shows "counted g'"
  using assms(1)
proof cases
  case (Deliver sub e topic msgTopic payload pkt qos)
  have "sends g (messages g) = 0"
    using fresh_number [OF assms(3)] by (auto simp: sends_def all_jobs_def filter_empty_conv)
  with Deliver assms(5) show ?thesis by (simp add: counted_def sends_def)
next
  case (Cancel j)
  have "sends g' = sends g" using Cancel by (intro sends_wire) simp
  then show ?thesis using Cancel assms(5) by (simp add: counted_def)
next
  case (FirstSend j m)
  have j: "j \<in> all_jobs g" using FirstSend by (simp add: all_jobs_def)
  have s: "sends g' = sends (record_send j m g)" using FirstSend by (intro sends_wire) simp
  have chains: "cjob x \<noteq> j \<and> cjob x \<in> all_jobs g" if "x \<in> set (chains g)" for x
    using that assms(4) FirstSend by (auto simp: apart_def jobs_defs)
  have zero: "sends g (msgid j) = 0" using assms(5) FirstSend by (simp add: counted_def)
  have w: "set (wire g') = insert j (set (wire g))" "set (wire g) \<subseteq> all_jobs g"
    using FirstSend by (auto simp: record_send_def all_jobs_def)
  note other = sends_other [OF assms(3) j]
  have "sends g' (msgid j') \<le> max 1 (planned j')" if "j' \<in> set (wire g')" "planned j' \<noteq> -1" for j'
  proof (cases "j' = j")
    case True
    then show ?thesis using other [OF j] zero by (simp add: s)
  next
    case False
    then show ?thesis using that w other [of j'] assms(5) by (auto simp: s counted_def)
  qed
  moreover have "sends g' (msgid (cjob x)) = next_send x \<and> next_send x \<le> bound x" if "x \<in> set (chains g)" for x
    using chains [OF that] that other [of "cjob x"] assms(5) by (auto simp: s counted_def)
  moreover have "sends g' (msgid j) = 1" using other [OF j] zero by (simp add: s)
  moreover have "handler_at g' = Starting j" "chains g' = chains g"
    using FirstSend(1) by (simp_all add: record_send_def)
  ultimately show ?thesis unfolding counted_def by simp
next
  case FirstSendFailed
  then show ?thesis using assms(5) by (simp add: counted_def sends_def)
next
  case (StartRetransmits j)
  have "sends g' = sends g" using StartRetransmits by (intro sends_wire) (simp add: engine_ops Let_def)
  then show ?thesis using StartRetransmits assms(5) by (auto simp: counted_def engine_ops Let_def)
next
  case (Tick ch j m)
  have l: "j \<in> loop_jobs g" using in_loop_jobs [OF Tick(3)] by simp
  then have j: "j \<in> all_jobs g" by (simp add: all_jobs_def)
  have "planned j = -1" using assms(4) l by (simp add: apart_def)
  moreover have "cjob x \<noteq> j \<and> cjob x \<in> all_jobs g" if "x \<in> set (chains g)" for x
    using that assms(4) l by (force simp: apart_def all_jobs_def chain_jobs_def)
  moreover have "j' \<noteq> j \<and> j' \<in> all_jobs g" if "j' \<in> handler_jobs (handler_at g)" for j'
    using that assms(4) l by (auto simp: apart_def all_jobs_def)
  moreover have "set (wire g') = insert j (set (wire g))" "set (wire g) \<subseteq> all_jobs g"
    using Tick by (auto simp: record_send_def all_jobs_def)
  ultimately show ?thesis
    using Tick assms(5) sends_other [OF assms(3) j]
    unfolding counted_def by auto
next
  case (ChainSend xs x ys m)
  let ?j = "cjob x"
  have x: "x \<in> set (chains g)" using ChainSend by simp
  then have l: "?j \<in> chain_jobs g" by (simp add: chain_jobs_def)
  then have j: "?j \<in> all_jobs g" by (simp add: all_jobs_def)
  have b: "bound x > 1" "bound x = planned ?j" using assms(4) x by (simp_all add: apart_def)
  have n: "sends g (msgid ?j) = next_send x" using assms(5) x by (simp add: counted_def)
  have others: "cjob y \<noteq> ?j \<and> cjob y \<in> all_jobs g \<and> y \<in> set (chains g)" if "y \<in> set xs \<union> set ys" for y
  proof -
    have "distinct (map cjob (xs @ x # ys))" using assms(4) ChainSend(3) by (simp add: apart_def)
    then have "cjob x \<notin> cjob ` (set xs \<union> set ys)" by auto
    then have "cjob y \<noteq> ?j" using that by (metis image_eqI)
    then show ?thesis using that ChainSend(3) by (auto simp: all_jobs_def chain_jobs_def)
  qed
  have hand: "j' \<noteq> ?j \<and> j' \<in> all_jobs g" if "j' \<in> handler_jobs (handler_at g)" for j'
    using that assms(4) l by (auto simp: apart_def all_jobs_def)
  have w: "set (wire g') = insert ?j (set (wire g))" "set (wire g) \<subseteq> all_jobs g"
    using ChainSend by (auto simp: record_send_def all_jobs_def)
  have s: "sends g' = sends (record_send ?j m g)" using ChainSend by (intro sends_wire) simp
  have c: "set (chains g') = insert (x\<lparr>next_send := next_send x + 1\<rparr>) (set xs \<union> set ys)"
    "handler_at g' = handler_at g"
    using ChainSend by (auto simp: record_send_def)
  note other = sends_other [OF assms(3) j]
  have "sends g' (msgid j') \<le> max 1 (planned j')" if "j' \<in> set (wire g')" "planned j' \<noteq> -1" for j'
  proof (cases "j' = ?j")
    case True
    then show ?thesis using other [OF j] n b ChainSend(4) by (simp add: s)
  next
    case False
    then show ?thesis using that w other [of j'] assms(5) by (auto simp: s counted_def)
  qed
  moreover have "sends g' (msgid (cjob y)) = next_send y \<and> next_send y \<le> bound y" if y: "y \<in> set (chains g')" for y
  proof (cases "y \<in> set xs \<union> set ys")
    case True
    have "sends g' (msgid (cjob y)) = sends g (msgid (cjob y))"
      using others [OF True] other [of "cjob y"] by (auto simp: s)
    then show ?thesis using others [OF True] assms(5) by (auto simp: counted_def)
  next
    case False
    then have "y = x\<lparr>next_send := next_send x + 1\<rparr>" using y c(1) by simp
    then show ?thesis using other [OF j] n ChainSend(4) by (simp add: s)
  qed
  ultimately show ?thesis
    using assms(5) hand other unfolding counted_def c(2) by (auto simp: s)
qed (use assms(5) in \<open>auto simp: counted_def sends_def\<close>)

lemma reachable_accounts:
  "reachable arch mo c sc g \<Longrightarrow> channels_ok g \<and> numbered g \<and> apart g \<and> counted g"
proof (induction rule: reachable.induct)
  case (start m)
  show ?case
    by (simp add: channels_ok_def table_ok_def numbered_def apart_def counted_def jobs_defs engine_init_def)
next
  case (more g g')
  note s = more(2) and ok = more.IH
  from ok show ?case
    using step_channels_ok [OF s] step_numbered [OF s] step_apart [OF s] step_counted [OF s] by simp
qed

section \<open>The socket carries what the engine sends\<close>

definition carried :: "engine \<Rightarrow> bool" where
  "carried g \<longleftrightarrow>
     (closed (conn (sock g)) \<longleftrightarrow> phase g = SocketClosed) \<and>
     sent (conn (sock g)) = map (\<lambda>j. (jgroup j, port (sock g), jpkt j)) (wire g)"

lemma sent_by_D:
  "sent_by j m m' \<Longrightarrow> \<not> closed (conn m) \<and> closed (conn m') = closed (conn m) \<and> port m' = port m \<and>
     sent (conn m') = sent (conn m) @ [(jgroup j, port m, jpkt j)]"
  by (auto simp: sent_by_def refuses_closed_def SendTo_def split: if_splits)

lemma step_carried:
  assumes "step arch mo c sc g g'" "carried g"
  shows "carried g'"
  using assms(1)
proof cases
  case (Cancel j)
  have "sock g' = sock g" using Cancel by (simp add: cancelIndefinite_def close_channel_def split: option.split)
  then show ?thesis using Cancel assms(2) by (simp add: carried_def)
next
  case (Drain es)
  have "sock (drain_entry tc h) = sock h" for tc h by (simp add: drain_entry_def close_channel_def)
  then have "sock (drain es g) = sock g"
    unfolding drain_def by (induction es arbitrary: g) simp_all
  then show ?thesis using Drain assms(2) by (simp add: carried_def)
qed (use assms(2) in \<open>auto simp: carried_def record_send_def startRetransmits_def startIndefinite_def
    scheduleFiniteRetransmits_def Let_def Close_def dest!: sent_by_D\<close>)

lemma reachable_carried: "reachable arch mo c sc g \<Longrightarrow> carried g"
proof (induction rule: reachable.induct)
  case (start m)
  then show ?case by (simp add: carried_def engine_init_def)
qed (rule step_carried)

end
