(* ===== verification/Retransmit_Props.thy ===== *)
theory Retransmit_Props
  imports Retransmit_Jobs Json_Proto_Props
begin

text \<open>
  The properties of the sending half (\<open>bridges/mqtt-go/bridge.go\<close>): what is on the wire and how often,
  the table of indefinite retransmissions, panics, and shutdown.
\<close>

section \<open>Encoding\<close>

lemma proto_body:
  "go_bind (go_make (2 + int (length pb))) (\<lambda>body.
   go_bind (go_set body 0 b0) (\<lambda>body.
   go_bind (go_set body 1 b1) (\<lambda>body. go_bind (go_copy body 2 pb) f))) = f (b0 # b1 # pb)"
proof -
  have n: "nat (2 + int (length pb)) = Suc (Suc (length pb))" by simp
  show ?thesis by (simp add: go_make_def n go_set_def go_copy_def)
qed

lemma encodeForBus_eq:
  "encodeForBus arch mo c topic payload sch =
     (case sch of
        None \<Rightarrow> go_wrap EncodePacketFailed (EncodePacket topic payload encodingRaw (EncryptionKey (MPubsub c)))
      | Some s \<Rightarrow>
          go_bind (go_wrap JSONToProtoFailed (JSONToProto arch mo s payload)) (\<lambda>pb.
          go_wrap EncodePacketFailed (EncodePacket topic (le_bytes16 (SchemaID s) @ pb) encodingProto
            (EncryptionKey (MPubsub c)))))"
  by (cases sch) (simp_all add: encodeForBus_def go_bind_assoc proto_body [unfolded One_nat_def]
      le_bytes16_def Let_def)

definition encoded_packet :: "bytes option \<Rightarrow> string \<Rightarrow> bytes \<Rightarrow> u8 \<Rightarrow> DecodedPacket" where
  "encoded_packet key topic payload encoding =
     (case key of None \<Rightarrow> plain_packet topic payload encoding | Some _ \<Rightarrow> sealed_packet topic payload encoding)"

lemma encoded_decodes:
  assumes "EncodePacket topic payload encoding key = Ret d"
  shows "DecodePacket d key = Ret (encoded_packet key topic payload encoding) \<and> length d \<le> maxDatagram"
proof -
  have ok: "packet_encodable payload encoding key"
    using EncodePacket_not_encodable [of payload encoding key topic] assms by auto
  have "DecodePacket d key = Ret (encoded_packet key topic payload encoding)"
  proof (cases key)
    case None
    then have p: "encoding = encodingRaw \<or> encoding = encodingProto" "length payload \<le> maxPayload"
      using ok by (auto simp: packet_encodable_def wire_consts)
    then show ?thesis
      using assms None unat_u16_length [OF p(2)]
      by (auto simp: EncodePacket_plain DecodePacket_datagram plain_packet_def encoded_packet_def
          encModeNone_def encModeXXTEA_def)
  next
    case (Some k)
    then show ?thesis using sealed_opens [of topic payload encoding k d] assms
      by (simp add: encoded_packet_def)
  qed
  moreover have "length d \<le> maxDatagram"
    using EncodePacket_encodable [OF ok, of topic] encoded_length_fits [OF ok] assms by auto
  ultimately show ?thesis ..
qed

lemma encodeForBus_decodes:
  assumes "encodeForBus arch mo c topic payload sch = Ret d"
  shows "\<exists>body encoding. DecodePacket d (EncryptionKey (MPubsub c)) =
      Ret (encoded_packet (EncryptionKey (MPubsub c)) topic body encoding) \<and> length d \<le> maxDatagram"
  using assms encoded_decodes by (fastforce simp: encodeForBus_eq go_bind_eq_Ret split: option.splits)

section \<open>The wire\<close>

lemma wire_sourced: "reachable arch mo c sc g \<Longrightarrow> j \<in> set (wire g) \<Longrightarrow> sourced arch mo c sc j"
  using reachable_sourced [of arch mo c sc g] by (auto simp: all_jobs_def)

text \<open>
  C7. Whatever the interleaving of handlers, retransmissions and shutdown, every datagram the socket ever
  carried goes to the group of a topic of an mqtt_to_mpubsub entry, at the configured port, fits the
  1232-byte limit, and decodes under the bridge's own key to a packet with that topic's checksum that is
  encrypted exactly when a key is configured: with a key, no plaintext leaves the bridge.
\<close>

theorem wire_authentic:
  assumes "reachable arch mo c sc g" "(grp, p, data) \<in> set (sent (conn (sock g)))"
  shows "\<exists>e msgTopic pkt. e \<in> set (Bridges c) \<and> from_mqtt e \<and>
    grp = TopicToGroup (busTopic e msgTopic) sc \<and> p = port (sock g) \<and> length data \<le> maxDatagram \<and>
    DecodePacket data (EncryptionKey (MPubsub c)) = Ret pkt \<and>
    TopicCRC pkt = TopicCRC32 (busTopic e msgTopic) \<and>
    WasEncrypted pkt = (EncryptionKey (MPubsub c) \<noteq> None)"
proof -
  obtain j where wire: "j \<in> set (wire g)" and d: "grp = jgroup j" "p = port (sock g)" "data = jpkt j"
    using reachable_carried [OF assms(1)] assms(2) by (auto simp: carried_def)
  from wire_sourced [OF assms(1) wire] obtain e msgTopic payload where j: "e \<in> set (Bridges c)" "from_mqtt e"
      "jtopic j = busTopic e msgTopic" "jgroup j = TopicToGroup (jtopic j) sc"
      "encodeForBus arch mo c (jtopic j) payload (schemaPtr e) = Ret (jpkt j)"
    by (auto simp: sourced_def)
  obtain body encoding where "length (jpkt j) \<le> maxDatagram"
      "DecodePacket (jpkt j) (EncryptionKey (MPubsub c)) =
        Ret (encoded_packet (EncryptionKey (MPubsub c)) (jtopic j) body encoding)"
    using encodeForBus_decodes [OF j(5)] by blast
  with j d show ?thesis
    by (intro exI [of _ e] exI [of _ msgTopic])
      (auto simp: encoded_packet_def plain_packet_def sealed_packet_def split: option.split)
qed

lemma planned_range:
  assumes "validated c" "planned j = effectiveRetransmitCount (MPubsub c) qos" "planned j \<noteq> -1"
  shows "1 \<le> planned j" "planned j \<le> 255"
  using assms by (auto simp: effectiveRetransmitCount_def validated_def Let_def split: if_splits)

text \<open>
  C17. A message with a finite retransmit count is sent at most that many times, at most 255 times, in
  every reachable state; while its chain runs the count of sends is the loop counter, and a chain that
  runs to its end has sent exactly the planned number.
\<close>

theorem sends_bounded:
  assumes "validated c" "reachable arch mo c sc g" "j \<in> set (wire g)" "planned j \<noteq> -1"
  shows "sends g (msgid j) \<le> planned j \<and> planned j \<le> 255 \<and>
    list_all (\<lambda>x. sends g (msgid (cjob x)) = next_send x \<and>
      (next_send x < bound x \<or> sends g (msgid (cjob x)) = planned (cjob x))) (chains g)"
proof -
  obtain qos where "planned j = effectiveRetransmitCount (MPubsub c) qos"
    using wire_sourced [OF assms(2,3)] by (auto simp: sourced_def)
  note range = planned_range [OF assms(1) this assms(4)]
  have "counted g" "apart g" using reachable_accounts [OF assms(2)] by simp_all
  then have "sends g (msgid j) \<le> max 1 (planned j)"
    "\<forall>x\<in>set (chains g). sends g (msgid (cjob x)) = next_send x \<and> next_send x \<le> bound x \<and> bound x = planned (cjob x)"
    using assms(3,4) by (simp_all add: counted_def apart_def)
  with range show ?thesis by (auto simp: list_all_iff)
qed


section \<open>The table of indefinite retransmissions\<close>

text \<open>
  C8. The table indefiniteJobs is exact in every reachable state: a topic has an entry precisely when a
  retransmission loop for it runs whose channel is still open.  So at most one uncancelled loop runs per
  topic, and no loop outlives its entry uncancelled.
\<close>

theorem indefiniteJobs_exact:
  assumes "reachable arch mo c sc g"
  shows "indefiniteJobs g t = Some ch \<longleftrightarrow>
    ch \<notin> closed_channels g \<and> (\<exists>l. loops g ch = Some l \<and> jtopic (job_of l) = t)"
  using reachable_channels_ok [OF assms] table_iff by (auto simp: channels_ok_def)

text \<open>Only the ticker can panic.\<close>

lemma step_panic:
  assumes "step arch mo c sc g g'" "channels_ok g" "panicked g'" "\<not> panicked g"
  shows "panic g' = Some NonPositiveTicker \<and> RetransmitDelay (MPubsub c) \<le> 0 \<and>
    (\<exists>ch j. loops g' ch = Some (NewGoroutine j))"
  using assms(1)
proof cases
  case (Cancel j)
  then show ?thesis using assms cancelIndefinite_ok [of g "jtopic j"] by (auto simp: channels_ok_def Let_def)
next
  case (Drain es)
  have "\<forall>(t, ch)\<in>set es. indefiniteJobs g t = Some ch" using Drain by (auto simp flip: Drain(5))
  from drain_ok [OF _ _ this] Drain assms show ?thesis by (auto simp: channels_ok_def Let_def)
qed (use assms(3,4) in \<open>auto simp: engine_ops Let_def split: if_splits\<close>)

lemma reachable_panic:
  "reachable arch mo c sc g \<Longrightarrow> panicked g \<Longrightarrow>
   panic g = Some NonPositiveTicker \<and> RetransmitDelay (MPubsub c) \<le> 0 \<and>
   (\<exists>ch j. loops g ch = Some (NewGoroutine j))"
proof (induction rule: reachable.induct)
  case (start m)
  then show ?case by (simp add: engine_init_def)
next
  case (more g g')
  have "\<not> panicked g" using more(2) by cases simp_all
  then show ?case using step_panic [OF more(2) reachable_channels_ok [OF more(1)]] more by blast
qed

text \<open>
  C21. On a loaded configuration, in every interleaving: no channel is ever closed twice; and the only
  panic there is, the ticker of an indefinite retransmission that is created without a delay, is
  possible only if promote_qos is on and the retransmit delay is zero.
\<close>

theorem panic_only_promoted:
  assumes "validated c" "defaulted c" "reachable arch mo c sc g"
  shows "panic g \<noteq> Some ClosedTwice \<and>
    (panic g = Some NonPositiveTicker \<longrightarrow> PromoteQoS (MPubsub c) \<and> RetransmitDelay (MPubsub c) = 0)"
proof (cases "panicked g")
  case True
  then obtain ch j where d: "panic g = Some NonPositiveTicker" "RetransmitDelay (MPubsub c) \<le> 0"
      "loops g ch = Some (NewGoroutine j)"
    using reachable_panic [OF assms(3)] by blast
  then have l: "j \<in> loop_jobs g" using in_loop_jobs [OF d(3)] by simp
  then have "planned j = -1" using reachable_accounts [OF assms(3)] by (simp add: apart_def)
  moreover obtain qos where "planned j = effectiveRetransmitCount (MPubsub c) qos"
    using reachable_sourced [OF assms(3)] l by (auto simp: sourced_def all_jobs_def)
  ultimately have "PromoteQoS (MPubsub c)"
    using assms(1) d(2) by (auto simp: effectiveRetransmitCount_def validated_def duration_consts Let_def split: if_splits)
  moreover have "RetransmitDelay (MPubsub c) = 0" using d(2) assms(2) by (simp add: defaulted_def)
  ultimately show ?thesis using d(1) by simp
qed simp

section \<open>Two runs\<close>

definition demo_sock :: MulticastSocket where
  "demo_sock = \<lparr>conn = demo_conn, iface = None, port = 18512, joined = Map.empty\<rparr>"

definition sock_after :: "job \<Rightarrow> MulticastSocket" where
  "sock_after j = demo_sock\<lparr>conn := demo_conn\<lparr>sent := [(jgroup j, 18512, jpkt j)]\<rparr>\<rparr>"

abbreviation init0 :: engine where "init0 \<equiv> engine_init demo_sock"
abbreviation init1 :: "job \<Rightarrow> engine" where "init1 j \<equiv> engine_init (sock_after j)"

lemma demo_sock_sends: "sent_by j demo_sock (sock_after j)"
  unfolding sent_by_def
  by (intro exI [of _ demo_os]) (simp add: refuses_closed_def demo_os_def SendTo_def demo_sock_def demo_conn_def sock_after_def)

lemma init0_reachable: "reachable arch mo c sc init0"
  by (rule reachable.start) (simp_all add: demo_sock_def demo_conn_def)

text \<open>The state after the first message, when it is retransmitted indefinitely.\<close>

definition first_loop :: "job \<Rightarrow> engine" where
  "first_loop j = (init1 j)\<lparr>messages := 1, wire := [j], next_channel := 1,
     indefiniteJobs := [jtopic j \<mapsto> 0], loops := [0 \<mapsto> NewGoroutine j]\<rparr>"

definition first_job :: "Config \<Rightarrow> u8 \<Rightarrow> BridgeEntry \<Rightarrow> string \<Rightarrow> u8 \<Rightarrow> bytes \<Rightarrow> job" where
  "first_job c sc e msgTopic qos pkt =
     \<lparr>msgid = 0, planned = effectiveRetransmitCount (MPubsub c) qos, jtopic = busTopic e msgTopic,
      jgroup = TopicToGroup (busTopic e msgTopic) sc, jpkt = pkt\<rparr>"

text \<open>Up to the point where the first send is done, possibly with shutdown steps in between.\<close>

lemma first_sent:
  assumes "e \<in> set (Bridges c)" "from_mqtt e"
    and "encodeForBus arch mo c (busTopic e msgTopic) payload (schemaPtr e) = Ret pkt"
  shows "reachable arch mo c sc ((init1 (first_job c sc e msgTopic qos pkt))\<lparr>messages := 1, wire := [first_job c sc e msgTopic qos pkt],
    handler_at := Starting (first_job c sc e msgTopic qos pkt)\<rparr>)"
proof -
  let ?j = "first_job c sc e msgTopic qos pkt"
  let ?g1 = "init0\<lparr>messages := 1, handler_at := Cancelling ?j\<rparr>"
  obtain sub where "sub \<in> set (configured_subs c (Bridges c))" "subEntry sub = e"
    using entry_subscribed [OF assms(1,2)] by blast
  then have "step arch mo c sc init0 ?g1"
    using step.Deliver [of init0 sub c e "busTopic e msgTopic" msgTopic arch mo payload pkt sc qos] assms
    by (simp add: engine_init_def first_job_def)
  then have "reachable arch mo c sc ?g1" by (rule reachable.more [OF init0_reachable])
  moreover have "cancelIndefinite (jtopic ?j) ?g1 = ?g1" by (simp add: cancelIndefinite_def engine_init_def)
  then have "step arch mo c sc ?g1 (?g1\<lparr>handler_at := Sending ?j\<rparr>)"
    using step.Cancel [of ?g1 ?j arch mo c sc] by (simp add: engine_init_def)
  ultimately have "reachable arch mo c sc (?g1\<lparr>handler_at := Sending ?j\<rparr>)" by (rule reachable.more)
  moreover have "step arch mo c sc (?g1\<lparr>handler_at := Sending ?j\<rparr>)
      ((init1 ?j)\<lparr>messages := 1, wire := [?j], handler_at := Starting ?j\<rparr>)"
    using step.FirstSend [of "?g1\<lparr>handler_at := Sending ?j\<rparr>" ?j "sock_after ?j" arch mo c sc] demo_sock_sends [of ?j]
    by (simp add: engine_init_def record_send_def)
  ultimately show ?thesis by (rule reachable.more)
qed

lemma first_loop_reachable:
  assumes "e \<in> set (Bridges c)" "from_mqtt e"
    and "encodeForBus arch mo c (busTopic e msgTopic) payload (schemaPtr e) = Ret pkt"
    and "effectiveRetransmitCount (MPubsub c) qos = -1"
  shows "reachable arch mo c sc (first_loop (first_job c sc e msgTopic qos pkt))"
proof -
  let ?j = "first_job c sc e msgTopic qos pkt"
  let ?g = "(init1 ?j)\<lparr>messages := 1, wire := [?j], handler_at := Starting ?j\<rparr>"
  have "planned ?j = -1" using assms(4) by (simp add: first_job_def)
  then have "step arch mo c sc ?g (first_loop ?j)"
    using step.StartRetransmits [of ?g ?j arch mo c sc]
    by (simp add: first_loop_def engine_init_def engine_ops Let_def)
  with first_sent [OF assms(1-3)] show ?thesis by (rule reachable.more)
qed

lemma raw_packet: "\<exists>pkt. EncodePacket topic [] encodingRaw None = Ret pkt"
  using EncodePacket_encodable [of "[]" encodingRaw None topic] by (auto simp: packet_encodable_def)

definition demo_entry :: BridgeEntry where
  "demo_entry = \<lparr>Direction = ''mqtt_to_mpubsub'', MQTTTopic = ''a'', MPubsubTopic = '''',
     RequireEncryption = False, SchemaRef = '''', schemaPtr = None\<rparr>"

lemma demo_entry_encodes:
  assumes "EncryptionKey (MPubsub c) = None"
  shows "\<exists>pkt. encodeForBus arch mo c (busTopic demo_entry ''a'') [] (schemaPtr demo_entry) = Ret pkt"
  using raw_packet [of "''a''"] by (simp add: encodeForBus_eq demo_entry_def busTopic_def assms)

lemma demo_loaded_facts:
  "Bridges demo_loaded = [demo_entry]" "EncryptionKey (MPubsub demo_loaded) = None"
  "RetransmitDelay (MPubsub demo_loaded) = 0" "PromoteQoS (MPubsub demo_loaded)"
  by (simp_all add: demo_loaded_def demo_config_def withDelayAndKey_def defaultScalars_def demo_entry_def Let_def)

lemma demo_panics: "\<exists>g. reachable arch mo demo_loaded sc g \<and> panicked g \<and> messages g = 1"
proof -
  obtain pkt where pkt: "encodeForBus arch mo demo_loaded (busTopic demo_entry ''a'') [] (schemaPtr demo_entry) = Ret pkt"
    using demo_entry_encodes demo_loaded_facts(2) by blast
  let ?g = "first_loop (first_job demo_loaded sc demo_entry ''a'' 2 pkt)"
  have "reachable arch mo demo_loaded sc ?g"
    by (rule first_loop_reachable [OF _ _ pkt])
      (simp_all add: demo_loaded_facts effectiveRetransmitCount_def from_mqtt_def dir_consts demo_entry_def)
  moreover have "step arch mo demo_loaded sc ?g (?g\<lparr>panic := Some NonPositiveTicker\<rparr>)"
    by (rule step.NewTickerPanic [where ch = 0]) (simp_all add: first_loop_def engine_init_def demo_loaded_facts)
  ultimately have "reachable arch mo demo_loaded sc (?g\<lparr>panic := Some NonPositiveTicker\<rparr>)" by (rule reachable.more)
  then show ?thesis by (intro exI [of _ "?g\<lparr>panic := Some NonPositiveTicker\<rparr>"]) (simp add: first_loop_def)
qed

text \<open>
  C33. The exception is real: LoadConfig accepts a configuration with promote_qos and a retransmit delay
  of 0s, and the first message published with QoS 2 starts an indefinite retransmission whose ticker is
  created with delay 0, which panics and takes the bridge down.
\<close>

theorem promote_qos_panics:
  "LoadConfig (\<lambda>_. Some []) (\<lambda>_. Some demo_config) path = Ret demo_loaded \<and>
   (\<exists>g. reachable arch mo demo_loaded sc g \<and> panicked g \<and> messages g = 1)"
  using demo_panics by (simp add: LoadConfig_def demo_loaded)

theorem panic_only_promoted_witness:
  "\<exists>g. reachable demo_arch demo_order demo_loaded 2 g \<and> panicked g \<and> panic g \<noteq> Some ClosedTwice \<and>
     PromoteQoS (MPubsub demo_loaded) \<and> RetransmitDelay (MPubsub demo_loaded) = 0"
proof -
  obtain g where g: "reachable demo_arch demo_order demo_loaded 2 g" "panicked g" using demo_panics by blast
  have "validated demo_loaded" using demo_loaded(2) by (simp add: validate_Ret)
  moreover have "unresolved demo_config" by (simp add: unresolved_def demo_config_def)
  then have "defaulted demo_loaded" using applyDefaults_defaulted demo_loaded(1) by blast
  ultimately have p: "panic g \<noteq> Some ClosedTwice \<and>
      (panic g = Some NonPositiveTicker \<longrightarrow> PromoteQoS (MPubsub demo_loaded) \<and> RetransmitDelay (MPubsub demo_loaded) = 0)"
    using g(1) by (rule panic_only_promoted)
  then have "panic g = Some NonPositiveTicker" using g(2) by (metis not_Some_eq panic_reason.exhaust)
  with p g show ?thesis by blast
qed

theorem indefiniteJobs_exact_witness:
  "\<exists>g. reachable demo_arch demo_order demo_loaded 2 g \<and> indefiniteJobs g ''a'' = Some 0 \<and>
     0 \<notin> closed_channels g \<and> (\<exists>l. loops g 0 = Some l \<and> jtopic (job_of l) = ''a'')"
proof -
  obtain pkt where pkt: "encodeForBus demo_arch demo_order demo_loaded (busTopic demo_entry ''a'') []
      (schemaPtr demo_entry) = Ret pkt"
    using demo_entry_encodes demo_loaded_facts(2) by blast
  let ?g = "first_loop (first_job demo_loaded 2 demo_entry ''a'' 2 pkt)"
  have r: "reachable demo_arch demo_order demo_loaded 2 ?g"
    by (rule first_loop_reachable [OF _ _ pkt])
      (simp_all add: demo_loaded_facts effectiveRetransmitCount_def from_mqtt_def dir_consts demo_entry_def)
  have "indefiniteJobs ?g ''a'' = Some 0"
    by (simp add: first_loop_def first_job_def busTopic_def demo_entry_def)
  with r indefiniteJobs_exact [OF r] show ?thesis by blast
qed

lemma demo_sent:
  "\<exists>g j. reachable demo_arch demo_order demo_loaded 2 g \<and> wire g = [j] \<and> planned j = 1 \<and> jtopic j = ''a''"
proof -
  obtain pkt where pkt: "encodeForBus demo_arch demo_order demo_loaded (busTopic demo_entry ''a'') []
      (schemaPtr demo_entry) = Ret pkt"
    using demo_entry_encodes demo_loaded_facts(2) by blast
  let ?j = "first_job demo_loaded 2 demo_entry ''a'' 0 pkt"
  have "RetransmitCount (MPubsub demo_loaded) = 1"
    by (simp add: demo_loaded_def demo_config_def withDelayAndKey_def defaultScalars_def Let_def)
  then have "planned ?j = 1" "jtopic ?j = ''a''"
    by (simp_all add: first_job_def effectiveRetransmitCount_def busTopic_def demo_entry_def)
  moreover have "reachable demo_arch demo_order demo_loaded 2
      ((init1 ?j)\<lparr>messages := 1, wire := [?j], handler_at := Starting ?j\<rparr>)"
    by (rule first_sent [OF _ _ pkt]) (simp_all add: demo_loaded_facts from_mqtt_def dir_consts demo_entry_def)
  ultimately show ?thesis by (intro exI conjI) (assumption, simp_all)
qed

theorem sends_bounded_witness:
  "\<exists>g j. reachable demo_arch demo_order demo_loaded 2 g \<and> j \<in> set (wire g) \<and> sends g (msgid j) \<le> 1"
proof -
  obtain g j where g: "reachable demo_arch demo_order demo_loaded 2 g" "wire g = [j]" "planned j = 1"
    using demo_sent by blast
  have "validated demo_loaded" using demo_loaded(2) by (simp add: validate_Ret)
  from sends_bounded [OF this g(1), of j] g show ?thesis by auto
qed

theorem wire_authentic_witness:
  "\<exists>g grp p data pkt. reachable demo_arch demo_order demo_loaded 2 g \<and> (grp, p, data) \<in> set (sent (conn (sock g))) \<and>
     DecodePacket data None = Ret pkt \<and> \<not> WasEncrypted pkt"
proof -
  obtain g j where g: "reachable demo_arch demo_order demo_loaded 2 g" "wire g = [j]"
    using demo_sent by blast
  then have in_sent: "(jgroup j, port (sock g), jpkt j) \<in> set (sent (conn (sock g)))"
    using reachable_carried [OF g(1)] by (simp add: carried_def)
  from wire_authentic [OF g(1) this] demo_loaded_facts(2)
  obtain pkt where "DecodePacket (jpkt j) None = Ret pkt" "\<not> WasEncrypted pkt" by auto
  with in_sent g(1) show ?thesis by blast
qed

end
