(* ===== verification/Retransmit_Live.thy ===== *)
theory Retransmit_Live
  imports Retransmit_Props
begin

text \<open>
  Progress and shutdown of the retransmission engine (\<open>bridges/mqtt-go/bridge.go\<close>): a cancelled loop
  ends in every fair run, shutdown cancels every registered loop, and one interleaving in which a loop
  survives shutdown.
\<close>

section \<open>Runs\<close>

definition is_run :: "go_arch \<Rightarrow> map_order \<Rightarrow> Config \<Rightarrow> u8 \<Rightarrow> (nat \<Rightarrow> engine) \<Rightarrow> bool" where
  "is_run arch mo c sc r \<longleftrightarrow> (\<exists>m. \<not> closed (conn m) \<and> sent (conn m) = [] \<and> r 0 = engine_init m) \<and>
     (\<forall>i. step arch mo c sc (r i) (r (Suc i)) \<or> r (Suc i) = r i)"

text \<open>What goroutine \<open>ch\<close> can do by itself: create its ticker, or leave the loop.\<close>

definition loop_enabled :: "nat \<Rightarrow> engine \<Rightarrow> bool" where
  "loop_enabled ch g \<longleftrightarrow> \<not> panicked g \<and>
     ((\<exists>j. loops g ch = Some (NewGoroutine j)) \<or>
      (\<exists>j. loops g ch = Some (Ticking j)) \<and> ch \<in> closed_channels g)"

text \<open>
  Weak fairness, which the Go scheduler and the uniform choice of \<open>select\<close> give with probability 1: an
  action of a goroutine that stays enabled is taken eventually.
\<close>

definition fair :: "(nat \<Rightarrow> engine) \<Rightarrow> bool" where
  "fair r \<longleftrightarrow> (\<forall>ch i. \<exists>k\<ge>i. \<not> loop_enabled ch (r k) \<or> loops (r (Suc k)) ch \<noteq> loops (r k) ch)"

lemma run_reachable: "is_run arch mo c sc r \<Longrightarrow> reachable arch mo c sc (r i)"
proof (induction i)
  case 0
  then show ?case using reachable.start by (auto simp: is_run_def)
next
  case (Suc i)
  then show ?case unfolding is_run_def by (metis reachable.more)
qed

section \<open>What a step does to one loop\<close>

lemma close_channel_mono: "closed_channels g \<subseteq> closed_channels (close_channel ch g)"
  by (auto simp: close_channel_def)

lemma cancelIndefinite_mono:
  "closed_channels g \<subseteq> closed_channels (cancelIndefinite t g)"
  "next_channel (cancelIndefinite t g) = next_channel g"
  using close_channel_mono by (auto simp: cancelIndefinite_def close_channel_def split: option.split)

lemma drain_mono: "closed_channels g \<subseteq> closed_channels (drain es g) \<and> next_channel (drain es g) = next_channel g"
proof -
  have one: "closed_channels g \<subseteq> closed_channels (drain_entry tc g) \<and> next_channel (drain_entry tc g) = next_channel g"
    for tc g
    by (auto simp: drain_entry_def close_channel_def)
  show ?thesis
    unfolding drain_def
  proof (induction es arbitrary: g)
    case (Cons tc es)
    show ?case using one [of g tc] Cons.IH [of "drain_entry tc g"] by auto
  qed simp
qed

text \<open>A loop is created once, becomes a ticking loop once, and ends once.\<close>

fun loop_follows :: "loop option \<Rightarrow> loop option \<Rightarrow> bool" where
  "loop_follows None l' \<longleftrightarrow> l' = None"
| "loop_follows (Some (NewGoroutine j)) l' \<longleftrightarrow> l' = Some (NewGoroutine j) \<or> l' = Some (Ticking j)"
| "loop_follows (Some (Ticking j)) l' \<longleftrightarrow> l' = Some (Ticking j) \<or> l' = None"

lemma loop_follows_refl [simp]: "loop_follows l l"
proof (cases l)
  case (Some x)
  then show ?thesis by (cases x) simp_all
qed simp

lemma step_loop:
  assumes "step arch mo c sc g g'" "ch < next_channel g"
  shows "loop_follows (loops g ch) (loops g' ch) \<and> closed_channels g \<subseteq> closed_channels g' \<and>
    next_channel g \<le> next_channel g'"
  using assms
  by cases (use cancelIndefinite_mono drain_mono in \<open>auto simp: record_send_def startRetransmits_def
      startIndefinite_def scheduleFiniteRetransmits_def Let_def\<close>)

lemma run_loop:
  assumes run: "is_run arch mo c sc r" and "ch < next_channel (r i)"
  shows "ch < next_channel (r (i + n)) \<and> closed_channels (r i) \<subseteq> closed_channels (r (i + n)) \<and>
    loop_follows (loops (r (i + n)) ch) (loops (r (Suc (i + n))) ch)"
proof (induction n)
  case 0
  have "step arch mo c sc (r i) (r (Suc i)) \<or> r (Suc i) = r i" using run by (simp add: is_run_def)
  then show ?case using step_loop [of arch mo c sc "r i" "r (Suc i)" ch] assms(2) by auto
next
  case (Suc n)
  have "step arch mo c sc (r (i + n)) (r (Suc (i + n))) \<or> r (Suc (i + n)) = r (i + n)"
    using run by (simp add: is_run_def)
  then have s: "ch < next_channel (r (Suc (i + n)))" "closed_channels (r i) \<subseteq> closed_channels (r (Suc (i + n)))"
    using step_loop [of arch mo c sc "r (i + n)" "r (Suc (i + n))" ch] Suc.IH by auto
  have "step arch mo c sc (r (Suc (i + n))) (r (Suc (Suc (i + n)))) \<or> r (Suc (Suc (i + n))) = r (Suc (i + n))"
    using run by (simp add: is_run_def)
  then show ?case
    using step_loop [of arch mo c sc "r (Suc (i + n))" "r (Suc (Suc (i + n)))" ch] s by auto
qed

lemma ended_stays:
  assumes "is_run arch mo c sc r" "ch < next_channel (r i)" "loops (r k) ch = None" "i \<le> k" "k \<le> m"
  shows "loops (r m) ch = None"
  using assms(5)
proof (induction m rule: dec_induct)
  case base
  show ?case by (rule assms(3))
next
  case (step m)
  with run_loop [OF assms(1,2), of "m - i"] assms(4) show ?case by simp
qed


section \<open>A cancelled loop ends\<close>

lemma ticking_ends:
  assumes run: "is_run arch mo c sc r" and fair: "fair r" and "\<And>k. \<not> panicked (r k)"
    and "ch < next_channel (r i)" "ch \<in> closed_channels (r i)" "loops (r i) ch = Some (Ticking j)"
  shows "\<exists>k\<ge>i. loops (r k) ch = None"
proof (rule ccontr)
  assume alive: "\<not> ?thesis"
  have ticking: "loops (r (i + n)) ch = Some (Ticking j)" for n
  proof (induction n)
    case (Suc n)
    then have "loops (r (Suc (i + n))) ch \<in> {Some (Ticking j), None}"
      using run_loop [OF run assms(4), of n] by auto
    moreover have "loops (r (Suc (i + n))) ch \<noteq> None" using alive by (metis le_add1 le_SucI)
    ultimately show ?case by simp
  qed (simp add: assms(6))
  have "ch \<in> closed_channels (r (i + n))" for n
    using run_loop [OF run assms(4), of n] assms(5) by blast
  then have "loop_enabled ch (r (i + n)) \<and> loops (r (Suc (i + n))) ch = loops (r (i + n)) ch" for n
    using ticking [of n] ticking [of "Suc n"] assms(3) by (simp add: loop_enabled_def)
  then have "\<forall>k\<ge>i. loop_enabled ch (r k) \<and> loops (r (Suc k)) ch = loops (r k) ch"
    by (metis le_add_diff_inverse)
  with fair show False unfolding fair_def by blast
qed

lemma closed_ends:
  assumes run: "is_run arch mo c sc r" and fair: "fair r" and np: "\<And>k. \<not> panicked (r k)"
    and next_ch: "ch < next_channel (r i)" and closed: "ch \<in> closed_channels (r i)"
  shows "\<exists>k\<ge>i. loops (r k) ch = None"
proof (cases "\<exists>k\<ge>i. \<exists>j. loops (r k) ch = Some (Ticking j)")
  case True
  then obtain k j where k: "k \<ge> i" "loops (r k) ch = Some (Ticking j)" by blast
  then obtain n where "k = i + n" using le_Suc_ex by blast
  with run_loop [OF run next_ch, of n] closed
  have "ch < next_channel (r k)" "ch \<in> closed_channels (r k)" by auto
  from ticking_ends [OF run fair np this k(2)] k(1) show ?thesis using le_trans by blast
next
  case False
  show ?thesis
  proof (rule ccontr)
    assume alive: "\<not> ?thesis"
    have new: "\<exists>j. loops (r k) ch = Some (NewGoroutine j)" if "i \<le> k" for k
    proof -
      have "loops (r k) ch \<noteq> None" using alive that by auto
      then obtain l where "loops (r k) ch = Some l" by auto
      then show ?thesis using False \<open>i \<le> k\<close> by (cases l) auto
    qed
    have "loop_enabled ch (r k) \<and> loops (r (Suc k)) ch = loops (r k) ch" if "i \<le> k" for k
    proof -
      obtain n where n: "k = i + n" using le_Suc_ex \<open>i \<le> k\<close> by blast
      obtain j where j: "loops (r k) ch = Some (NewGoroutine j)" using new \<open>i \<le> k\<close> by blast
      then have "loops (r (Suc k)) ch = Some (NewGoroutine j)"
        using run_loop [OF run next_ch, of n] n False \<open>i \<le> k\<close> by (auto dest: le_SucI)
      with j np show ?thesis by (simp add: loop_enabled_def)
    qed
    with fair show False unfolding fair_def by blast
  qed
qed

section \<open>Properties\<close>

text \<open>
  C11. Cancellation is effective: in every fair run with a positive retransmit delay, a retransmission
  loop whose topic entry is gone (superseded by another publish, or shut down) ends eventually and
  never runs again.
\<close>

theorem cancelled_loop_ends:
  assumes "is_run arch mo c sc r" "fair r" "0 < RetransmitDelay (MPubsub c)"
    and "ch < next_channel (r i)" "\<forall>t. indefiniteJobs (r i) t \<noteq> Some ch"
  shows "\<exists>k\<ge>i. \<forall>m\<ge>k. loops (r m) ch = None"
proof -
  note reach = run_reachable [OF assms(1)]
  have np: "\<not> panicked (r k)" for k using reachable_panic [OF reach] assms(3) by fastforce
  have "loops (r i) ch = None \<or> ch \<in> closed_channels (r i)"
  proof (cases "loops (r i) ch")
    case (Some l)
    then show ?thesis
      using reachable_channels_ok [OF reach [of i]] table_iff assms(5) unfolding channels_ok_def by blast
  qed simp
  then obtain k where "k \<ge> i" "loops (r k) ch = None"
    using closed_ends [OF assms(1,2) np assms(4)] by blast
  then show ?thesis using ended_stays [OF assms(1,4)] by blast
qed

text \<open>A run to apply it to: one message, superseded by nothing, then shutdown.\<close>

definition seconds_config :: Config where
  "seconds_config = demo_config\<lparr>MPubsub := (MPubsub demo_config)\<lparr>RetransmitCount := -1,
     RetransmitDelayRaw := ''1s'', PromoteQoS := False\<rparr>\<rparr>"

definition seconds_loaded :: Config where
  "seconds_loaded = withDelayAndKey seconds_config Second"

lemma seconds_loaded: "applyDefaults seconds_config = Ret seconds_loaded" "validate seconds_loaded = Ret ()"
proof -
  show "applyDefaults seconds_config = Ret seconds_loaded"
    by (simp add: applyDefaults_Ret seconds_loaded_def resolveDelay_def)
      (simp add: seconds_config_def demo_config_def parse_duration_examples duration_consts)
  show "validate seconds_loaded = Ret ()"
    unfolding validate_Ret
    by (simp add: validated_def seconds_loaded_def seconds_config_def demo_config_def withDelayAndKey_def
        defaultScalars_def entry_valid_def dir_consts)
qed

lemma seconds_facts:
  "Bridges seconds_loaded = [demo_entry]" "EncryptionKey (MPubsub seconds_loaded) = None"
  "RetransmitDelay (MPubsub seconds_loaded) = Second" "effectiveRetransmitCount (MPubsub seconds_loaded) qos = -1"
  by (simp_all add: seconds_loaded_def seconds_config_def demo_config_def withDelayAndKey_def
      defaultScalars_def demo_entry_def effectiveRetransmitCount_def Let_def)

lemma seconds_first_sent:
  "\<exists>j. planned j = -1 \<and> reachable arch mo seconds_loaded sc ((init1 j)\<lparr>messages := 1, wire := [j], handler_at := Starting j\<rparr>)"
proof -
  obtain pkt where pkt: "encodeForBus arch mo seconds_loaded (busTopic demo_entry ''a'') []
      (schemaPtr demo_entry) = Ret pkt"
    using demo_entry_encodes seconds_facts(2) by blast
  let ?j = "first_job seconds_loaded sc demo_entry ''a'' 0 pkt"
  have "reachable arch mo seconds_loaded sc ((init1 ?j)\<lparr>messages := 1, wire := [?j], handler_at := Starting ?j\<rparr>)"
    by (rule first_sent [OF _ _ pkt]) (simp_all add: seconds_facts from_mqtt_def dir_consts demo_entry_def)
  then show ?thesis by (intro exI [of _ ?j]) (simp add: first_job_def seconds_facts)
qed

text \<open>
  C25. Shutdown cancels what is registered: in whatever order the map is visited, draining the table closes
  no channel twice, empties it, and leaves every running loop with a closed channel.
\<close>

theorem drain_cancels_all:
  assumes "reachable arch mo c sc g" "distinct (map fst es)" "map_of es = indefiniteJobs g"
  shows "panic (drain es g) = panic g \<and> indefiniteJobs (drain es g) = Map.empty \<and>
    (\<forall>ch. loops (drain es g) ch \<noteq> None \<longrightarrow> ch \<in> closed_channels (drain es g))"
proof -
  have reg: "\<forall>(t, ch)\<in>set es. indefiniteJobs g t = Some ch"
    using assms(2) by (auto simp flip: assms(3))
  have ok: "table_ok (indefiniteJobs g) (closed_channels g) (next_channel g) (loops g)"
    using reachable_channels_ok [OF assms(1)] by (simp add: channels_ok_def)
  have d: "table_ok (indefiniteJobs (drain es g)) (closed_channels (drain es g))
      (next_channel (drain es g)) (loops (drain es g))"
    "panic (drain es g) = panic g"
    "indefiniteJobs (drain es g) = (\<lambda>t. if t \<in> fst ` set es then None else indefiniteJobs g t)"
    using drain_ok [OF ok assms(2) reg] unfolding Let_def by blast+
  have "t \<in> fst ` set es" if "indefiniteJobs g t \<noteq> None" for t
    using that by (simp flip: assms(3) add: map_of_eq_None_iff)
  then have empty: "indefiniteJobs (drain es g) = Map.empty" using d(3) by fastforce
  have "ch \<in> closed_channels (drain es g)" if "loops (drain es g) ch = Some l" for ch l
    using table_iff [OF d(1), of "jtopic (job_of l)" ch] that empty by auto
  with d(2) empty show ?thesis by auto
qed

lemma seconds_loop:
  "\<exists>j. planned j = -1 \<and> reachable arch mo seconds_loaded sc (first_loop j)"
proof -
  obtain j where j: "planned j = -1"
    "reachable arch mo seconds_loaded sc ((init1 j)\<lparr>messages := 1, wire := [j], handler_at := Starting j\<rparr>)"
    using seconds_first_sent by blast
  have "step arch mo seconds_loaded sc ((init1 j)\<lparr>messages := 1, wire := [j], handler_at := Starting j\<rparr>) (first_loop j)"
    using step.StartRetransmits [of "(init1 j)\<lparr>messages := 1, wire := [j], handler_at := Starting j\<rparr>" j] j(1)
    by (simp add: first_loop_def engine_init_def engine_ops Let_def)
  with j show ?thesis using reachable.more by blast
qed

theorem drain_cancels_all_witness:
  "\<exists>g t. reachable demo_arch demo_order seconds_loaded 2 g \<and> indefiniteJobs g t = Some 0 \<and>
     0 \<in> closed_channels (drain [(t, 0)] g)"
proof -
  obtain j where g: "reachable demo_arch demo_order seconds_loaded 2 (first_loop j)"
    using seconds_loop by blast
  have "map_of [(jtopic j, 0)] = indefiniteJobs (first_loop j)" by (simp add: first_loop_def)
  from drain_cancels_all [OF g _ this] have "0 \<in> closed_channels (drain [(jtopic j, 0)] (first_loop j))"
    by (auto simp: first_loop_def)
  with g show ?thesis by (intro exI conjI) (assumption, simp_all add: first_loop_def)
qed

text \<open>
  C34. Shutdown and publishing race: with a configuration LoadConfig accepts, a message whose first send is
  done when shutdown drains the table starts its loop afterwards; the socket is closed and a loop with
  an open channel is still running, which nothing in Run will ever cancel.
\<close>

theorem shutdown_race:
  "LoadConfig (\<lambda>_. Some []) (\<lambda>_. Some seconds_config) path = Ret seconds_loaded \<and>
   (\<exists>g j. reachable arch mo seconds_loaded sc g \<and> closed (conn (sock g)) \<and> handler_at g = Idle \<and>
      loops g 0 = Some (Ticking j) \<and> 0 \<notin> closed_channels g)"
proof
  show "LoadConfig (\<lambda>_. Some []) (\<lambda>_. Some seconds_config) path = Ret seconds_loaded"
    by (simp add: LoadConfig_def seconds_loaded)
  obtain j where j: "planned j = -1"
    "reachable arch mo seconds_loaded sc ((init1 j)\<lparr>messages := 1, wire := [j], handler_at := Starting j\<rparr>)"
    using seconds_first_sent by blast
  let ?g0 = "(init1 j)\<lparr>messages := 1, wire := [j], handler_at := Starting j\<rparr>"
  let ?g1 = "?g0\<lparr>phase := Drained\<rparr>" and ?g2 = "?g0\<lparr>phase := SocketClosed, sock := Close (sock_after j)\<rparr>"
  let ?g3 = "(first_loop j)\<lparr>phase := SocketClosed, sock := Close (sock_after j)\<rparr>"
  let ?g4 = "?g3\<lparr>loops := [0 \<mapsto> Ticking j]\<rparr>"
  have "step arch mo seconds_loaded sc ?g0 ?g1"
    using step.Drain [of ?g0 "[]"] by (simp add: engine_init_def drain_def)
  moreover have "step arch mo seconds_loaded sc ?g1 ?g2"
    using step.CloseSocket [of ?g1] by (simp add: engine_init_def)
  moreover have "step arch mo seconds_loaded sc ?g2 ?g3"
    using step.StartRetransmits [of ?g2 j] j(1) by (simp add: first_loop_def engine_init_def engine_ops Let_def)
  moreover have "step arch mo seconds_loaded sc ?g3 ?g4"
    using step.NewTicker [of ?g3 0 j seconds_loaded]
    by (simp add: first_loop_def engine_init_def seconds_facts duration_consts)
  ultimately have "reachable arch mo seconds_loaded sc ?g4" using j(2) by (blast intro: reachable.more)
  then show "\<exists>g j. reachable arch mo seconds_loaded sc g \<and> closed (conn (sock g)) \<and> handler_at g = Idle \<and>
      loops g 0 = Some (Ticking j) \<and> 0 \<notin> closed_channels g"
    by (intro exI [of _ ?g4] exI [of _ j]) (simp add: first_loop_def engine_init_def Close_def)
qed

section \<open>A fair run to its end\<close>

lemma run_of_list:
  assumes "xs \<noteq> []" "xs ! 0 = init0" "\<And>i. Suc i < length xs \<Longrightarrow> step arch mo c sc (xs ! i) (xs ! Suc i)"
  shows "is_run arch mo c sc (\<lambda>i. xs ! min i (length xs - 1))"
proof -
  have "step arch mo c sc (xs ! min i (length xs - 1)) (xs ! min (Suc i) (length xs - 1)) \<or>
      xs ! min (Suc i) (length xs - 1) = xs ! min i (length xs - 1)" for i
  proof (cases "Suc i < length xs")
    case True
    then have "min i (length xs - 1) = i" "min (Suc i) (length xs - 1) = Suc i" by simp_all
    then show ?thesis using assms(3) [OF True] by simp
  next
    case False
    then have "min i (length xs - 1) = length xs - 1" "min (Suc i) (length xs - 1) = length xs - 1" by simp_all
    then show ?thesis by simp
  qed
  moreover have "\<not> closed (conn demo_sock)" "sent (conn demo_sock) = []" by (simp_all add: demo_sock_def demo_conn_def)
  ultimately show ?thesis using assms(1,2) by (auto simp: is_run_def)
qed

lemma fair_of_list:
  assumes "loops (last xs) = Map.empty" "xs \<noteq> []"
  shows "fair (\<lambda>i. xs ! min i (length xs - 1))"
  unfolding fair_def
proof (intro allI)
  fix ch i
  have "xs ! min (max i (length xs)) (length xs - 1) = last xs" using assms(2) by (simp add: last_conv_nth)
  then have "\<not> loop_enabled ch (xs ! min (max i (length xs)) (length xs - 1))"
    using assms(1) by (simp add: loop_enabled_def)
  then show "\<exists>k\<ge>i. \<not> loop_enabled ch (xs ! min k (length xs - 1)) \<or>
      loops (xs ! min (Suc k) (length xs - 1)) ch \<noteq> loops (xs ! min k (length xs - 1)) ch"
    by (intro exI [of _ "max i (length xs)"]) simp
qed

definition shutdown_run :: "job \<Rightarrow> engine list" where
  "shutdown_run j =
     [init0,
      init0\<lparr>messages := 1, handler_at := Cancelling j\<rparr>,
      init0\<lparr>messages := 1, handler_at := Sending j\<rparr>,
      (init1 j)\<lparr>messages := 1, wire := [j], handler_at := Starting j\<rparr>,
      first_loop j,
      (first_loop j)\<lparr>loops := [0 \<mapsto> Ticking j]\<rparr>,
      (first_loop j)\<lparr>loops := [0 \<mapsto> Ticking j], closed_channels := {0}, indefiniteJobs := Map.empty, phase := Drained\<rparr>,
      (first_loop j)\<lparr>loops := Map.empty, closed_channels := {0}, indefiniteJobs := Map.empty, phase := Drained\<rparr>]"

lemma shutdown_run:
  "\<exists>j. is_run arch mo seconds_loaded sc (\<lambda>i. shutdown_run j ! min i 7) \<and> fair (\<lambda>i. shutdown_run j ! min i 7)"
proof -
  obtain pkt where pkt: "encodeForBus arch mo seconds_loaded (busTopic demo_entry ''a'') []
      (schemaPtr demo_entry) = Ret pkt"
    using demo_entry_encodes seconds_facts(2) by blast
  let ?j = "first_job seconds_loaded sc demo_entry ''a'' 0 pkt"
  let ?xs = "shutdown_run ?j"
  have planned: "planned ?j = -1" by (simp add: first_job_def seconds_facts)
  let ?step = "step arch mo seconds_loaded sc"
  have "?step (?xs ! 0) (?xs ! 1)"
    using step.Deliver [of init0 "hd (configured_subs seconds_loaded (Bridges seconds_loaded))" seconds_loaded demo_entry
        "busTopic demo_entry ''a''" "''a''" arch mo "[]" pkt sc 0] pkt
    by (simp add: shutdown_run_def engine_init_def first_job_def seconds_facts from_mqtt_def dir_consts demo_entry_def
        configured_subs_def)
  moreover have "?step (?xs ! 1) (?xs ! 2)"
    using step.Cancel [of "?xs ! 1" ?j arch mo seconds_loaded sc]
    by (simp add: shutdown_run_def engine_init_def cancelIndefinite_def)
  moreover have "?step (?xs ! 2) (?xs ! 3)"
    using step.FirstSend [of "?xs ! 2" ?j "sock_after ?j" arch mo seconds_loaded sc] demo_sock_sends [of ?j]
    by (simp add: shutdown_run_def engine_init_def record_send_def)
  moreover have "?step (?xs ! 3) (?xs ! 4)"
    using step.StartRetransmits [of "?xs ! 3" ?j arch mo seconds_loaded sc] planned
    by (simp add: shutdown_run_def first_loop_def engine_init_def engine_ops Let_def)
  moreover have "?step (?xs ! 4) (?xs ! 5)"
    using step.NewTicker [of "?xs ! 4" 0 ?j seconds_loaded arch mo sc]
    by (simp add: shutdown_run_def first_loop_def engine_init_def seconds_facts duration_consts)
  moreover have "?step (?xs ! 5) (?xs ! 6)"
    using step.Drain [of "?xs ! 5" "[(jtopic ?j, 0)]" arch mo seconds_loaded sc]
    by (simp add: shutdown_run_def first_loop_def engine_init_def drain_def engine_ops)
  moreover have "?step (?xs ! 6) (?xs ! 7)"
    using step.LoopExit [of "?xs ! 6" 0 ?j arch mo seconds_loaded sc]
    by (simp add: shutdown_run_def first_loop_def engine_init_def)
  moreover have "i \<in> {0, 1, 2, 3, 4, 5, 6}" if "Suc i < length ?xs" for i
    using that by (auto simp: shutdown_run_def)
  ultimately have steps: "?step (?xs ! i) (?xs ! Suc i)" if "Suc i < length ?xs" for i
    using that by (fastforce simp: eval_nat_numeral)
  have len: "length ?xs - 1 = 7" "?xs \<noteq> []" "?xs ! 0 = init0" "loops (last ?xs) = Map.empty"
    by (simp_all add: shutdown_run_def)
  show ?thesis
    using run_of_list [OF len(2,3) steps] fair_of_list [OF len(4,2)] unfolding len(1) by blast
qed

theorem cancelled_loop_ends_witness:
  "\<exists>r. is_run demo_arch demo_order seconds_loaded 2 r \<and> (\<exists>j. loops (r 6) 0 = Some (Ticking j)) \<and>
     (\<exists>k\<ge>6. \<forall>m\<ge>k. loops (r m) 0 = None)"
proof -
  obtain j where r: "is_run demo_arch demo_order seconds_loaded 2 (\<lambda>i. shutdown_run j ! min i 7)"
    "fair (\<lambda>i. shutdown_run j ! min i 7)"
    using shutdown_run by blast
  have d: "0 < RetransmitDelay (MPubsub seconds_loaded)" by (simp add: seconds_facts duration_consts)
  have "0 < next_channel (shutdown_run j ! min 6 7)"
    "\<forall>t. indefiniteJobs (shutdown_run j ! min 6 7) t \<noteq> Some 0"
    "loops (shutdown_run j ! min 6 7) 0 = Some (Ticking j)"
    by (simp_all add: shutdown_run_def first_loop_def)
  with cancelled_loop_ends [OF r d, of 0 6] r(1) show ?thesis by blast
qed

end
