(* ===== verification/Bridge_Props.thy ===== *)
theory Bridge_Props
  imports Dispatch Retransmit_Live Schema_Props
begin

text \<open>
  The bridge as a whole (\<open>bridges/mqtt-go/bridge.go\<close>): the tables that Run builds, what the receive loop
  publishes to MQTT stated in terms of the configuration alone, the encryption policy, and a message's
  way from one bridge to another.
\<close>

section \<open>Starting up\<close>

text \<open>A bridge that \<open>NewBridge\<close> made, whose \<open>Verbose\<close> flag was set, and that \<open>Run\<close> configured.\<close>

definition started :: "os_calls \<Rightarrow> mqtt_calls \<Rightarrow> Config \<Rightarrow> Bridge \<Rightarrow> bool" where
  "started os mq c b \<longleftrightarrow>
     (\<exists>n n' b0 v. NewBridge os c n = (Ret b0, n') \<and> configureRoutes os mq (b0\<lparr>Verbose := v\<rparr>) = Ret b)"

lemma OpenMulticastSocket_Ret:
  "OpenMulticastSocket os mp n = (Ret m, n') \<Longrightarrow> joined_ok m \<and> members (conn m) = [] \<and> sent (conn m) = []"
  by (auto simp: OpenMulticastSocket_def joined_ok_def Let_def split: if_splits option.splits)

lemma NewBridge_Ret:
  assumes "NewBridge os c n = (Ret b, n')"
  shows "ParseScope (Scope (MPubsub c)) = Ret (bscope b) \<and> cfg b = c \<and> crcToMQTT b = Map.empty \<and>
    subscriptions b = [] \<and> joined_ok (mcast b) \<and> members (conn (mcast b)) = [] \<and> sent (conn (mcast b)) = []"
proof -
  obtain sc m where "ParseScope (Scope (MPubsub c)) = Ret sc" "OpenMulticastSocket os (MPubsub c) n = (Ret m, n')"
      "bscope b = sc" "cfg b = c" "crcToMQTT b = Map.empty" "subscriptions b = []" "mcast b = m"
    using assms by (auto simp: NewBridge_def Let_def split: outcome.splits prod.splits)
  with OpenMulticastSocket_Ret [of os "MPubsub c" n m n'] show ?thesis by simp
qed

lemma started_tables:
  assumes "started os mq c b"
  shows "ParseScope (Scope (MPubsub c)) = Ret (bscope b) \<and> cfg b = c \<and>
    (\<forall>crc. routesFor b crc = configured_routes (Bridges c) crc) \<and>
    subscriptions b = configured_subs c (Bridges c) \<and>
    members (conn (mcast b)) = fold add_member (configured_groups (bscope b) (Bridges c)) [] \<and>
    sent (conn (mcast b)) = []"
proof -
  obtain n n' b0 v where b0: "NewBridge os c n = (Ret b0, n')" "configureRoutes os mq (b0\<lparr>Verbose := v\<rparr>) = Ret b"
    using assms by (auto simp: started_def)
  note new = NewBridge_Ret [OF b0(1)]
  have "go_for (configureEntry os mq) (Bridges c) (b0\<lparr>Verbose := v\<rparr>) = Ret b"
    using b0(2) new by (auto simp: configureRoutes_def split: if_splits)
  from configureEntries_Ret [OF this] new show ?thesis by (simp add: routesFor_def)
qed

lemma loaded_schemas:
  assumes "defaulted c" "started os mq c b"
  shows "routes_wf b"
proof -
  have "schema_wf s" if "e \<in> set (Bridges c)" "schemaPtr e = Some s" for e s
    using assms(1) that by (force simp: defaulted_def)
  then show ?thesis
    using started_tables [OF assms(2)]
    by (auto simp: routes_wf_def configured_routes_def route_of_def)
qed



section \<open>Receiving\<close>

text \<open>The datagrams the loop gets to see.\<close>

definition heard :: "read_event list \<Rightarrow> bytes list" where
  "heard evs = List.map_filter (\<lambda>ev. case ev of Datagram d \<Rightarrow> Some (take maxDatagram d) | _ \<Rightarrow> None)
     (takeWhile (\<lambda>ev. ev \<noteq> ContextDone \<and> ev \<noteq> ReadError True) evs)"

text \<open>What the configuration prescribes for a decoded packet.\<close>

definition publication :: "Config \<Rightarrow> BridgeEntry \<Rightarrow> bytes \<Rightarrow> mqtt_publish" where
  "publication c e payload =
     \<lparr>pTopic = MQTTTopic e, pQoS = QoS (MQTT c), pRetain = Retain (MQTT c), pPayload = payload\<rparr>"

definition prescribed :: "Config \<Rightarrow> DecodedPacket \<Rightarrow> mqtt_publish list" where
  "prescribed c pkt =
     (if Encoding pkt = encodingProto \<and> length (Payload pkt) < 2 then []
      else List.map_filter (\<lambda>e. map_option (publication c e) (route_payload pkt (route_of e)))
        (filter (\<lambda>e. into_mqtt e \<and> TopicCRC32 (MPubsubTopic e) = TopicCRC pkt) (Bridges c)))"

definition prescribed_for :: "Config \<Rightarrow> bytes \<Rightarrow> mqtt_publish list" where
  "prescribed_for c d =
     (case DecodePacket d (EncryptionKey (MPubsub c)) of Ret pkt \<Rightarrow> prescribed c pkt | _ \<Rightarrow> [])"

lemma dispatched_prescribed:
  assumes "started os mq c b"
  shows "dispatched b pkt = prescribed c pkt"
proof -
  have "List.map_filter f (map g xs) = List.map_filter (\<lambda>x. f (g x)) xs"
    for f :: "mpubsubToMQTTRoute \<Rightarrow> mqtt_publish option" and g :: "BridgeEntry \<Rightarrow> mpubsubToMQTTRoute" and xs
    by (simp add: List.map_filter_def filter_map comp_def)
  then show ?thesis
    using started_tables [OF assms]
    by (simp add: dispatched_def prescribed_def configured_routes_def publication_def [abs_def] route_of_def)
qed

lemma receive_prescribed:
  assumes "defaulted c" "started os mq c b"
  shows "published (receiveDatagram b d) = Some (prescribed_for c d)"
  using receiveDatagram_contract [OF loaded_schemas [OF assms], of d] started_tables [OF assms(2)]
  by (simp add: prescribed_for_def dispatched_prescribed [OF assms(2)] cong: outcome.case_cong)

lemma published_Ret: "published r = Some ps \<Longrightarrow> \<exists>x. r = Some (Ret x)"
  by (cases r rule: published.cases) auto

lemma loop_prescribed:
  assumes "defaulted c" "started os mq c b"
  shows "map published (mcastReceiveLoop b evs) = map (\<lambda>d. Some (prescribed_for c d)) (heard evs)"
proof (induction evs)
  case Nil
  show ?case by (simp add: heard_def map_filter_simps)
next
  case (Cons ev evs)
  show ?case
  proof (cases ev)
    case (Datagram d)
    note p = receive_prescribed [OF assms, of "take maxDatagram d"]
    obtain x where "receiveDatagram b (take maxDatagram d) = Some (Ret x)"
      using published_Ret [OF p] by blast
    with p Cons show ?thesis by (simp add: Datagram heard_def map_filter_simps)
  next
    case (ReadError stop)
    with Cons show ?thesis by (simp add: heard_def map_filter_simps)
  qed (simp add: heard_def map_filter_simps)
qed

text \<open>
  C1. The receive loop implements the configuration.  For every sequence of reads, valid or hostile, the
  loop neither panics nor hangs, and each datagram it sees makes it publish exactly what the
  configuration prescribes for the packet it decodes to: for every mpubsub_to_mqtt entry of that topic
  checksum, in order, the raw payload or the JSON of a body with that entry's schema id; a datagram that
  does not decode publishes nothing.
\<close>

theorem receive_loop_refines:
  assumes "defaulted c" "started os mq c b"
  shows "map published (mcastReceiveLoop b evs) = map (\<lambda>d. Some (prescribed_for c d)) (heard evs)"
  by (rule loop_prescribed [OF assms])

lemma encrypted_packet:
  assumes "DecodePacket d key = Ret pkt" "WasEncrypted pkt"
  shows "d ! 10 = encModeXXTEA \<and> key \<noteq> None"
  using assms by (auto simp: DecodePacket_def go_bind_eq_Ret go_at_def split: if_splits option.splits)

lemma route_payload_source:
  assumes "route_payload pkt r = Some q"
  shows "(rRequireEncryption r \<longrightarrow> WasEncrypted pkt) \<and>
    (case rSchema r of
       None \<Rightarrow> Encoding pkt = encodingRaw \<and> q = Payload pkt
     | Some s \<Rightarrow> ProtoToJSON s (drop 2 (Payload pkt)) = Some (Ret q))"
  using assms by (auto simp: route_payload_def split: if_splits option.splits outcome.splits)

lemma prescribed_source:
  assumes "p \<in> set (prescribed c pkt)"
  shows "\<exists>e\<in>set (Bridges c). into_mqtt e \<and> TopicCRC pkt = TopicCRC32 (MPubsubTopic e) \<and>
    pTopic p = MQTTTopic e \<and> (RequireEncryption e \<longrightarrow> WasEncrypted pkt) \<and>
    (case schemaPtr e of
       None \<Rightarrow> Encoding pkt = encodingRaw \<and> pPayload p = Payload pkt
     | Some s \<Rightarrow> ProtoToJSON s (drop 2 (Payload pkt)) = Some (Ret (pPayload p)))"
proof -
  from assms obtain e q where e: "e \<in> set (Bridges c)" "into_mqtt e" "TopicCRC32 (MPubsubTopic e) = TopicCRC pkt"
      "route_payload pkt (route_of e) = Some q" "p = publication c e q"
    by (auto simp: prescribed_def List.map_filter_def split: if_splits)
  from route_payload_source [OF e(4)] e show ?thesis
    by (intro bexI [of _ e]) (simp_all add: route_of_def publication_def split: option.splits)
qed

text \<open>
  C2. The encryption policy holds, datagram by datagram.  Every message that an iteration of the receive
  loop publishes comes from the datagram that this very iteration read and from an mpubsub_to_mqtt entry
  with that datagram's topic checksum: its payload is the datagram's raw payload, or the JSON of the
  datagram's body on an entry with a schema.  If the entry requires encryption, that datagram was marked
  as encrypted and was decrypted with the configured key.
\<close>

theorem require_encryption_enforced:
  assumes "defaulted c" "started os mq c b"
    and "i < length (mcastReceiveLoop b evs)" "published (mcastReceiveLoop b evs ! i) = Some ps" "p \<in> set ps"
  shows "i < length (heard evs) \<and> (\<exists>pkt e.
    DecodePacket (heard evs ! i) (EncryptionKey (MPubsub c)) = Ret pkt \<and> e \<in> set (Bridges c) \<and>
    Direction e = DirMPubsubToMQTT \<and> TopicCRC pkt = TopicCRC32 (MPubsubTopic e) \<and> pTopic p = MQTTTopic e \<and>
    (case schemaPtr e of
       None \<Rightarrow> Encoding pkt = encodingRaw \<and> pPayload p = Payload pkt
     | Some s \<Rightarrow> ProtoToJSON s (drop 2 (Payload pkt)) = Some (Ret (pPayload p))) \<and>
    (RequireEncryption e \<longrightarrow>
       heard evs ! i ! 10 = encModeXXTEA \<and> WasEncrypted pkt \<and> EncryptionKey (MPubsub c) \<noteq> None))"
proof -
  let ?key = "EncryptionKey (MPubsub c)"
  note loop = loop_prescribed [OF assms(1,2), of evs]
  have i: "i < length (heard evs)" using assms(3) arg_cong [OF loop, of length] by simp
  have "published (mcastReceiveLoop b evs ! i) = Some (prescribed_for c (heard evs ! i))"
    using arg_cong [OF loop, of "\<lambda>xs. xs ! i"] assms(3) i by simp
  then have "p \<in> set (prescribed_for c (heard evs ! i))" using assms(4,5) by simp
  then obtain pkt where pkt: "DecodePacket (heard evs ! i) ?key = Ret pkt" "p \<in> set (prescribed c pkt)"
    by (cases "DecodePacket (heard evs ! i) ?key") (auto simp: prescribed_for_def)
  from prescribed_source [OF pkt(2)] i pkt(1) encrypted_packet [OF pkt(1)] show ?thesis
    unfolding into_mqtt_def by blast
qed

section \<open>From one bridge to another\<close>

lemma bus_raw:
  assumes "encodeForBus arch mo c topic payload None = Ret d"
  shows "DecodePacket d (EncryptionKey (MPubsub c)) =
    Ret (encoded_packet (EncryptionKey (MPubsub c)) topic payload encodingRaw)"
proof -
  have "EncodePacket topic payload encodingRaw (EncryptionKey (MPubsub c)) = Ret d"
    using assms by (simp add: encodeForBus_eq)
  from encoded_decodes [OF this] show ?thesis ..
qed

lemma bus_proto:
  assumes "encodeForBus arch mo c topic doc (Some s) = Ret d"
  shows "\<exists>pb. JSONToProto arch mo s doc = Ret pb \<and> length pb < 65536 \<and>
    DecodePacket d (EncryptionKey (MPubsub c)) =
      Ret (encoded_packet (EncryptionKey (MPubsub c)) topic (le_bytes16 (SchemaID s) @ pb) encodingProto)"
proof -
  obtain pb where pb: "JSONToProto arch mo s doc = Ret pb"
      "EncodePacket topic (le_bytes16 (SchemaID s) @ pb) encodingProto (EncryptionKey (MPubsub c)) = Ret d"
    using assms by (auto simp: encodeForBus_eq go_bind_eq_Ret)
  note d = encoded_decodes [OF pb(2), THEN conjunct1]
  have "length pb < 65536"
    using decoded_packet [OF d]
    by (auto simp: encoded_packet_def plain_packet_def sealed_packet_def split: option.splits)
  with pb(1) d show ?thesis by blast
qed

lemma encoded_packet_simps [simp]:
  "TopicCRC (encoded_packet key topic payload enc) = TopicCRC32 topic"
  "Encoding (encoded_packet key topic payload enc) = enc"
  "Payload (encoded_packet key topic payload enc) = payload"
  "WasEncrypted (encoded_packet key topic payload enc) = (key \<noteq> None)"
  by (auto simp: encoded_packet_def plain_packet_def sealed_packet_def split: option.split)

lemma packet_schema_id_prefix:
  "packet_schema_id (encoded_packet key topic (le_bytes16 n @ pb) enc) = n"
  by (simp add: packet_schema_id_def le_bytes16_def le_simps)

lemma map_filter_Some: "\<forall>x\<in>set xs. f x = Some (g x) \<Longrightarrow> List.map_filter f xs = map g xs"
  by (induction xs) (simp_all add: map_filter_simps)

lemma map_filter_None: "\<forall>x\<in>set xs. f x = None \<Longrightarrow> List.map_filter f xs = []"
  by (induction xs) (simp_all add: map_filter_simps)

lemma map_filter_if: "List.map_filter (\<lambda>x. if P x then Some (g x) else None) xs = map g (filter P xs)"
  by (induction xs) (simp_all add: map_filter_simps)

text \<open>
  C4. Raw messages cross the bus unchanged.  When one bridge publishes a payload under a topic without a
  schema and another bridge with the same key receives the datagram, it publishes that very payload to
  the MQTT topic of each of its schema-less entries for a topic with that checksum (those that require
  encryption only if there is a key), and nothing else.
\<close>

theorem raw_end_to_end:
  assumes "encodeForBus arch mo c1 topic payload None = Ret d"
    and "defaulted c2" "started os mq c2 b" "EncryptionKey (MPubsub c1) = EncryptionKey (MPubsub c2)"
  shows "published (receiveDatagram b d) = Some (map (\<lambda>e. publication c2 e payload)
    (filter (\<lambda>e. into_mqtt e \<and> TopicCRC32 (MPubsubTopic e) = TopicCRC32 topic \<and> schemaPtr e = None \<and>
       (RequireEncryption e \<longrightarrow> EncryptionKey (MPubsub c2) \<noteq> None)) (Bridges c2)))"
proof -
  let ?key = "EncryptionKey (MPubsub c2)"
  let ?pkt = "encoded_packet ?key topic payload encodingRaw"
  have "prescribed_for c2 d = prescribed c2 ?pkt"
    using bus_raw [OF assms(1)] assms(4) by (simp add: prescribed_for_def)
  moreover have "map_option (publication c2 e) (route_payload ?pkt (route_of e)) =
      (if schemaPtr e = None \<and> (RequireEncryption e \<longrightarrow> ?key \<noteq> None) then Some (publication c2 e payload) else None)" for e
    by (auto simp: route_payload_def route_of_def encodingRaw_def encodingProto_def split: option.split)
  moreover have "encodingRaw \<noteq> encodingProto" by (simp add: encodingRaw_def encodingProto_def)
  ultimately show ?thesis
    using receive_prescribed [OF assms(2,3), of d]
    by (simp add: prescribed_def map_filter_if conj_ac cong: filter_cong)
qed

lemma map_filter_filter:
  "List.map_filter (\<lambda>x. if Q x then F x else None) (filter P xs) = List.map_filter F (filter (\<lambda>x. P x \<and> Q x) xs)"
  by (induction xs) (simp_all add: map_filter_simps split: option.split)

lemma map_filter_same: "\<forall>x\<in>set xs. F x = G x \<Longrightarrow> List.map_filter F xs = List.map_filter G xs"
  by (induction xs) (simp_all add: map_filter_simps split: option.split)

text \<open>The entries on which a body with schema \<open>s\<close> is translated.\<close>

definition schema_routes :: "Config \<Rightarrow> string \<Rightarrow> Schema \<Rightarrow> BridgeEntry list" where
  "schema_routes c topic s =
     filter (\<lambda>e. into_mqtt e \<and> TopicCRC32 (MPubsubTopic e) = TopicCRC32 topic \<and> schemaPtr e = Some s \<and>
        (RequireEncryption e \<longrightarrow> EncryptionKey (MPubsub c) \<noteq> None)) (Bridges c)"

lemma typed_publications:
  assumes "defaulted c2" "started os mq c2 b"
    and "DecodePacket d (EncryptionKey (MPubsub c2)) =
      Ret (encoded_packet (EncryptionKey (MPubsub c2)) topic (le_bytes16 (SchemaID s) @ pb) encodingProto)"
    and "\<forall>e\<in>set (Bridges c2). \<forall>s'. into_mqtt e \<and> TopicCRC32 (MPubsubTopic e) = TopicCRC32 topic \<and> schemaPtr e = Some s' \<and>
      SchemaID s' = SchemaID s \<longrightarrow> s' = s"
  shows "published (receiveDatagram b d) = Some (case ProtoToJSON s pb of
      Some (Ret doc) \<Rightarrow> map (\<lambda>e. publication c2 e doc) (schema_routes c2 topic s) | _ \<Rightarrow> [])"
proof -
  let ?key = "EncryptionKey (MPubsub c2)"
  let ?pkt = "encoded_packet ?key topic (le_bytes16 (SchemaID s) @ pb) encodingProto"
  let ?doc = "case ProtoToJSON s pb of Some (Ret doc) \<Rightarrow> Some doc | _ \<Rightarrow> None"
  let ?here = "\<lambda>e. into_mqtt e \<and> TopicCRC32 (MPubsubTopic e) = TopicCRC32 topic"
  let ?fits = "\<lambda>e. schemaPtr e = Some s \<and> (RequireEncryption e \<longrightarrow> ?key \<noteq> None)"
  have "encodingRaw \<noteq> encodingProto" by (simp add: encodingRaw_def encodingProto_def)
  then have payload: "route_payload ?pkt (route_of e) = (if ?fits e then ?doc else None)"
    if "e \<in> set (filter ?here (Bridges c2))" for e
    using assms(4) that
    by (auto simp: route_payload_def route_of_def packet_schema_id_prefix split: option.split)
  have "List.map_filter (\<lambda>e. map_option (publication c2 e) (route_payload ?pkt (route_of e))) (filter ?here (Bridges c2)) =
      List.map_filter (\<lambda>e. if ?fits e then map_option (publication c2 e) ?doc else None) (filter ?here (Bridges c2))"
    by (intro map_filter_same ballI) (simp only: payload if_distrib [of "map_option _"] option.map)
  also have "\<dots> = (case ?doc of None \<Rightarrow> [] | Some doc \<Rightarrow> map (\<lambda>e. publication c2 e doc) (schema_routes c2 topic s))"
    by (cases ?doc) (simp_all add: map_filter_filter map_filter_None map_filter_Some schema_routes_def conj_ac)
  finally show ?thesis
    using receive_prescribed [OF assms(1,2), of d]
    by (simp add: prescribed_for_def assms(3) prescribed_def split: option.split outcome.split)
qed

text \<open>
  C3. Typed messages cross the bus as typed messages.  When a JSON document is published under a topic
  with a schema and the receiving bridge has the same key, every mpubsub_to_mqtt entry of that topic
  checksum with that schema publishes one JSON document that reads as the values that were sent, as
  their types transport them, and no other entry of the topic, raw or with another schema, publishes
  anything or stands in the way; the only exception is a number too large for its float32 field, with
  which nothing is published.  Schemas on the topic are told apart by their 16-bit ids, so the ids must
  differ.
\<close>

theorem typed_end_to_end:
  assumes "NewSchema sname flds = Ret s" "visits_all mo"
    and "encodeForBus arch mo c1 topic doc (Some s) = Ret d"
    and "defaulted c2" "started os mq c2 b" "EncryptionKey (MPubsub c1) = EncryptionKey (MPubsub c2)"
    and "\<forall>e\<in>set (Bridges c2). \<forall>s'. into_mqtt e \<and> TopicCRC32 (MPubsubTopic e) = TopicCRC32 topic \<and> schemaPtr e = Some s' \<and>
      SchemaID s' = SchemaID s \<longrightarrow> s' = s"
  shows "\<exists>raw. Unmarshal doc = Some raw \<and>
    (if \<forall>k v. document_arrives arch s raw k = Some v \<longrightarrow> printable v
     then \<exists>doc' raw'. Unmarshal doc' = Some raw' \<and>
       map_of raw' = (\<lambda>k. map_option json_view (document_arrives arch s raw k)) \<and>
       published (receiveDatagram b d) = Some (map (\<lambda>e. publication c2 e doc')
         (filter (\<lambda>e. into_mqtt e \<and> TopicCRC32 (MPubsubTopic e) = TopicCRC32 topic \<and> schemaPtr e = Some s \<and>
            (RequireEncryption e \<longrightarrow> EncryptionKey (MPubsub c2) \<noteq> None)) (Bridges c2)))
     else published (receiveDatagram b d) = Some [])"
proof -
  let ?key = "EncryptionKey (MPubsub c2)"
  obtain pb where pb: "JSONToProto arch mo s doc = Ret pb" "length pb < 65536"
      "DecodePacket d ?key = Ret (encoded_packet ?key topic (le_bytes16 (SchemaID s) @ pb) encodingProto)"
    using bus_proto [OF assms(3)] assms(6) by auto
  note publish = typed_publications [OF assms(4,5) pb(3) assms(7), unfolded schema_routes_def]
  have "in_memory pb" using pb(2) by simp
  from document_crosses [OF NewSchema_wf [OF assms(1)] assms(2) pb(1) this]
  obtain raw where raw: "Unmarshal doc = Some raw"
    "if \<forall>k v. document_arrives arch s raw k = Some v \<longrightarrow> printable v
     then \<exists>doc' raw'. ProtoToJSON s pb = Some (Ret doc') \<and> Unmarshal doc' = Some raw' \<and>
       map_of raw' = (\<lambda>k. map_option json_view (document_arrives arch s raw k))
     else ProtoToJSON s pb = Some (Fail MarshalFailed)" by blast
  show ?thesis
  proof (cases "\<forall>k v. document_arrives arch s raw k = Some v \<longrightarrow> printable v")
    case True
    from raw(2) [unfolded if_P [OF True]] obtain doc' raw' where doc':
      "ProtoToJSON s pb = Some (Ret doc')" "Unmarshal doc' = Some raw'"
      "map_of raw' = (\<lambda>k. map_option json_view (document_arrives arch s raw k))" by blast
    show ?thesis
      by (intro exI [of _ raw] conjI raw(1), subst if_P [OF True])
        (intro exI [of _ doc'] exI [of _ raw'] conjI doc'(2,3), simp add: publish doc'(1))
  next
    case False
    from raw(2) [unfolded if_not_P [OF False]] show ?thesis
      by (intro exI [of _ raw] conjI raw(1), subst if_not_P [OF False]) (simp add: publish)
  qed
qed

text \<open>
  C35. An oversize datagram is accepted.  The receive buffer holds maxDatagram bytes, so the tail of a
  longer datagram is cut off before the length check: a datagram of maximal size followed by any bytes,
  which DecodePacket itself rejects for its length, is forwarded as if the tail were not there.
\<close>

theorem oversize_datagram_accepted:
  assumes "length payload = maxPayload" "junk \<noteq> []"
  shows "\<exists>d. EncodePacket topic payload encodingRaw None = Ret d \<and>
    DecodePacket (d @ junk) key = Fail ErrLengthMismatch \<and>
    mcastReceiveLoop b [Datagram (d @ junk)] = mcastReceiveLoop b [Datagram d]"
proof -
  let ?n = "of_nat (length payload) :: u16"
  let ?d = "datagram encodingRaw (TopicCRC32 topic) ?n encModeNone 0 payload"
  have "DecodePacket (?d @ junk) key = DecodePacket (datagram encodingRaw (TopicCRC32 topic) ?n encModeNone 0 (payload @ junk)) key"
    by (simp add: datagram_def)
  also have "\<dots> = Fail ErrLengthMismatch"
    using assms unat_u16_length [of "length payload"]
    by (simp add: DecodePacket_datagram encModeNone_def encModeXXTEA_def)
  finally have "DecodePacket (?d @ junk) key = Fail ErrLengthMismatch" .
  moreover have "length ?d = maxDatagram"
    using assms(1) by (simp add: length_datagram wire_consts)
  then have "take maxDatagram (?d @ junk) = take maxDatagram ?d" by simp
  then have "mcastReceiveLoop b [Datagram (?d @ junk)] = mcastReceiveLoop b [Datagram ?d]"
    by (simp only: mcastReceiveLoop.simps)
  moreover have "EncodePacket topic payload encodingRaw None = Ret ?d"
    using EncodePacket_plain [of encodingRaw payload topic] assms(1) by simp
  ultimately show ?thesis by blast
qed

section \<open>A receiving bridge for the witnesses\<close>

definition demo_route :: "Schema option \<Rightarrow> BridgeEntry" where
  "demo_route sch =
     \<lparr>Direction = ''mpubsub_to_mqtt'', MQTTTopic = ''out'', MPubsubTopic = ''home/x'', RequireEncryption = False,
      SchemaRef = (case sch of None \<Rightarrow> '''' | Some s \<Rightarrow> ID s), schemaPtr = sch\<rparr>"

definition demo_receiver :: "Schema option list \<Rightarrow> Config" where
  "demo_receiver schs = demo_loaded\<lparr>Bridges := map demo_route schs, JSONTranslation := True\<rparr>"

definition demo_mq :: mqtt_calls where
  "demo_mq = \<lparr>connects = True, subscribes = (\<lambda>t q. True)\<rparr>"

lemma demo_receiver_facts:
  "Bridges (demo_receiver schs) = map demo_route schs" "EncryptionKey (MPubsub (demo_receiver schs)) = None"
  by (simp_all add: demo_receiver_def demo_loaded_facts)

lemma demo_receiver_defaulted: "\<forall>s. Some s \<in> set schs \<longrightarrow> schema_wf s \<Longrightarrow> defaulted (demo_receiver schs)"
  by (auto simp: defaulted_def demo_receiver_def demo_route_def demo_loaded_def demo_config_def
      withDelayAndKey_def defaultScalars_def Let_def split: option.split)

lemma demo_joins: "joined_ok m \<Longrightarrow> multicast_group grp \<Longrightarrow> \<exists>sock. Join demo_os grp m = Ret sock"
  using joined_known [of m grp] by (auto simp: Join_def demo_os_def Let_def)

lemma demo_routes_configured:
  "joined_ok (mcast b) \<Longrightarrow> \<exists>b'. go_for (configureEntry demo_os mq) (map demo_route schs) b = Ret b'"
proof (induction schs arbitrary: b)
  case (Cons sch schs)
  obtain sock where "Join demo_os (TopicToGroup ''home/x'' (bscope b)) (mcast b) = Ret sock"
    using demo_joins [OF Cons.prems TopicToGroup_multicast] by blast
  then obtain b1 where b1: "configureEntry demo_os mq (demo_route sch) b = Ret b1"
    by (auto simp: configureEntry_def demo_route_def dir_consts Let_def)
  with Cons.IH [of b1] configureEntry_Ret [OF Cons.prems b1] show ?case by auto
qed simp

lemma demo_receiver_started: "\<exists>b. started demo_os demo_mq (demo_receiver schs) b"
proof -
  have scope: "ParseScope (Scope (MPubsub (demo_receiver schs))) = Ret ScopeLinkLocal"
    by (simp add: demo_receiver_def demo_loaded_def demo_config_def withDelayAndKey_def defaultScalars_def
        Let_def ParseScope_def)
  have "\<exists>m. OpenMulticastSocket demo_os (MPubsub (demo_receiver schs)) 0 = (Ret m, 1)"
    by (simp add: OpenMulticastSocket_def controlHook_def demo_os_def demo_receiver_def demo_loaded_def
        demo_config_def withDelayAndKey_def defaultScalars_def Let_def)
  then obtain b0 where b0: "NewBridge demo_os (demo_receiver schs) 0 = (Ret b0, 1)" "cfg b0 = demo_receiver schs"
    by (auto simp: NewBridge_def scope Let_def)
  have "joined_ok (mcast b0)" using NewBridge_Ret [OF b0(1)] by blast
  then have "\<exists>b. configureRoutes demo_os demo_mq (b0\<lparr>Verbose := v\<rparr>) = Ret b" for v
    using demo_routes_configured [of "b0\<lparr>Verbose := v\<rparr>" demo_mq schs]
    by (simp add: configureRoutes_def demo_mq_def b0(2) demo_receiver_facts)
  with b0(1) show ?thesis unfolding started_def by blast
qed


lemma demo_raw_datagram:
  "\<exists>d. encodeForBus arch mo (demo_receiver [None]) ''home/x'' [1, 2, 3] None = Ret d"
  using EncodePacket_plain [of encodingRaw "[1, 2, 3]" "''home/x''"]
  by (simp add: encodeForBus_eq demo_receiver_facts wire_consts)

theorem raw_end_to_end_witness:
  "\<exists>b d. started demo_os demo_mq (demo_receiver [None]) b \<and>
     encodeForBus demo_arch demo_order (demo_receiver [None]) ''home/x'' [1, 2, 3] None = Ret d \<and>
     published (receiveDatagram b d) = Some [publication (demo_receiver [None]) (demo_route None) [1, 2, 3]]"
proof -
  obtain b where b: "started demo_os demo_mq (demo_receiver [None]) b" using demo_receiver_started by blast
  obtain d where d: "encodeForBus demo_arch demo_order (demo_receiver [None]) ''home/x'' [1, 2, 3] None = Ret d"
    using demo_raw_datagram by blast
  have "defaulted (demo_receiver [None])" by (rule demo_receiver_defaulted) simp
  from raw_end_to_end [OF d this b refl] b d show ?thesis
    by (auto simp: demo_receiver_facts demo_route_def into_mqtt_def dir_consts)
qed

lemma demo_published:
  "\<exists>b d. started demo_os demo_mq (demo_receiver [None]) b \<and>
     publication (demo_receiver [None]) (demo_route None) [1, 2, 3] \<in> set (prescribed_for (demo_receiver [None]) (take maxDatagram d))"
proof -
  obtain b where b: "started demo_os demo_mq (demo_receiver [None]) b" using demo_receiver_started by blast
  obtain d where d: "EncodePacket ''home/x'' [1, 2, 3] encodingRaw None = Ret d"
    using EncodePacket_plain [of encodingRaw "[1, 2, 3]" "''home/x''"] by (simp add: wire_consts)
  note dec = encoded_decodes [OF d]
  have "encodingRaw \<noteq> encodingProto" by (simp add: encodingRaw_def encodingProto_def)
  then have "publication (demo_receiver [None]) (demo_route None) [1, 2, 3] \<in> set (prescribed_for (demo_receiver [None]) (take maxDatagram d))"
    using dec by (simp add: prescribed_for_def demo_receiver_facts prescribed_def demo_route_def into_mqtt_def
        dir_consts map_filter_simps route_payload_def route_of_def)
  with b show ?thesis by blast
qed

theorem receive_loop_refines_witness:
  "\<exists>b ps. started demo_os demo_mq (demo_receiver [None]) b \<and>
     map published (mcastReceiveLoop b [ReadError False, Datagram [1, 2, 3], ReadError True]) = [Some []]"
proof -
  obtain b where b: "started demo_os demo_mq (demo_receiver [None]) b" using demo_receiver_started by blast
  have "defaulted (demo_receiver [None])" by (rule demo_receiver_defaulted) simp
  from receive_loop_refines [OF this b, of "[ReadError False, Datagram [1, 2, 3], ReadError True]"] b
  show ?thesis
    by (auto simp: heard_def map_filter_simps prescribed_for_def DecodePacket_def wire_consts)
qed

theorem require_encryption_enforced_witness:
  "\<exists>b d pkt. started demo_os demo_mq (demo_receiver [None]) b \<and>
     DecodePacket (take maxDatagram d) None = Ret pkt \<and> Payload pkt = [1, 2, 3] \<and> TopicCRC pkt = TopicCRC32 ''home/x''"
proof -
  let ?c = "demo_receiver [None]"
  obtain b d where b: "started demo_os demo_mq ?c b"
    "publication ?c (demo_route None) [1, 2, 3] \<in> set (prescribed_for ?c (take maxDatagram d))"
    using demo_published by blast
  have def: "defaulted ?c" by (rule demo_receiver_defaulted) simp
  have heard: "heard [Datagram d] = [take maxDatagram d]" by (simp add: heard_def map_filter_simps)
  have loop: "map published (mcastReceiveLoop b [Datagram d]) = [Some (prescribed_for ?c (take maxDatagram d))]"
    using loop_prescribed [OF def b(1), of "[Datagram d]"] by (simp add: heard)
  then have one: "0 < length (mcastReceiveLoop b [Datagram d])"
      "published (mcastReceiveLoop b [Datagram d] ! 0) = Some (prescribed_for ?c (take maxDatagram d))"
    by (auto simp del: mcastReceiveLoop.simps)
  from require_encryption_enforced [OF def b(1) one b(2)] obtain pkt where
    "DecodePacket (take maxDatagram d) None = Ret pkt" "TopicCRC pkt = TopicCRC32 ''home/x''" "[1, 2, 3] = Payload pkt"
    by (auto simp: heard demo_receiver_facts demo_route_def publication_def)
  with b(1) show ?thesis by (intro exI [of _ b] exI [of _ d] exI [of _ pkt]) simp
qed

text \<open>A second schema on the same topic, with an id of its own.\<close>

abbreviation other_fields :: "SchemaField list" where
  "other_fields \<equiv> [\<lparr>Name = ''on'', Type = ''bool'', Tag = 1, Repeated = False\<rparr>]"

abbreviation other_schema :: Schema where
  "other_schema \<equiv> built_schema ''other'' other_fields"

lemma other_schema: "NewSchema ''other'' other_fields = Ret other_schema"
  by (rule NewSchema_built) (simp_all add: fields_ok_def field_ok_iff validTypes_def)

lemma other_schema_id: "SchemaID other_schema \<noteq> SchemaID json_schema"
proof -
  let ?o = "[''1:bool:on'']" and ?j = "[''2:repeated string:s'', ''7:bytes:k'']"
  have o: "mset (map schema_line other_fields) = mset ?o"
    by (simp add: schema_line_def char_of_def bit_0)
  have j: "mset (map schema_line json_fields) = mset ?j"
    by (simp add: schema_line_def json_fields_def char_of_def bit_0)
  have "sorted ?o" "sorted ?j" by (simp_all add: less_char_def)
  from SchemaID_lines [OF o this(1), of "''other''"] SchemaID_lines [OF j this(2), of "''demo''"] show ?thesis
    by (simp add: crc32_eval)
qed

definition demo_mixed :: Config where
  "demo_mixed = demo_receiver [None, Some other_schema, Some json_schema, None]"

lemma demo_mixed_facts:
  "Bridges demo_mixed = [demo_route None, demo_route (Some other_schema), demo_route (Some json_schema), demo_route None]"
  "EncryptionKey (MPubsub demo_mixed) = None" "defaulted demo_mixed"
  using demo_receiver_defaulted [of "[None, Some other_schema, Some json_schema, None]"]
    NewSchema_wf [OF json_schema] NewSchema_wf [OF other_schema]
  by (auto simp: demo_mixed_def demo_receiver_facts)

theorem typed_end_to_end_witness:
  "\<exists>b d out raw. started demo_os demo_mq demo_mixed b \<and>
     encodeForBus demo_arch demo_order demo_mixed ''home/x'' demo_doc (Some json_schema) = Ret d \<and>
     published (receiveDatagram b d) = Some [publication demo_mixed (demo_route (Some json_schema)) out] \<and>
     Unmarshal out = Some raw \<and> map_of raw ''k'' = Some (VString ''aGk='')"
proof -
  obtain b where b: "started demo_os demo_mq demo_mixed b"
    using demo_receiver_started by (auto simp: demo_mixed_def)
  have "\<exists>d. encodeForBus demo_arch demo_order demo_mixed ''home/x'' demo_doc (Some json_schema) = Ret d"
    by (simp add: encodeForBus_eq demo_json_body demo_mixed_facts EncodePacket_plain wire_consts
        del: string_bytes_def)
  then obtain d where d: "encodeForBus demo_arch demo_order demo_mixed ''home/x'' demo_doc (Some json_schema) = Ret d" ..
  have differ: "other_schema \<noteq> json_schema" using other_schema_id by metis
  have ids: "\<forall>e\<in>set (Bridges demo_mixed). \<forall>s'. into_mqtt e \<and> TopicCRC32 (MPubsubTopic e) = TopicCRC32 ''home/x'' \<and>
      schemaPtr e = Some s' \<and> SchemaID s' = SchemaID json_schema \<longrightarrow> s' = json_schema"
    using other_schema_id by (auto simp: demo_mixed_facts demo_route_def)
  have routes: "filter (\<lambda>e. into_mqtt e \<and> TopicCRC32 (MPubsubTopic e) = TopicCRC32 ''home/x'' \<and>
        schemaPtr e = Some json_schema \<and> (RequireEncryption e \<longrightarrow> EncryptionKey (MPubsub demo_mixed) \<noteq> None))
      (Bridges demo_mixed) = [demo_route (Some json_schema)]"
    using differ by (simp add: demo_mixed_facts demo_route_def into_mqtt_def dir_consts)
  from typed_end_to_end [OF json_schema demo_visits d demo_mixed_facts(3) b refl ids, unfolded routes]
  obtain raw where raw: "Unmarshal demo_doc = Some raw"
    "if \<forall>k v. document_arrives demo_arch json_schema raw k = Some v \<longrightarrow> printable v
     then \<exists>doc' raw'. Unmarshal doc' = Some raw' \<and>
       map_of raw' = (\<lambda>k. map_option json_view (document_arrives demo_arch json_schema raw k)) \<and>
       published (receiveDatagram b d) = Some (map (\<lambda>e. publication demo_mixed e doc') [demo_route (Some json_schema)])
     else published (receiveDatagram b d) = Some []" by blast
  have "raw = demo_raw" using raw(1) by (simp add: demo_unmarshal)
  moreover have "\<forall>k v. document_arrives demo_arch json_schema demo_raw k = Some v \<longrightarrow> printable v"
    by (simp add: demo_arrives)
  ultimately obtain doc' raw' where doc': "Unmarshal doc' = Some raw'"
      "map_of raw' = (\<lambda>k. map_option json_view (document_arrives demo_arch json_schema demo_raw k))"
      "published (receiveDatagram b d) = Some (map (\<lambda>e. publication demo_mixed e doc') [demo_route (Some json_schema)])"
    using raw(2) by auto
  have "map_of raw' ''k'' = Some (VString ''aGk='')"
    by (simp add: doc'(2) demo_arrives coerce_utf8_ascii del: coerce_utf8.simps)
  with b d doc'(1,3) show ?thesis by auto
qed

theorem oversize_datagram_accepted_witness:
  "\<exists>d. EncodePacket ''t'' (replicate maxPayload 7) encodingRaw None = Ret d \<and>
     DecodePacket (d @ [9]) None = Fail ErrLengthMismatch"
  using oversize_datagram_accepted [of "replicate maxPayload 7" "[9]" "''t''" None] by auto

end
