(* ===== verification/Bridge_Main.thy ===== *)
theory Bridge_Main
  imports Bridge_Props
begin

text \<open>
  \<open>bridges/mqtt-go/main.go\<close>: the command.  It loads the configuration, makes the bridge and runs it; every
  error on the way ends the process with status 1.  Parsing the flags and delivering the signal that
  ends \<open>Run\<close> belong to the standard library and the operating system.
\<close>

section \<open>Code\<close>

datatype slog_level = LevelDebug | LevelInfo | LevelWarn | LevelError

definition logLevel :: "string \<Rightarrow> slog_level" where
  "logLevel s =
     (if s = ''debug'' then LevelDebug
      else if s = ''warn'' then LevelWarn
      else if s = ''error'' then LevelError
      else LevelInfo)"

text \<open>The flags of the command, with the defaults of an empty command line.\<close>

record flags =
  config_flag :: string
  log_level_flag :: string
  verbose_flag :: bool

definition default_flags :: flags where
  "default_flags = \<lparr>config_flag = ''bridge.yaml'', log_level_flag = ''info'', verbose_flag = False\<rparr>"

datatype start_error = LoadConfigError config_error | BridgeInitError bridge_error | BridgeRunError bridge_error

text \<open>
  The process after start-up: crashed, ended with a status, or serving, in which case \<open>Run\<close> returns
  no error when the context ends, and the status is 0.
\<close>

datatype process = Crashed | Exited int start_error | Running slog_level Bridge

definition command ::
  "os_calls \<Rightarrow> mqtt_calls \<Rightarrow> (string \<Rightarrow> bytes option) \<Rightarrow> (bytes \<Rightarrow> Config option) \<Rightarrow> flags \<Rightarrow> process" where
  "command os mq readFile yaml fl =
     (let lvl = logLevel (log_level_flag fl) in
      case LoadConfig readFile yaml (config_flag fl) of
        Panic \<Rightarrow> Crashed
      | Fail e \<Rightarrow> Exited 1 (LoadConfigError e)
      | Ret c \<Rightarrow>
          (case fst (NewBridge os c 0) of
             Panic \<Rightarrow> Crashed
           | Fail e \<Rightarrow> Exited 1 (BridgeInitError e)
           | Ret b \<Rightarrow>
               let b = b\<lparr>Verbose := verbose_flag fl\<rparr> in
               (case configureRoutes os mq b of
                  Panic \<Rightarrow> Crashed
                | Fail e \<Rightarrow> Exited 1 (BridgeRunError e)
                | Ret b \<Rightarrow> Running lvl b)))"


section \<open>Start-up does not panic\<close>

lemma Join_no_panic: "Join os g m \<noteq> Panic"
  by (simp add: Join_def Let_def)

lemma configureRoutes_no_panic: "configureRoutes os mq b \<noteq> Panic"
proof -
  have "go_wrap JoinError (Join os g m) \<noteq> Panic" for g m
    using Join_no_panic [of os g m] by (cases "Join os g m") simp_all
  then have "configureEntry os mq e b \<noteq> Panic" for e b
    by (simp add: configureEntry_def Let_def go_bind_eq_Panic)
  then have "go_for (configureEntry os mq) es b \<noteq> Panic" for es by (rule go_for_not_Panic)
  then show ?thesis by (simp add: configureRoutes_def)
qed

lemma NewBridge_no_panic: "fst (NewBridge os c n) \<noteq> Panic"
proof -
  have "ParseScope s \<noteq> Panic" for s by (simp add: ParseScope_def)
  moreover have "OpenMulticastSocket os mp n \<noteq> (Panic, m)" for mp m
    by (simp add: OpenMulticastSocket_def Let_def)
  ultimately show ?thesis
    by (auto simp: NewBridge_def Let_def split: outcome.split prod.split)
qed


section \<open>The command\<close>

text \<open>
  C31. The command comes up correctly or not at all.  Whatever the file, the flags and the answers of the
  operating system and the broker, start-up does not crash: it exits with status 1, or it serves a
  bridge that was started from a configuration that LoadConfig accepted, and whose receive loop then
  publishes for every sequence of datagrams what that configuration prescribes.
\<close>

theorem command_serves_its_configuration:
  assumes "\<forall>data c. yaml data = Some c \<longrightarrow> unresolved c"
  shows "case command os mq readFile yaml fl of
      Crashed \<Rightarrow> False
    | Exited status _ \<Rightarrow> status = 1
    | Running lvl b \<Rightarrow>
        (\<exists>c. LoadConfig readFile yaml (config_flag fl) = Ret c \<and> validated c \<and> started os mq c b \<and>
           (\<forall>evs. map published (mcastReceiveLoop b evs) =
              map (\<lambda>d. Some (prescribed_for c d)) (heard evs)))"
proof (cases "LoadConfig readFile yaml (config_flag fl)")
  case (Ret c)
  note loaded = LoadConfig_loaded [OF assms Ret]
  obtain r n where new: "NewBridge os c 0 = (r, n)" by (cases "NewBridge os c 0")
  then have "r \<noteq> Panic" using NewBridge_no_panic [of os c 0] by simp
  moreover have "case configureRoutes os mq (b0\<lparr>Verbose := verbose_flag fl\<rparr>) of
      Panic \<Rightarrow> False | Fail e \<Rightarrow> True | Ret b \<Rightarrow> started os mq c b" if "r = Ret b0" for b0
    using that new configureRoutes_no_panic [of os mq "b0\<lparr>Verbose := verbose_flag fl\<rparr>"]
    by (auto simp: started_def split: outcome.split)
  ultimately show ?thesis
    using loaded loop_prescribed by (force simp: command_def Ret new Let_def split: outcome.splits)
qed (use LoadConfig_no_panic in \<open>auto simp: command_def Let_def\<close>)

theorem command_serves_its_configuration_witness:
  "\<exists>b. command demo_os demo_mq (\<lambda>_. Some []) (\<lambda>_. Some demo_config) default_flags = Running LevelInfo b \<and>
     validated demo_loaded \<and> started demo_os demo_mq demo_loaded b \<and>
     map published (mcastReceiveLoop b [Datagram []]) = [Some []]"
proof -
  have unresolved: "\<forall>data c. (\<lambda>_ :: bytes. Some demo_config) data = Some c \<longrightarrow> unresolved c"
    by (simp add: unresolved_def demo_config_def)
  have load: "LoadConfig (\<lambda>_. Some []) (\<lambda>_. Some demo_config) path = Ret demo_loaded" for path
    by (simp add: LoadConfig_def demo_loaded)
  obtain b0 n where b0: "NewBridge demo_os demo_loaded 0 = (Ret b0, n)" "cfg b0 = demo_loaded"
    by (simp add: NewBridge_def ParseScope_def OpenMulticastSocket_def controlHook_def demo_os_def
        demo_loaded_def demo_config_def withDelayAndKey_def defaultScalars_def Let_def)
  have "Bridges demo_loaded = Bridges demo_config" by (simp add: demo_loaded_def withDelayAndKey_def defaultScalars_def Let_def)
  then obtain b1 where b1: "configureRoutes demo_os demo_mq (b0\<lparr>Verbose := False\<rparr>) = Ret b1"
    by (simp add: configureRoutes_def b0 demo_config_def demo_mq_def configureEntry_def dir_consts)
  have "\<exists>b. command demo_os demo_mq (\<lambda>_. Some []) (\<lambda>_. Some demo_config) default_flags = Running LevelInfo b"
    by (simp add: command_def load b0 b1 default_flags_def logLevel_def)
  then obtain b where b:
    "command demo_os demo_mq (\<lambda>_. Some []) (\<lambda>_. Some demo_config) default_flags = Running LevelInfo b" ..
  from command_serves_its_configuration [OF unresolved, where os = demo_os and
      mq = demo_mq and readFile = "\<lambda>_. Some []" and fl = default_flags]
  have main: "validated demo_loaded \<and> started demo_os demo_mq demo_loaded b" and loop:
    "map published (mcastReceiveLoop b evs) = map (\<lambda>d. Some (prescribed_for demo_loaded d)) (heard evs)" for evs
    by (simp_all add: b load)
  have "heard [Datagram []] = [[]]" "DecodePacket [] key = Fail ErrTooShort" for key
    by (simp_all add: heard_def map_filter_simps DecodePacket_def headerLen_def)
  then have "map published (mcastReceiveLoop b [Datagram []]) = [Some []]"
    unfolding loop by (simp add: prescribed_for_def)
  then show ?thesis by (intro exI [of _ b] conjI b main [THEN conjunct1] main [THEN conjunct2])
qed

end
