(* ===== verification/Spec2Isabelle.thy ===== *)
theory Spec2Isabelle
  imports Test_Vectors Schema_Props Proto_Accepts Json_Lossless Bridge_Main
begin

text \<open>
  Verification library for the MQTT bridge of esphome-mpubsub (\<open>bridges/mqtt-go\<close>).

  \<^bold>\<open>The program.\<close>  The bridge mirrors messages between an MQTT broker and a fabric of UDP multicast
  datagrams.  Every topic has an IPv6 group (a hash of the topic) and a CRC-32.  A datagram carries a
  12-byte header, and a body that is either raw bytes or a schema id with a protobuf message, plain or
  encrypted with XXTEA together with the topic's checksum.  \<open>main\<close> loads a YAML configuration,
  makes a \<open>Bridge\<close> and runs it.  \<open>Run\<close> turns the configured entries into MQTT subscriptions (towards
  the bus) and into a routing table by topic checksum (towards MQTT).  The subscription handler
  encodes a message, sends it, and starts its retransmissions on goroutines of their own; the
  receive loop decodes datagrams and publishes them on the routes that accept them.

  \<^bold>\<open>Theories and sources\<close> (all paths below \<open>bridges/mqtt-go\<close>).
  \<^item> \<open>Go_Prelude\<close>: what the components share.  Words, byte slices, the result type \<open>outcome\<close>
    (\<open>Ret\<close>, \<open>Fail\<close>, \<open>Panic\<close>), loops (\<open>go_for\<close>), bounds-checked accesses, and the collections
    \<open>go_simps\<close>, \<open>go_results\<close>, \<open>le_simps\<close>.
  \<^item> \<open>Go_Hash\<close>, \<open>Go_Float\<close>, \<open>Go_Time\<close>, \<open>Base64\<close>: the parts of Go's standard library that the bridge
    uses: CRC-32, SHA-256, floating point on bit patterns, \<open>time.ParseDuration\<close>, base64.
    \<open>Test_Vectors\<close> has their known answers and the datagram pinned in \<open>wire_test.go\<close>.
  \<^item> \<open>Xxtea\<close>, \<open>Wire\<close>, \<open>Wire_Props\<close>: \<open>wire.go\<close>.  The cipher's loops refine one-word updates of a ring
    of words (\<open>mix_at\<close>), from which decryption inverts encryption (locale \<open>block_cipher\<close>); \<open>datagram\<close> is
    the layout of \<open>docs/PROTOCOL.md\<close>, to which \<open>EncodePacket\<close> and \<open>DecodePacket\<close> are related.
  \<^item> \<open>Varint\<close>, \<open>Proto_Values\<close>, \<open>Proto\<close>, \<open>Proto_Types\<close>, \<open>Proto_Props\<close>: \<open>proto.go\<close>.  Each encoding of this
    layer is self-delimiting; the locale \<open>prefix_codec\<close> states that once and is interpreted by the
    varints (as its lossless extension) and by the fields of a message, whose sequence is the body.
    \<open>Proto_Accepts\<close> says which values a field's type accepts in terms of the numbers they denote, without
    the code's conversions, and shows that \<open>EncodeProto\<close> takes exactly those.
  \<^item> \<open>Schema\<close>, \<open>Schema_Props\<close>: \<open>schema.go\<close>, with the invariant \<open>schema_wf\<close> of an accepted schema.
  \<^item> \<open>Go_Utf8\<close>, \<open>Go_Decimal\<close>, \<open>Json_Number\<close>, \<open>Json_Text\<close>, \<open>Json_Text_Props\<close>: \<open>encoding/json\<close> of the
    standard library as the bridge calls it: UTF-8, decimal and binary floating point, the grammar of
    numbers, the reader \<open>Unmarshal\<close> (the value of the whole text, \<open>json_document\<close>, when it is an object or
    \<open>null\<close>) and the printer \<open>Marshal\<close>.  What is printed is read back (\<open>Unmarshal_Marshal\<close>), floats bit for
    bit (\<open>read_format_float64\<close>).
  \<^item> \<open>Json_Proto\<close>, \<open>Json_Proto_Props\<close>, \<open>Json_Lossless\<close>: \<open>json_proto.go\<close>, from JSON text to protobuf bodies
    and back to JSON text.
  \<^item> \<open>Config\<close>, \<open>Config_Props\<close>: \<open>config.go\<close>, with \<open>validated\<close> and \<open>defaulted\<close>, the two halves of what
    \<open>LoadConfig\<close> guarantees.
  \<^item> \<open>Mcast\<close>: \<open>mcast.go\<close> and \<open>net.IP.String\<close>, whose text keys the table of joined groups; the locale
    \<open>group_joiner\<close> is the contract that \<open>Run\<close> uses.
  \<^item> \<open>Routing\<close>: \<open>NewBridge\<close> and the loop of \<open>Run\<close> over the entries, in \<open>bridge.go\<close>.  A subscription keeps the
    entry that its handler closes over, and the messages that \<open>step\<close> delivers are handled for that entry.
  \<^item> \<open>Dispatch\<close>: \<open>mcastReceiveLoop\<close>, in \<open>bridge.go\<close>, and \<open>route_payload\<close>, the contract of one route.
  \<^item> \<open>Retransmit\<close>, \<open>Retransmit_Jobs\<close>, \<open>Retransmit_Props\<close>, \<open>Retransmit_Live\<close>: \<open>handleMQTTMessage\<close>, the
    retransmission goroutines and the shutdown of \<open>Run\<close>, in \<open>bridge.go\<close>, as the step relation \<open>step\<close> on
    a state \<open>engine\<close>, which records a panic with its reason: a channel closed a second time, or a ticker
    with an interval that is not positive.
  \<^item> \<open>Bridge_Props\<close>: the bridge as a whole; \<open>Bridge_Main\<close>: \<open>main.go\<close>.

  \<^bold>\<open>How the code is rendered.\<close>  A struct is a record and a Go map a partial function; a byte slice is a
  list of 8-bit words; integers keep their width, except \<open>int\<close> values used as lengths, indices and
  counts, which are integers.  A function that returns an error has an \<open>outcome\<close>; one that could panic
  yields \<open>Panic\<close> there, so the absence of panics is proved and not assumed.  Goroutines are interleaved:
  one step is what a goroutine does between two points where another can run, and time is the order of
  steps.  Log output is not part of the state; the reasons that are logged are constructors.

  \<^bold>\<open>What is shown.\<close>  For the codecs: round trips, the exact set of accepted inputs, no panics and no
  endless loops, typing of what is decoded, compatibility of schema versions.  For the configuration:
  exactly what is accepted, and what a loaded configuration keeps of the file.  For the receiving half: the
  loop publishes what the configuration prescribes for every sequence of reads, and the encryption
  policy holds for each datagram and what is published from it.  For the sending half, in every interleaving: where datagrams go, how often, that
  the table of indefinite retransmissions is exact, that no channel is closed twice, and when the engine
  can panic; that cancelled loops end in every fair run.  End to end: raw messages
  cross from one bridge to another unchanged, JSON documents as their types transport them, and exact
  ones as the same JSON object.  The findings (a ticker panic under \<open>promote_qos\<close>, a race at shutdown,
  oversize datagrams, the unused half of the key, truncated and lost numbers) are theorems too; wildcards
  in the bus topic of an mqtt_to_mpubsub entry, the undocumented scope \<open>org-local\<close> and the document
  \<open>null\<close>, which are accepted, are visible in the exact acceptance theorems.

  \<^bold>\<open>Bounds and termination.\<close>  Loops with an index are \<open>go_for\<close> over a finite list or recursions with a
  measure.  The two text parsers of the standard library take fuel: \<open>Unmarshal\<close> gives its
  recursive descent twice the length of the text, and by \<open>parse_fuel\<close> no larger fuel gives another
  result; \<open>parse_duration\<close> gives its terms the length of the text, which is enough by \<open>duration_terms_fuel\<close>.
  The shortest decimal of a float is searched among finitely many exponents, and \<open>shortest_ex\<close> shows that
  there is one.  The loop of \<open>DecodeProto\<close> ends only because every field consumes a
  byte, so it is a \<open>partial_function\<close>, for which \<open>None\<close> is a loop that never returns; \<open>DecodeProto_total\<close>
  shows that it always returns on slices shorter than \<open>2^63\<close> bytes (\<open>in_memory\<close>), as Go's are.
  The receive loop runs over the finite sequence of events read so far.

  \<^bold>\<open>Parameters.\<close>  What Go does not determine and code outside the repository are arguments: the orders in
  which the entries of a parsed map are visited (\<open>map_order\<close>, assumed only to visit each entry once,
  \<open>visits_all\<close>); reading the file and parsing YAML (\<open>LoadConfig\<close>; YAML is assumed not to set the fields
  that have no YAML name, \<open>unresolved\<close>); the conversions of floats to integers that Go leaves to the
  implementation (\<open>go_arch\<close>; \<open>float32(x)\<close> rounds as IEEE 754 does); system calls (\<open>os_calls\<close>, which refuse to
  send on a closed socket); the calls of the MQTT client (\<open>mqtt_calls\<close>), which delivers messages to
  handlers one at a time.

  \<^bold>\<open>Not modelled.\<close>  Log lines and \<open>verbosef\<close>, which only print; the asynchronous wait for a publish token,
  which only logs; the sharing of the receive buffer between the loop and a publish in flight (the
  model copies payloads); wrapping text of error values.  The C++ firmware and the Python code
  generator under \<open>components/mpubsub\<close> implement the same protocol and are outside this development.
\<close>

end
